(* ===== verification/Prelude.thy ===== *)
theory Prelude
  imports Main "HOL-Library.Word"
begin

text \<open>
  What every component of the kernel shares: the machine types, the values a Rust
  expression can take besides returning (a panic), checked arithmetic as the \<open>dev\<close>
  profile compiles it (the Makefile builds without \<open>--release\<close>, so an arithmetic
  overflow panics), slices and fixed-size byte conversions, and the generic lemmas
  about them. The collections \<open>res_simps\<close> and \<open>checked_simps\<close> carry the component
  proofs.
\<close>

unbundle bit_operations_syntax

section \<open>Machine types\<close>

type_synonym u8 = "8 word"
type_synonym u16 = "16 word"
type_synonym u32 = "32 word"
type_synonym u64 = "64 word"
type_synonym u128 = "128 word"
type_synonym usize = "64 word"

section \<open>Panics\<close>

text \<open>
  The kernel is compiled with \<open>panic-strategy = abort\<close>: a panic never returns to the
  caller. A computation that may panic is a value of \<open>panic + 'a\<close>. The
  constructor says which of Rust's checks failed. \<open>Diverges\<close> stands for a loop or a
  recursion that never returns, \<open>InvalidAccess\<close> for a memory access through a raw
  pointer that is outside of the object the code means to access.
\<close>

datatype panic =
    ArithOverflow
  | DivisionByZero
  | OutOfBounds
  | ExpectFailed
  | AssertFailed
  | ExplicitPanic
  | Diverges
  | InvalidAccess

type_synonym 'a res = "panic + 'a"

datatype ('a, 'e) rust_result = Ok 'a | Err 'e

fun rbind :: "'a res \<Rightarrow> ('a \<Rightarrow> 'b res) \<Rightarrow> 'b res" where
  "rbind (Inl e) f = Inl e"
| "rbind (Inr x) f = f x"

definition expect :: "'a option \<Rightarrow> 'a res" where
  "expect o' = (case o' of None \<Rightarrow> Inl ExpectFailed | Some x \<Rightarrow> Inr x)"

definition rassert :: "bool \<Rightarrow> unit res" where
  "rassert b = (if b then Inr () else Inl AssertFailed)"

text \<open>The \<open>?\<close> operator of a function that returns an \<open>Option\<close>.\<close>

definition rtry :: "'a option res \<Rightarrow> ('a \<Rightarrow> 'b option res) \<Rightarrow> 'b option res" where
  "rtry m f = rbind m (\<lambda>x. case x of None \<Rightarrow> Inr None | Some y \<Rightarrow> f y)"

named_theorems res_simps \<open>inversion of computations that may panic\<close>

lemma rbind_eq_Inr [res_simps]:
  "rbind m f = Inr y \<longleftrightarrow> (\<exists>x. m = Inr x \<and> f x = Inr y)"
  by (cases m) auto

lemma Inr_eq_rbind [res_simps]:
  "Inr y = rbind m f \<longleftrightarrow> (\<exists>x. m = Inr x \<and> f x = Inr y)"
  by (cases m) auto

lemma rbind_eq_Inl:
  "rbind m f = Inl e \<longleftrightarrow> m = Inl e \<or> (\<exists>x. m = Inr x \<and> f x = Inl e)"
  by (cases m) auto

lemma rbind_assoc: "rbind (rbind m f) g = rbind m (\<lambda>x. rbind (f x) g)"
  by (cases m) auto

lemma rbind_Inr_right [simp]: "rbind m Inr = m"
  by (cases m) auto

lemma rbind_cong [fundef_cong]:
  "m = m' \<Longrightarrow> (\<And>x. m' = Inr x \<Longrightarrow> f x = f' x) \<Longrightarrow> rbind m f = rbind m' f'"
  by (cases m') auto

lemma expect_simps [simp]: "expect None = Inl ExpectFailed" "expect (Some x) = Inr x"
  by (simp_all add: expect_def)

lemma expect_eq_Inr [res_simps]: "expect o' = Inr x \<longleftrightarrow> o' = Some x"
  by (cases o') auto

lemma rassert_simps [simp]: "rassert True = Inr ()" "rassert False = Inl AssertFailed"
  by (simp_all add: rassert_def)

lemma rassert_eq_Inr [res_simps]: "rassert b = Inr u \<longleftrightarrow> b"
  by (cases b) auto

lemma rtry_simps [simp]:
  "rtry (Inl e) f = Inl e" "rtry (Inr None) f = Inr None" "rtry (Inr (Some x)) f = f x"
  by (simp_all add: rtry_def)

lemma rtry_eq_Some [res_simps]: "rtry m f = Inr (Some y) \<longleftrightarrow> (\<exists>x. m = Inr (Some x) \<and> f x = Inr (Some y))"
  by (auto simp: rtry_def rbind_eq_Inr split: option.splits)

text \<open>\<open>mapM\<close>-style iteration of a fallible body over a list, as a \<open>for\<close> loop runs it.\<close>

fun rfold :: "('a \<Rightarrow> 's \<Rightarrow> 's res) \<Rightarrow> 'a list \<Rightarrow> 's \<Rightarrow> 's res" where
  "rfold f [] s = Inr s"
| "rfold f (x # xs) s = rbind (f x s) (rfold f xs)"

lemma rfold_append: "rfold f (xs @ ys) s = rbind (rfold f xs s) (rfold f ys)"
  by (induction xs arbitrary: s) (auto simp: rbind_assoc intro: rbind_cong)

lemma rfold_invariant:
  assumes "rfold f xs s = Inr t" and "P s"
    and "\<And>x s t. x \<in> set xs \<Longrightarrow> P s \<Longrightarrow> f x s = Inr t \<Longrightarrow> P t"
  shows "P t"
  using assms by (induction xs arbitrary: s) (auto simp: res_simps)

lemma rfold_cong [fundef_cong]:
  "xs = ys \<Longrightarrow> s = t \<Longrightarrow> (\<And>x u. x \<in> set ys \<Longrightarrow> f x u = g x u) \<Longrightarrow> rfold f xs s = rfold g ys t"
proof (induction ys arbitrary: xs s t)
  case Nil
  then show ?case by simp
next
  case (Cons y ys)
  then show ?case by (auto intro!: rbind_cong)
qed

section \<open>Checked arithmetic\<close>

definition checked_add :: "'a::len word \<Rightarrow> 'a word \<Rightarrow> 'a word res" where
  "checked_add a b = (if uint a + uint b < 2 ^ LENGTH('a) then Inr (a + b) else Inl ArithOverflow)"

definition checked_sub :: "'a::len word \<Rightarrow> 'a word \<Rightarrow> 'a word res" where
  "checked_sub a b = (if b \<le> a then Inr (a - b) else Inl ArithOverflow)"

definition checked_mul :: "'a::len word \<Rightarrow> 'a word \<Rightarrow> 'a word res" where
  "checked_mul a b = (if uint a * uint b < 2 ^ LENGTH('a) then Inr (a * b) else Inl ArithOverflow)"

definition checked_div :: "'a::len word \<Rightarrow> 'a word \<Rightarrow> 'a word res" where
  "checked_div a b = (if b = 0 then Inl DivisionByZero else Inr (a div b))"

text \<open>\<open>w << n\<close>: the shift amount is checked, bits shifted out are not.\<close>

definition checked_shl :: "'a::len word \<Rightarrow> nat \<Rightarrow> 'a word res" where
  "checked_shl w n = (if n < LENGTH('a) then Inr (push_bit n w) else Inl ArithOverflow)"

text \<open>Subtraction of \<open>usize\<close> values that the model keeps as \<^typ>\<open>nat\<close> (indices, orders).\<close>

definition nat_sub :: "nat \<Rightarrow> nat \<Rightarrow> nat res" where
  "nat_sub a b = (if b \<le> a then Inr (a - b) else Inl ArithOverflow)"

named_theorems checked_simps \<open>definitions of the checked operations\<close>

declare checked_add_def [checked_simps] checked_sub_def [checked_simps]
  checked_mul_def [checked_simps] checked_div_def [checked_simps]
  checked_shl_def [checked_simps] nat_sub_def [checked_simps]

lemma uint_add_less_iff:
  "uint (a :: 'a::len word) + uint b < 2 ^ LENGTH('a) \<longleftrightarrow> unat a + unat b < 2 ^ LENGTH('a)"
  unfolding uint_nat by (metis of_nat_add of_nat_less_iff of_nat_numeral of_nat_power)

lemma uint_mult_less_iff:
  "uint (a :: 'a::len word) * uint b < 2 ^ LENGTH('a) \<longleftrightarrow> unat a * unat b < 2 ^ LENGTH('a)"
  unfolding uint_nat by (metis of_nat_mult of_nat_less_iff of_nat_numeral of_nat_power)

lemma checked_add_eq_Inr [res_simps]:
  "checked_add (a :: 'a::len word) b = Inr c \<longleftrightarrow> unat a + unat b < 2 ^ LENGTH('a) \<and> c = a + b"
  by (auto simp: checked_add_def uint_add_less_iff)

lemma checked_sub_eq_Inr [res_simps]: "checked_sub a b = Inr c \<longleftrightarrow> b \<le> a \<and> c = a - b"
  by (auto simp: checked_sub_def)

lemma checked_mul_eq_Inr [res_simps]:
  "checked_mul (a :: 'a::len word) b = Inr c \<longleftrightarrow> unat a * unat b < 2 ^ LENGTH('a) \<and> c = a * b"
  by (auto simp: checked_mul_def uint_mult_less_iff)

lemma checked_shl_eq_Inr [res_simps]:
  "checked_shl (w :: 'a::len word) n = Inr c \<longleftrightarrow> n < LENGTH('a) \<and> c = push_bit n w"
  by (auto simp: checked_shl_def)

lemma nat_sub_eq_Inr [res_simps]: "nat_sub a b = Inr c \<longleftrightarrow> b \<le> a \<and> c = a - b"
  by (auto simp: nat_sub_def)

lemma checked_add_unat:
  "checked_add (a :: 'a::len word) b = Inr c \<Longrightarrow> unat c = unat a + unat b"
  by (auto simp: checked_add_eq_Inr unat_word_ariths)

lemma checked_sub_unat: "checked_sub a b = Inr c \<Longrightarrow> unat c = unat a - unat b"
  by (auto simp: checked_sub_def unat_sub split: if_splits)

section \<open>Indexing and slices\<close>

definition index :: "'a list \<Rightarrow> nat \<Rightarrow> 'a res" where
  "index xs i = (if i < length xs then Inr (xs ! i) else Inl OutOfBounds)"

text \<open>\<open>xs[a..b]\<close>, \<open>xs[a..]\<close> and \<open>xs.split_at(n)\<close>.\<close>

definition slice :: "'a list \<Rightarrow> nat \<Rightarrow> nat \<Rightarrow> 'a list res" where
  "slice xs a b = (if a \<le> b \<and> b \<le> length xs then Inr (take (b - a) (drop a xs)) else Inl OutOfBounds)"

definition slice_from :: "'a list \<Rightarrow> nat \<Rightarrow> 'a list res" where
  "slice_from xs a = (if a \<le> length xs then Inr (drop a xs) else Inl OutOfBounds)"

definition split_at :: "'a list \<Rightarrow> nat \<Rightarrow> ('a list \<times> 'a list) res" where
  "split_at xs n = (if n \<le> length xs then Inr (take n xs, drop n xs) else Inl OutOfBounds)"

text \<open>\<open>buf[pos..pos + bytes.len()].copy_from_slice(bytes)\<close>\<close>

definition write_slice :: "'a list \<Rightarrow> nat \<Rightarrow> 'a list \<Rightarrow> 'a list res" where
  "write_slice buf pos bytes =
     (if pos + length bytes \<le> length buf
      then Inr (take pos buf @ bytes @ drop (pos + length bytes) buf)
      else Inl OutOfBounds)"

lemma index_eq_Inr [res_simps]: "index xs i = Inr x \<longleftrightarrow> i < length xs \<and> x = xs ! i"
  by (auto simp: index_def)

lemma slice_eq_Inr [res_simps]:
  "slice xs a b = Inr ys \<longleftrightarrow> a \<le> b \<and> b \<le> length xs \<and> ys = take (b - a) (drop a xs)"
  by (auto simp: slice_def)

lemma slice_from_eq_Inr [res_simps]:
  "slice_from xs a = Inr ys \<longleftrightarrow> a \<le> length xs \<and> ys = drop a xs"
  by (auto simp: slice_from_def)

lemma split_at_eq_Inr [res_simps]:
  "split_at xs n = Inr p \<longleftrightarrow> n \<le> length xs \<and> p = (take n xs, drop n xs)"
  by (auto simp: split_at_def)

lemma write_slice_eq_Inr [res_simps]:
  "write_slice buf pos bytes = Inr buf' \<longleftrightarrow>
     pos + length bytes \<le> length buf \<and>
     buf' = take pos buf @ bytes @ drop (pos + length bytes) buf"
  by (auto simp: write_slice_def)

lemma write_slice_length: "write_slice buf pos bytes = Inr buf' \<Longrightarrow> length buf' = length buf"
  by (auto simp: write_slice_def split: if_splits)

section \<open>Bit patterns of addresses\<close>

text \<open>The simplifier writes \<open>1 << n\<close> as \<open>2 ^ n\<close>.\<close>

lemma bit_exp_word [simp]: "bit (2 ^ n :: 'a::len word) i \<longleftrightarrow> i = n \<and> n < LENGTH('a)"
  by (auto simp: bit_exp_iff)

lemma exp_nonzero_word: "n < LENGTH('a) \<Longrightarrow> (2 ^ n :: 'a::len word) \<noteq> 0"
  by simp

lemma unat_exp_word: "n < LENGTH('a) \<Longrightarrow> unat (2 ^ n :: 'a::len word) = 2 ^ n"
  by (simp add: of_nat_inverse)

lemma unat_shr1_less: "w \<noteq> 0 \<Longrightarrow> unat (drop_bit (Suc 0) w) < unat (w :: 'a::len word)"
  using drop_bit_eq_div unat_drop_bit_eq
  by (metis (no_types, opaque_lifting) One_nat_def bot_nat_0.not_eq_extremum div_less_dividend
      lessI numeral_2_eq_2 power_one_right unat_eq_zero)

lemma unat_diff_less:
  assumes "d \<noteq> 0" and "d \<le> s"
  shows "unat (s - d) < unat (s :: 'a::len word)"
proof -
  have "0 < unat d" and "unat d \<le> unat s" using assms by (auto simp: unat_gt_0 word_le_nat_alt)
  then show ?thesis using assms by (simp add: unat_sub)
qed

lemma bit_mask_word [simp]:
  "bit (mask n :: 'a::len word) i \<longleftrightarrow> i < n \<and> i < LENGTH('a)"
  by (auto simp: bit_mask_iff)

lemma drop_bit_eq_iff_bits:
  "drop_bit n x = drop_bit n (y :: 'a::len word) \<longleftrightarrow> (\<forall>i\<ge>n. bit x i = bit y i)"
proof
  assume eq: "drop_bit n x = drop_bit n y"
  show "\<forall>i\<ge>n. bit x i = bit y i"
  proof (intro allI impI)
    fix i assume "n \<le> i"
    moreover have "bit (drop_bit n x) (i - n) = bit (drop_bit n y) (i - n)" by (simp add: eq)
    ultimately show "bit x i = bit y i" by (simp add: bit_drop_bit_eq)
  qed
next
  assume "\<forall>i\<ge>n. bit x i = bit y i"
  then show "drop_bit n x = drop_bit n y"
    by (intro bit_eqI) (simp add: bit_drop_bit_eq)
qed

lemma take_bit_eq_0_iff_bits:
  "take_bit n x = (0 :: 'a::len word) \<longleftrightarrow> (\<forall>i<n. \<not> bit x i)"
proof
  assume "take_bit n x = 0"
  then show "\<forall>i<n. \<not> bit x i" by (metis bit_0_eq bit_take_bit_iff bot_apply bot_bool_def)
next
  assume "\<forall>i<n. \<not> bit x i"
  then show "take_bit n x = 0" by (intro bit_eqI) (simp add: bit_take_bit_iff)
qed

lemma unat_less_exp: "unat (a :: 'a::len word) < 2 ^ LENGTH('a)"
  by (fact unsigned_less)

lemma div_eq_iff_interval:
  "0 < d \<Longrightarrow> x div d = k \<longleftrightarrow> d * k \<le> x \<and> x < d * k + d" for d x k :: nat
  by (metis add.commute div_nat_eqI dividend_less_times_div mult_Suc_right times_div_less_eq_dividend)

lemma checked_add_usize [simp]:
  "unat a + unat b < 2 ^ 64 \<Longrightarrow> checked_add a b = Inr (a + b)" for a b :: usize
  using checked_add_eq_Inr[of a b] by simp

lemma unat_add_usize: "unat a + unat b < 2 ^ 64 \<Longrightarrow> unat (a + b) = unat a + unat b" for a b :: usize
  by (simp add: unat_word_ariths)

lemma dvd_less_iff_add_le: "d dvd a \<Longrightarrow> d dvd b \<Longrightarrow> 0 < d \<Longrightarrow> a < b \<longleftrightarrow> a + d \<le> b" for a b d :: nat
  using dvd_imp_le[OF dvd_diff_nat[of d b a]] by linarith

lemma next_multiple:
  fixes h d :: nat
  assumes "0 < d"
  shows "h < (h div d + 1) * d" and "(h div d + 1) * d \<le> h + d"
  using div_mult_mod_eq[of h d] mod_less_divisor[OF assms, of h] unfolding add_mult_distrib by linarith+

end
