(* ===== verification/Semaphore.thy ===== *)
theory Semaphore
  imports Prelude
begin

text \<open>
  Counting semaphores (\<open>src/locking/semaphore.rs\<close>). A task that cannot go on queues itself and blocks in
  the scheduler; who changes the count afterwards takes a task off the other queue and wakes it. On the
  single processor, code that holds the scheduler lock runs with interrupts disabled, so the body of
  each loop, taking a task off a queue, and waking it are each one step, and any other task or interrupt
  may come in between.
\<close>

section \<open>Model\<close>

text \<open>What the code calls of the scheduler: \<open>sched::lock\<close>, dropping the guard, \<open>sched::current_task\<close>, and
  \<open>block\<close> and \<open>wake\<close> of the guard.\<close>

record 'k sched_api =
  api_lock :: "'k \<Rightarrow> 'k res"
  api_unlock :: "'k \<Rightarrow> 'k"
  api_current :: "'k \<Rightarrow> usize"
  api_block :: "u64 \<Rightarrow> 'k \<Rightarrow> 'k res"
  api_wake :: "usize \<Rightarrow> 'k \<Rightarrow> 'k res"

record semaphore =
  sem_count :: usize
  sem_max :: usize
  waiting :: "usize list"
  releasing :: "usize list"

definition semaphore_new :: "usize \<Rightarrow> usize \<Rightarrow> semaphore res" where
  "semaphore_new init maximum =
     rbind (rassert (init \<le> maximum)) (\<lambda>_.
     Inr \<lparr>sem_count = init, sem_max = maximum, waiting = [], releasing = []\<rparr>)"

text \<open>The two calls of \<open>try_update\<close> on the count.\<close>

definition try_take :: "semaphore \<Rightarrow> semaphore option" where
  "try_take s = (if sem_count s > 0 then Some (s\<lparr>sem_count := sem_count s - 1\<rparr>) else None)"

definition try_give :: "semaphore \<Rightarrow> semaphore option" where
  "try_give s = (if sem_count s < sem_max s then Some (s\<lparr>sem_count := sem_count s + 1\<rparr>) else None)"

text \<open>One round of the loop of \<open>wait\<close> and of the one of \<open>signal\<close>: whether it leaves the loop, and the state,
  which after \<open>block\<close> is the one of the task that goes on instead.\<close>

definition wait_round :: "'k sched_api \<Rightarrow> u64 \<Rightarrow> semaphore \<Rightarrow> 'k \<Rightarrow> (bool \<times> semaphore \<times> 'k) res" where
  "wait_round api now s k =
     rbind (api_lock api k) (\<lambda>k.
     case try_take s of
       Some s \<Rightarrow> Inr (True, s, api_unlock api k)
     | None \<Rightarrow>
         let s = s\<lparr>waiting := waiting s @ [api_current api k]\<rparr> in
         rbind (api_block api now k) (\<lambda>k. Inr (False, s, k)))"

definition signal_round :: "'k sched_api \<Rightarrow> u64 \<Rightarrow> semaphore \<Rightarrow> 'k \<Rightarrow> (bool \<times> semaphore \<times> 'k) res" where
  "signal_round api now s k =
     rbind (api_lock api k) (\<lambda>k.
     case try_give s of
       Some s \<Rightarrow> Inr (True, s, api_unlock api k)
     | None \<Rightarrow>
         let s = s\<lparr>releasing := releasing s @ [api_current api k]\<rparr> in
         rbind (api_block api now k) (\<lambda>k. Inr (False, s, k)))"

text \<open>What follows each loop: \<open>pop_front\<close> under the lock of the queue, then \<open>sched::lock().wake(task)\<close>.\<close>

definition pop_releasing :: "semaphore \<Rightarrow> usize option \<times> semaphore" where
  "pop_releasing s = (case releasing s of [] \<Rightarrow> (None, s) | t # q \<Rightarrow> (Some t, s\<lparr>releasing := q\<rparr>))"

definition pop_waiting :: "semaphore \<Rightarrow> usize option \<times> semaphore" where
  "pop_waiting s = (case waiting s of [] \<Rightarrow> (None, s) | t # q \<Rightarrow> (Some t, s\<lparr>waiting := q\<rparr>))"

definition lock_wake :: "'k sched_api \<Rightarrow> usize \<Rightarrow> 'k \<Rightarrow> 'k res" where
  "lock_wake api t k = rbind (api_lock api k) (\<lambda>k. rbind (api_wake api t k) (\<lambda>k. Inr (api_unlock api k)))"

definition wake_popped :: "'k sched_api \<Rightarrow> usize option \<times> semaphore \<Rightarrow> 'k \<Rightarrow> (semaphore \<times> 'k) res" where
  "wake_popped api p k =
     (case p of (None, s) \<Rightarrow> Inr (s, k) | (Some t, s) \<Rightarrow> rbind (lock_wake api t k) (\<lambda>k. Inr (s, k)))"

text \<open>The calls that never block, from start to end.\<close>

definition try_wait :: "'k sched_api \<Rightarrow> semaphore \<Rightarrow> 'k \<Rightarrow> (bool \<times> semaphore \<times> 'k) res" where
  "try_wait api s k =
     (case try_take s of
        None \<Rightarrow> Inr (False, s, k)
      | Some s \<Rightarrow> rbind (wake_popped api (pop_releasing s) k) (\<lambda>(s, k). Inr (True, s, k)))"

definition try_signal :: "'k sched_api \<Rightarrow> semaphore \<Rightarrow> 'k \<Rightarrow> (bool \<times> semaphore \<times> 'k) res" where
  "try_signal api s k =
     (case try_give s of
        None \<Rightarrow> Inr (False, s, k)
      | Some s \<Rightarrow> rbind (wake_popped api (pop_waiting s) k) (\<lambda>(s, k). Inr (True, s, k)))"

section \<open>Interleavings\<close>

text \<open>Where a task is: outside, in one of the loops, about to take a task off a queue, or about to wake it.\<close>

datatype sem_pc = Outside | InWait | PopReleasing | WakeReleaser usize | InSignal | PopWaiting | WakeWaiter usize

record 'k sem_sys =
  ss_sem :: semaphore
  ss_kernel :: 'k
  ss_pc :: "usize \<Rightarrow> sem_pc"

text \<open>
  The steps. The running task goes on where it is; while it is outside, it may enter an operation, start
  one of the calls that do not block, or block in the scheduler for a reason of its own, and be woken
  from that. An interrupt may run one of the calls that do not block at any point, and \<open>preempt\<close>, the
  check of the run time at the end of an interrupt, may switch. Task 0, the idle task, never enters a
  blocking operation: the scheduler runs it even while it is blocked.
\<close>

inductive sem_step :: "'k sched_api \<Rightarrow> (u64 \<Rightarrow> u64 \<Rightarrow> 'k \<Rightarrow> 'k res) \<Rightarrow> 'k sem_sys \<Rightarrow> 'k sem_sys \<Rightarrow> bool"
  for api preempt
  where
  enter: "pc (api_current api k) = Outside \<Longrightarrow> api_current api k \<noteq> 0 \<Longrightarrow> p \<in> {InWait, InSignal} \<Longrightarrow>
    sem_step api preempt \<lparr>ss_sem = s, ss_kernel = k, ss_pc = pc\<rparr>
      \<lparr>ss_sem = s, ss_kernel = k, ss_pc = pc(api_current api k := p)\<rparr>"
| wait_through: "pc (api_current api k) = InWait \<Longrightarrow> wait_round api now s k = Inr (True, s', k') \<Longrightarrow>
    sem_step api preempt \<lparr>ss_sem = s, ss_kernel = k, ss_pc = pc\<rparr>
      \<lparr>ss_sem = s', ss_kernel = k', ss_pc = pc(api_current api k := PopReleasing)\<rparr>"
| wait_blocks: "pc (api_current api k) = InWait \<Longrightarrow> wait_round api now s k = Inr (False, s', k') \<Longrightarrow>
    sem_step api preempt \<lparr>ss_sem = s, ss_kernel = k, ss_pc = pc\<rparr> \<lparr>ss_sem = s', ss_kernel = k', ss_pc = pc\<rparr>"
| signal_through: "pc (api_current api k) = InSignal \<Longrightarrow> signal_round api now s k = Inr (True, s', k') \<Longrightarrow>
    sem_step api preempt \<lparr>ss_sem = s, ss_kernel = k, ss_pc = pc\<rparr>
      \<lparr>ss_sem = s', ss_kernel = k', ss_pc = pc(api_current api k := PopWaiting)\<rparr>"
| signal_blocks: "pc (api_current api k) = InSignal \<Longrightarrow> signal_round api now s k = Inr (False, s', k') \<Longrightarrow>
    sem_step api preempt \<lparr>ss_sem = s, ss_kernel = k, ss_pc = pc\<rparr> \<lparr>ss_sem = s', ss_kernel = k', ss_pc = pc\<rparr>"
| take_releasing: "pc (api_current api k) = PopReleasing \<Longrightarrow> pop_releasing s = (r, s') \<Longrightarrow>
    sem_step api preempt \<lparr>ss_sem = s, ss_kernel = k, ss_pc = pc\<rparr>
      \<lparr>ss_sem = s', ss_kernel = k, ss_pc = pc(api_current api k := (case r of None \<Rightarrow> Outside | Some u \<Rightarrow> WakeReleaser u))\<rparr>"
| take_waiting: "pc (api_current api k) = PopWaiting \<Longrightarrow> pop_waiting s = (r, s') \<Longrightarrow>
    sem_step api preempt \<lparr>ss_sem = s, ss_kernel = k, ss_pc = pc\<rparr>
      \<lparr>ss_sem = s', ss_kernel = k, ss_pc = pc(api_current api k := (case r of None \<Rightarrow> Outside | Some u \<Rightarrow> WakeWaiter u))\<rparr>"
| wake_queued: "pc (api_current api k) \<in> {WakeReleaser u, WakeWaiter u} \<Longrightarrow> lock_wake api u k = Inr k' \<Longrightarrow>
    sem_step api preempt \<lparr>ss_sem = s, ss_kernel = k, ss_pc = pc\<rparr>
      \<lparr>ss_sem = s, ss_kernel = k', ss_pc = pc(api_current api k := Outside)\<rparr>"
| start_try_wait: "pc (api_current api k) = Outside \<Longrightarrow> try_take s = Some s' \<Longrightarrow>
    sem_step api preempt \<lparr>ss_sem = s, ss_kernel = k, ss_pc = pc\<rparr>
      \<lparr>ss_sem = s', ss_kernel = k, ss_pc = pc(api_current api k := PopReleasing)\<rparr>"
| start_try_signal: "pc (api_current api k) = Outside \<Longrightarrow> try_give s = Some s' \<Longrightarrow>
    sem_step api preempt \<lparr>ss_sem = s, ss_kernel = k, ss_pc = pc\<rparr>
      \<lparr>ss_sem = s', ss_kernel = k, ss_pc = pc(api_current api k := PopWaiting)\<rparr>"
| interrupt_try_wait: "try_wait api s k = Inr (b, s', k') \<Longrightarrow>
    sem_step api preempt \<lparr>ss_sem = s, ss_kernel = k, ss_pc = pc\<rparr> \<lparr>ss_sem = s', ss_kernel = k', ss_pc = pc\<rparr>"
| interrupt_try_signal: "try_signal api s k = Inr (b, s', k') \<Longrightarrow>
    sem_step api preempt \<lparr>ss_sem = s, ss_kernel = k, ss_pc = pc\<rparr> \<lparr>ss_sem = s', ss_kernel = k', ss_pc = pc\<rparr>"
| preempted: "preempt now now2 k = Inr k' \<Longrightarrow>
    sem_step api preempt \<lparr>ss_sem = s, ss_kernel = k, ss_pc = pc\<rparr> \<lparr>ss_sem = s, ss_kernel = k', ss_pc = pc\<rparr>"
| block_outside: "pc (api_current api k) = Outside \<Longrightarrow> api_lock api k = Inr k1 \<Longrightarrow> api_block api now k1 = Inr k' \<Longrightarrow>
    sem_step api preempt \<lparr>ss_sem = s, ss_kernel = k, ss_pc = pc\<rparr> \<lparr>ss_sem = s, ss_kernel = k', ss_pc = pc\<rparr>"
| wake_outside: "pc u = Outside \<Longrightarrow> u \<noteq> api_current api k \<Longrightarrow> lock_wake api u k = Inr k' \<Longrightarrow>
    sem_step api preempt \<lparr>ss_sem = s, ss_kernel = k, ss_pc = pc\<rparr> \<lparr>ss_sem = s, ss_kernel = k', ss_pc = pc\<rparr>"

section \<open>One side of a semaphore\<close>

text \<open>
  The tasks that wait for the count to rise and the tasks that wait for it to fall behave alike: \<open>ins\<close> is
  the loop a task of this side is in, \<open>pop\<close> and \<open>wk\<close> where the task that will wake it is, and \<open>level\<close> how
  many of them could go on.
\<close>

definition side_weight :: "sem_pc \<Rightarrow> sem_pc \<Rightarrow> (usize \<Rightarrow> sem_pc) \<Rightarrow> bool \<Rightarrow> sem_pc \<Rightarrow> nat" where
  "side_weight ins pop wk runnable p =
     (if p = ins then of_bool runnable else if p = pop \<or> p \<in> range wk then 1 else 0)"

definition side_sum :: "sem_pc \<Rightarrow> sem_pc \<Rightarrow> (usize \<Rightarrow> sem_pc) \<Rightarrow> usize set \<Rightarrow> (usize \<Rightarrow> sem_pc) \<Rightarrow> nat" where
  "side_sum ins pop wk R pc = (\<Sum>t\<in>UNIV. side_weight ins pop wk (t \<in> R) (pc t))"

text \<open>Who is about to wake whom, and the blocked tasks of this side.\<close>

definition side_wakers :: "(usize \<Rightarrow> sem_pc) \<Rightarrow> (usize \<Rightarrow> sem_pc) \<Rightarrow> (usize \<times> usize) set" where
  "side_wakers wk pc = {(t, u). pc t = wk u}"

definition side_blocked :: "sem_pc \<Rightarrow> usize set \<Rightarrow> (usize \<Rightarrow> sem_pc) \<Rightarrow> usize set" where
  "side_blocked ins R pc = {t. pc t = ins \<and> t \<notin> R}"

text \<open>
  Each blocked task is once in the queue or about to be woken by one task; and while the queue is not
  empty, for each task that could go on one is on its way: runnable in the loop, or about to be woken,
  or about to be taken off the queue.
\<close>

definition side_inv ::
  "sem_pc \<Rightarrow> sem_pc \<Rightarrow> (usize \<Rightarrow> sem_pc) \<Rightarrow> usize set \<Rightarrow> (usize \<Rightarrow> sem_pc) \<Rightarrow> usize list \<Rightarrow> nat \<Rightarrow> bool" where
  "side_inv ins pop wk R pc q level \<longleftrightarrow>
     distinct q \<and> inj_on snd (side_wakers wk pc) \<and> set q \<inter> snd ` side_wakers wk pc = {} \<and>
     set q \<union> snd ` side_wakers wk pc = side_blocked ins R pc \<and>
     (q \<noteq> [] \<longrightarrow> level \<le> side_sum ins pop wk R pc)"

lemma sum_change:
  fixes f g :: "'a :: finite \<Rightarrow> nat"
  assumes "\<And>x. x \<noteq> a \<Longrightarrow> g x = f x"
  shows "sum g UNIV + f a = sum f UNIV + g a"
proof -
  have "sum g (UNIV - {a}) = sum f (UNIV - {a})" using assms by (intro sum.cong) auto
  then show ?thesis by (simp add: sum.remove[of UNIV a])
qed

locale sem_side =
  fixes ins pop :: sem_pc and wk :: "usize \<Rightarrow> sem_pc"
  assumes sep: "ins \<noteq> pop" "wk u \<noteq> ins" "wk u \<noteq> pop" and wk_inj: "wk u = wk v \<Longrightarrow> u = v"
begin

lemma weight_simps [simp]:
  "side_weight ins pop wk r ins = of_bool r" "side_weight ins pop wk r pop = 1" "side_weight ins pop wk r (wk u) = 1"
  using sep by (auto simp: side_weight_def)

text \<open>A step at one task.\<close>

lemma sum_at:
  assumes "\<And>t. t \<noteq> a \<Longrightarrow> pc' t = pc t \<and> (t \<in> R' \<longleftrightarrow> t \<in> R)"
  shows "side_sum ins pop wk R' pc' + side_weight ins pop wk (a \<in> R) (pc a) =
    side_sum ins pop wk R pc + side_weight ins pop wk (a \<in> R') (pc' a)"
  unfolding side_sum_def using assms by (intro sum_change) simp

text \<open>A task that is not on this side.\<close>

definition off :: "sem_pc \<Rightarrow> bool" where
  "off p \<longleftrightarrow> p \<noteq> ins \<and> p \<noteq> pop \<and> p \<notin> range wk"

lemma weight_off [simp]: "off p \<Longrightarrow> side_weight ins pop wk r p = 0"
  by (auto simp: off_def side_weight_def)

lemma off_simps: "off p \<Longrightarrow> p \<noteq> ins" "off p \<Longrightarrow> p \<noteq> pop" "off p \<Longrightarrow> p \<noteq> wk u"
  by (auto simp: off_def)

lemma not_wk: "off p \<Longrightarrow> p \<noteq> wk u" "ins \<noteq> wk u" "pop \<noteq> wk u"
  using sep(2,3)[of u] by (auto simp: off_def)

lemma wakers_off:
  assumes "off (pc a) \<or> pc a = ins \<or> pc a = pop" and "off p \<or> p = ins \<or> p = pop"
  shows "side_wakers wk (pc(a := p)) = side_wakers wk pc"
proof -
  have "pc a \<noteq> wk u" "p \<noteq> wk u" for u using assms not_wk by metis+
  then show ?thesis by (auto simp: side_wakers_def split: if_splits) metis+
qed

lemma blocked_upd: "side_blocked ins R (pc(a := p)) = (if p = ins \<and> a \<notin> R then insert a else (\<lambda>A. A - {a})) (side_blocked ins R pc)"
  by (auto simp: side_blocked_def)

lemma blocked_R: "(\<And>t. pc t = ins \<Longrightarrow> t \<in> R' \<longleftrightarrow> t \<in> R) \<Longrightarrow> side_blocked ins R' pc = side_blocked ins R pc"
  by (auto simp: side_blocked_def)

lemma not_blocked: "pc a \<noteq> ins \<or> a \<in> R \<Longrightarrow> a \<notin> side_blocked ins R pc"
  by (auto simp: side_blocked_def)

lemma side_init:
  assumes "\<And>t. off (pc t)"
  shows "side_inv ins pop wk R pc [] n"
proof -
  have "side_wakers wk pc = {}" "side_blocked ins R pc = {}"
    using assms off_simps by (auto simp: side_wakers_def side_blocked_def)
  then show ?thesis by (simp add: side_inv_def)
qed

text \<open>A task off this side changes its place or its runnability.\<close>

lemma stays_off:
  assumes "side_inv ins pop wk R pc q n" and "off (pc a)" and "off p" and "n' \<le> n"
    and "\<And>t. t \<noteq> a \<Longrightarrow> t \<in> R' \<longleftrightarrow> t \<in> R"
  shows "side_inv ins pop wk R' (pc(a := p)) q n'"
proof -
  have "side_sum ins pop wk R' (pc(a := p)) = side_sum ins pop wk R pc"
    using sum_at[of a "pc(a := p)" pc R' R] assms by simp
  moreover have "side_blocked ins R' (pc(a := p)) = side_blocked ins R pc"
    using assms(2,3,5) off_simps(1) by (auto simp: side_blocked_def)
  ultimately show ?thesis using assms(1-4) by (auto simp: side_inv_def wakers_off)
qed

lemma stays_off_R:
  assumes "side_inv ins pop wk R pc q n" and "off (pc a)" and "\<And>t. t \<noteq> a \<Longrightarrow> t \<in> R' \<longleftrightarrow> t \<in> R"
  shows "side_inv ins pop wk R' pc q n"
  using stays_off[OF assms(1,2,2) order.refl assms(3)] by simp

lemma enters:
  assumes "side_inv ins pop wk R pc q n" and "off (pc a)" and "a \<in> R"
  shows "side_inv ins pop wk R (pc(a := ins)) q n"
proof -
  have "side_sum ins pop wk R (pc(a := ins)) = side_sum ins pop wk R pc + 1"
    using sum_at[of a "pc(a := ins)" pc R R] assms by simp
  then show ?thesis using assms not_blocked[of pc a R] off_simps(1)[OF assms(2)] by (auto simp: side_inv_def wakers_off blocked_upd)
qed

lemma blocks:
  assumes "side_inv ins pop wk R pc q 0" and "pc a = ins" and "a \<in> R"
  shows "side_inv ins pop wk (R - {a}) pc (q @ [a]) 0"
proof -
  have "side_blocked ins (R - {a}) pc = insert a (side_blocked ins R pc)" "a \<notin> side_blocked ins R pc"
    using assms(2,3) by (auto simp: side_blocked_def)
  then show ?thesis using assms(1) by (auto simp: side_inv_def)
qed

lemma leaves:
  assumes "side_inv ins pop wk R pc q (Suc n)" and "pc a = ins" and "a \<in> R" and "off p \<or> p = pop"
  shows "side_inv ins pop wk R (pc(a := p)) q n"
proof -
  have "side_sum ins pop wk R pc \<le> side_sum ins pop wk R (pc(a := p)) + 1"
    using sum_at[of a "pc(a := p)" pc R R] assms by simp
  moreover have "p \<noteq> ins" using assms(4) off_simps(1) sep(1) by auto
  ultimately show ?thesis using assms not_blocked[of pc a R] by (auto simp: side_inv_def wakers_off blocked_upd)
qed

lemma falls: "side_inv ins pop wk R pc q n \<Longrightarrow> n' \<le> n \<Longrightarrow> side_inv ins pop wk R pc q n'"
  by (auto simp: side_inv_def)

lemma provides:
  assumes "side_inv ins pop wk R pc q n" and "off (pc a)"
  shows "side_inv ins pop wk R (pc(a := pop)) q (Suc n)"
proof -
  have "side_sum ins pop wk R (pc(a := pop)) = side_sum ins pop wk R pc + 1"
    using sum_at[of a "pc(a := pop)" pc R R] assms by simp
  then show ?thesis using assms sep(1) not_blocked[of pc a R] off_simps(1) by (auto simp: side_inv_def wakers_off blocked_upd)
qed

lemma serves:
  assumes "side_inv ins pop wk R pc (u # q) n"
  shows "side_inv ins pop wk (insert u R) pc q (Suc n)"
proof -
  have u: "pc u = ins" "u \<notin> R" using assms by (auto simp: side_inv_def side_blocked_def)
  then have "side_sum ins pop wk (insert u R) pc = side_sum ins pop wk R pc + 1"
    using sum_at[of u pc pc "insert u R" R] by simp
  moreover have "side_blocked ins (insert u R) pc = side_blocked ins R pc - {u}" by (auto simp: side_blocked_def)
  ultimately show ?thesis using assms by (auto simp: side_inv_def)
qed

lemma pops:
  assumes "side_inv ins pop wk R pc (u # q) n" and "pc a = pop"
  shows "side_inv ins pop wk R (pc(a := wk u)) q n"
proof -
  have sum: "side_sum ins pop wk R (pc(a := wk u)) = side_sum ins pop wk R pc"
    using sum_at[of a "pc(a := wk u)" pc R R] assms by simp
  have w: "side_wakers wk (pc(a := wk u)) = insert (a, u) (side_wakers wk pc)" "(a, v) \<notin> side_wakers wk pc" for v
    unfolding side_wakers_def fun_upd_apply assms(2) using not_wk(3) wk_inj assms(2) by (auto split: if_splits) metis+
  have "side_blocked ins R (pc(a := wk u)) = side_blocked ins R pc"
    using assms(2) sep(1,2) by (auto simp: side_blocked_def)
  then show ?thesis using assms(1) sum unfolding side_inv_def w by auto
qed

lemma pops_none:
  assumes "side_inv ins pop wk R pc [] n" and "pc a = pop" and "off p"
  shows "side_inv ins pop wk R (pc(a := p)) [] n"
  using assms sep(1) not_blocked[of pc a R] off_simps(1) by (auto simp: side_inv_def wakers_off blocked_upd)

lemma wakes:
  assumes "side_inv ins pop wk R pc q n" and "pc a = wk u" and "off p"
  shows "side_inv ins pop wk (insert u R) (pc(a := p)) q n"
proof -
  have "(a, u) \<in> side_wakers wk pc" using assms(2) by (simp add: side_wakers_def)
  then have u: "u \<in> side_blocked ins R pc" "u \<notin> set q" using assms(1) unfolding side_inv_def by force+
  then have u': "pc u = ins" "u \<notin> R" by (simp_all add: side_blocked_def)
  have "side_sum ins pop wk (insert u R) (pc(a := p)) + 1 = side_sum ins pop wk (insert u R) pc"
    using sum_at[of a "pc(a := p)" pc "insert u R" "insert u R"] assms by simp
  moreover have "side_sum ins pop wk (insert u R) pc = side_sum ins pop wk R pc + 1"
    using sum_at[of u pc pc "insert u R" R] u' by simp
  moreover have w: "side_wakers wk (pc(a := p)) = side_wakers wk pc - {(a, u)}"
    using assms(2) not_wk(1)[OF assms(3)] wk_inj[of u] by (auto simp: side_wakers_def split: if_splits) metis
  moreover have "snd ` (side_wakers wk pc - {(a, u)}) = snd ` side_wakers wk pc - {u}"
    using assms(1) \<open>(a, u) \<in> side_wakers wk pc\<close> unfolding side_inv_def inj_on_def by force
  moreover have "side_blocked ins (insert u R) (pc(a := p)) = side_blocked ins R pc - {u}"
    using assms(2) sep(2)[of u] off_simps(1)[OF assms(3)] by (auto simp: side_blocked_def)
  ultimately show ?thesis using assms(1) u unfolding side_inv_def by (auto intro: inj_on_diff)
qed

lemma blocked_iff:
  assumes "side_inv ins pop wk R pc q n"
  shows "a \<in> side_blocked ins R pc \<longleftrightarrow> a \<in> set q \<or> (\<exists>t. pc t = wk a)"
proof -
  have "a \<in> snd ` side_wakers wk pc \<longleftrightarrow> (\<exists>t. pc t = wk a)" by (force simp: side_wakers_def)
  then show ?thesis using assms unfolding side_inv_def by blast
qed

end

interpretation wait_side: sem_side InWait PopWaiting WakeWaiter
  by unfold_locales simp_all

interpretation signal_side: sem_side InSignal PopReleasing WakeReleaser
  by unfold_locales simp_all

lemma off_wait_side [simp]:
  "wait_side.off Outside" "wait_side.off InSignal" "wait_side.off PopReleasing" "wait_side.off (WakeReleaser u)"
  "\<not> wait_side.off InWait" "\<not> wait_side.off PopWaiting" "\<not> wait_side.off (WakeWaiter u)"
  by (auto simp: wait_side.off_def)

lemma off_signal_side [simp]:
  "signal_side.off Outside" "signal_side.off InWait" "signal_side.off PopWaiting" "signal_side.off (WakeWaiter u)"
  "\<not> signal_side.off InSignal" "\<not> signal_side.off PopReleasing" "\<not> signal_side.off (WakeReleaser u)"
  by (auto simp: signal_side.off_def)

section \<open>The whole semaphore\<close>

abbreviation waiters_inv :: "usize set \<Rightarrow> (usize \<Rightarrow> sem_pc) \<Rightarrow> semaphore \<Rightarrow> bool" where
  "waiters_inv R pc s \<equiv> side_inv InWait PopWaiting WakeWaiter R pc (waiting s) (unat (sem_count s))"

abbreviation releasers_inv :: "usize set \<Rightarrow> (usize \<Rightarrow> sem_pc) \<Rightarrow> semaphore \<Rightarrow> bool" where
  "releasers_inv R pc s \<equiv>
     side_inv InSignal PopReleasing WakeReleaser R pc (releasing s) (unat (sem_max s) - unat (sem_count s))"

definition sem_inv :: "usize set \<Rightarrow> usize set \<Rightarrow> (usize \<Rightarrow> sem_pc) \<Rightarrow> semaphore \<Rightarrow> bool" where
  "sem_inv K R pc s \<longleftrightarrow> sem_count s \<le> sem_max s \<and> pc 0 \<notin> {InWait, InSignal} \<and> (\<forall>t. pc t \<noteq> Outside \<longrightarrow> t \<in> K) \<and>
     waiters_inv R pc s \<and> releasers_inv R pc s"

lemma try_take_Some:
  assumes "try_take s = Some s'" and "sem_count s \<le> sem_max s"
  shows "s' = s\<lparr>sem_count := sem_count s - 1\<rparr>" and "unat (sem_count s) = Suc (unat (sem_count s'))"
    and "unat (sem_max s') - unat (sem_count s') = Suc (unat (sem_max s) - unat (sem_count s))" and "sem_count s' \<le> sem_max s'"
proof -
  have c: "sem_count s > 0" "s' = s\<lparr>sem_count := sem_count s - 1\<rparr>" using assms(1) by (auto simp: try_take_def split: if_splits)
  show "s' = s\<lparr>sem_count := sem_count s - 1\<rparr>" by (fact c(2))
  have u: "unat (sem_count s) > 0" using c(1) by (simp add: word_less_nat_alt)
  have d: "unat (sem_count s - 1) = unat (sem_count s) - 1" using c(1) by (intro unat_minus_one) auto
  show "unat (sem_count s) = Suc (unat (sem_count s'))" using u d c(2) by simp
  show "unat (sem_max s') - unat (sem_count s') = Suc (unat (sem_max s) - unat (sem_count s))"
    "sem_count s' \<le> sem_max s'" using u d c(2) assms(2) by (auto simp: word_le_nat_alt)
qed

lemma try_give_Some:
  assumes "try_give s = Some s'"
  shows "s' = s\<lparr>sem_count := sem_count s + 1\<rparr>" and "unat (sem_count s') = Suc (unat (sem_count s))"
    and "unat (sem_max s) - unat (sem_count s) = Suc (unat (sem_max s') - unat (sem_count s'))" and "sem_count s' \<le> sem_max s'"
proof -
  have c: "sem_count s < sem_max s" "s' = s\<lparr>sem_count := sem_count s + 1\<rparr>" using assms by (auto simp: try_give_def split: if_splits)
  show "s' = s\<lparr>sem_count := sem_count s + 1\<rparr>" by (fact c(2))
  have u: "unat (sem_count s) < unat (sem_max s)" using c(1) by (simp add: word_less_nat_alt)
  then have d: "unat (sem_count s + 1) = unat (sem_count s) + 1"
    using unat_less_exp[of "sem_max s"] unat_add_usize[of "sem_count s" 1] by simp
  show "unat (sem_count s') = Suc (unat (sem_count s))" using d c(2) by simp
  show "unat (sem_max s) - unat (sem_count s) = Suc (unat (sem_max s') - unat (sem_count s'))"
    "sem_count s' \<le> sem_max s'" using u d c(2) by (auto simp: word_le_nat_alt)
qed

text \<open>The steps on the state of the semaphore alone: \<open>R\<close> are the runnable tasks, \<open>a\<close> is the one that runs.\<close>

lemma inv_enter:
  assumes "sem_inv K R pc s" and "pc a = Outside" and "a \<in> R" and "a \<in> K" and "a \<noteq> 0" and "p \<in> {InWait, InSignal}"
  shows "sem_inv K R (pc(a := p)) s"
  using assms wait_side.enters[of R pc "waiting s" _ a] signal_side.enters[of R pc "releasing s" _ a]
    wait_side.stays_off[of R pc "waiting s" _ a InSignal] signal_side.stays_off[of R pc "releasing s" _ a InWait]
  by (auto simp: sem_inv_def)

lemma inv_take:
  assumes "sem_inv K R pc s" and "pc a = InWait \<and> a \<in> R \<or> pc a = Outside" and "a \<in> K" and t: "try_take s = Some s'"
  shows "sem_inv K R (pc(a := PopReleasing)) s'"
proof -
  have le: "sem_count s \<le> sem_max s" using assms(1) by (simp add: sem_inv_def)
  note c = try_take_Some[OF t le]
  have q: "waiting s' = waiting s" "releasing s' = releasing s" by (simp_all add: c(1))
  have w: "side_inv InWait PopWaiting WakeWaiter R pc (waiting s') (Suc (unat (sem_count s')))"
    and r: "releasers_inv R pc s" using assms(1) by (simp_all add: sem_inv_def q c(2))
  have "waiters_inv R (pc(a := PopReleasing)) s'"
    using assms(2) wait_side.leaves[OF w, of a PopReleasing] wait_side.stays_off[OF w, of a PopReleasing] by auto
  moreover have "releasers_inv R (pc(a := PopReleasing)) s'"
    using signal_side.provides[OF r, of a] assms(2) by (auto simp: q c(3))
  ultimately show ?thesis using assms(1,3) c(4) by (auto simp: sem_inv_def)
qed

lemma inv_give:
  assumes "sem_inv K R pc s" and "pc a = InSignal \<and> a \<in> R \<or> pc a = Outside" and "a \<in> K" and t: "try_give s = Some s'"
  shows "sem_inv K R (pc(a := PopWaiting)) s'"
proof -
  note c = try_give_Some[OF t]
  have q: "waiting s' = waiting s" "releasing s' = releasing s" by (simp_all add: c(1))
  have r: "side_inv InSignal PopReleasing WakeReleaser R pc (releasing s') (Suc (unat (sem_max s') - unat (sem_count s')))"
    and w: "waiters_inv R pc s" using assms(1) by (simp_all add: sem_inv_def q c(3))
  have "releasers_inv R (pc(a := PopWaiting)) s'"
    using assms(2) signal_side.leaves[OF r, of a PopWaiting] signal_side.stays_off[OF r, of a PopWaiting] by auto
  moreover have "waiters_inv R (pc(a := PopWaiting)) s'"
    using wait_side.provides[OF w, of a] assms(2) by (auto simp: q c(2))
  ultimately show ?thesis using assms(1,3) c(4) by (auto simp: sem_inv_def)
qed

lemma inv_wait_blocks:
  assumes "sem_inv K R pc s" and "pc a = InWait" and "a \<in> R" and "try_take s = None"
  shows "sem_inv K (R - {a}) pc (s\<lparr>waiting := waiting s @ [a]\<rparr>)"
proof -
  have "sem_count s = 0" using assms(4) by (auto simp: try_take_def word_gt_0 split: if_splits)
  then show ?thesis
    using assms wait_side.blocks[of R pc "waiting s" a] signal_side.stays_off_R[of R pc "releasing s" _ a "R - {a}"]
    by (auto simp: sem_inv_def)
qed

lemma inv_signal_blocks:
  assumes "sem_inv K R pc s" and "pc a = InSignal" and "a \<in> R" and "try_give s = None"
  shows "sem_inv K (R - {a}) pc (s\<lparr>releasing := releasing s @ [a]\<rparr>)"
proof -
  have "sem_max s \<le> sem_count s" using assms(4) by (auto simp: try_give_def split: if_splits)
  then have "unat (sem_max s) - unat (sem_count s) = 0" by (simp add: word_le_nat_alt)
  then show ?thesis
    using assms signal_side.blocks[of R pc "releasing s" a] wait_side.stays_off_R[of R pc "waiting s" _ a "R - {a}"]
    by (auto simp: sem_inv_def)
qed

lemma inv_pop_releasing:
  assumes "sem_inv K R pc s" and "pc a = PopReleasing" and "a \<in> K" and "pop_releasing s = (r, s')"
  shows "sem_inv K R (pc(a := (case r of None \<Rightarrow> Outside | Some u \<Rightarrow> WakeReleaser u))) s'"
proof (cases "releasing s")
  case Nil
  then show ?thesis using assms wait_side.stays_off[of R pc "waiting s" _ a Outside] signal_side.pops_none[of R pc _ a Outside]
    by (auto simp: sem_inv_def pop_releasing_def)
next
  case (Cons u q)
  then show ?thesis
    using assms wait_side.stays_off[of R pc "waiting s" _ a "WakeReleaser u"] signal_side.pops[of R pc u q _ a]
    by (auto simp: sem_inv_def pop_releasing_def)
qed

lemma inv_pop_waiting:
  assumes "sem_inv K R pc s" and "pc a = PopWaiting" and "a \<in> K" and "pop_waiting s = (r, s')"
  shows "sem_inv K R (pc(a := (case r of None \<Rightarrow> Outside | Some u \<Rightarrow> WakeWaiter u))) s'"
proof (cases "waiting s")
  case Nil
  then show ?thesis using assms signal_side.stays_off[of R pc "releasing s" _ a Outside] wait_side.pops_none[of R pc _ a Outside]
    by (auto simp: sem_inv_def pop_waiting_def)
next
  case (Cons u q)
  then show ?thesis
    using assms signal_side.stays_off[of R pc "releasing s" _ a "WakeWaiter u"] wait_side.pops[of R pc u q _ a]
    by (auto simp: sem_inv_def pop_waiting_def)
qed

text \<open>The tasks to be woken are blocked in the loop of their side.\<close>

lemma woken_waiter:
  assumes "sem_inv K R pc s" and "u \<in> set (waiting s) \<or> pc a = WakeWaiter u"
  shows "pc u = InWait" and "u \<notin> R" and "u \<in> K" and "u \<noteq> 0"
proof -
  have "u \<in> side_blocked InWait R pc" using assms wait_side.blocked_iff[of R pc "waiting s" _ u] by (auto simp: sem_inv_def)
  then show u: "pc u = InWait" and "u \<notin> R" by (simp_all add: side_blocked_def)
  show "u \<in> K" and "u \<noteq> 0" using u assms(1) by (auto simp: sem_inv_def)
qed

lemma woken_releaser:
  assumes "sem_inv K R pc s" and "u \<in> set (releasing s) \<or> pc a = WakeReleaser u"
  shows "pc u = InSignal" and "u \<notin> R" and "u \<in> K" and "u \<noteq> 0"
proof -
  have "u \<in> side_blocked InSignal R pc" using assms signal_side.blocked_iff[of R pc "releasing s" _ u] by (auto simp: sem_inv_def)
  then show u: "pc u = InSignal" and "u \<notin> R" by (simp_all add: side_blocked_def)
  show "u \<in> K" and "u \<noteq> 0" using u assms(1) by (auto simp: sem_inv_def)
qed

lemma inv_outside_R:
  assumes "sem_inv K R pc s" and "pc a = Outside" and "\<And>t. t \<noteq> a \<Longrightarrow> t \<in> R' \<longleftrightarrow> t \<in> R"
  shows "sem_inv K R' pc s"
  using assms wait_side.stays_off_R[of R pc "waiting s" _ a R'] signal_side.stays_off_R[of R pc "releasing s" _ a R']
  by (auto simp: sem_inv_def)

lemma inv_wake:
  assumes "sem_inv K R pc s" and "pc a \<in> {WakeReleaser u, WakeWaiter u}"
  shows "sem_inv K (insert u R) (pc(a := Outside)) s"
proof -
  have w: "waiters_inv R pc s" and r: "releasers_inv R pc s" using assms(1) by (simp_all add: sem_inv_def)
  have "waiters_inv (insert u R) (pc(a := Outside)) s \<and> releasers_inv (insert u R) (pc(a := Outside)) s"
  proof (cases "pc a = WakeReleaser u")
    case True
    have "pc u = InSignal" using woken_releaser(1)[OF assms(1)] True by blast
    then show ?thesis
      using signal_side.wakes[OF r True, of Outside] wait_side.stays_off_R[OF w, of u "insert u R"]
        wait_side.stays_off[of "insert u R" pc "waiting s" _ a Outside] True by auto
  next
    case False
    then have a: "pc a = WakeWaiter u" using assms(2) by simp
    have "pc u = InWait" using woken_waiter(1)[OF assms(1)] a by blast
    then show ?thesis
      using wait_side.wakes[OF w a, of Outside] signal_side.stays_off_R[OF r, of u "insert u R"]
        signal_side.stays_off[of "insert u R" pc "releasing s" _ a Outside] a by auto
  qed
  then show ?thesis using assms(1) by (auto simp: sem_inv_def)
qed

text \<open>A call that does not block, in one go.\<close>

lemma inv_take_pop:
  assumes "sem_inv K R pc s" and t: "try_take s = Some s1" and "pop_releasing s1 = (r, s')"
  shows "sem_inv K (R \<union> set_option r) pc s'"
proof -
  have le: "sem_count s \<le> sem_max s" using assms(1) by (simp add: sem_inv_def)
  note c = try_take_Some[OF t le]
  have w: "side_inv InWait PopWaiting WakeWaiter R pc (waiting s) (unat (sem_count s1))" and r: "releasers_inv R pc s"
    using assms(1) wait_side.falls[of R pc "waiting s" "unat (sem_count s)" "unat (sem_count s1)"] c(2) by (simp_all add: sem_inv_def)
  show ?thesis
  proof (cases "releasing s")
    case Nil
    then have "s' = s1" "r = None" using assms(3) c(1) by (simp_all add: pop_releasing_def)
    then show ?thesis using assms(1) w r c Nil by (auto simp: sem_inv_def side_inv_def)
  next
    case (Cons u q)
    then have s': "s' = s1\<lparr>releasing := q\<rparr>" "r = Some u" using assms(3) c(1) by (simp_all add: pop_releasing_def)
    have "pc u = InSignal" using woken_releaser(1)[OF assms(1)] Cons by simp
    then have "side_inv InWait PopWaiting WakeWaiter (insert u R) pc (waiting s) (unat (sem_count s1))"
      using wait_side.stays_off_R[OF w, of u "insert u R"] by simp
    then show ?thesis using assms(1) c s' signal_side.serves[of R pc u q] Cons r by (auto simp: sem_inv_def)
  qed
qed

lemma inv_give_pop:
  assumes "sem_inv K R pc s" and t: "try_give s = Some s1" and "pop_waiting s1 = (r, s')"
  shows "sem_inv K (R \<union> set_option r) pc s'"
proof -
  note c = try_give_Some[OF t]
  let ?room = "unat (sem_max s1) - unat (sem_count s1)"
  have r: "side_inv InSignal PopReleasing WakeReleaser R pc (releasing s) ?room" and w: "waiters_inv R pc s"
    using assms(1) signal_side.falls[of R pc "releasing s" "unat (sem_max s) - unat (sem_count s)" ?room] c(3)
    by (simp_all add: sem_inv_def)
  show ?thesis
  proof (cases "waiting s")
    case Nil
    then have "s' = s1" "r = None" using assms(3) c(1) by (simp_all add: pop_waiting_def)
    then show ?thesis using assms(1) w r c Nil by (auto simp: sem_inv_def side_inv_def)
  next
    case (Cons u q)
    then have s': "s' = s1\<lparr>waiting := q\<rparr>" "r = Some u" using assms(3) c(1) by (simp_all add: pop_waiting_def)
    have "pc u = InWait" using woken_waiter(1)[OF assms(1)] Cons by simp
    then have "side_inv InSignal PopReleasing WakeReleaser (insert u R) pc (releasing s) ?room"
      using signal_side.stays_off_R[OF r, of u "insert u R"] by simp
    then show ?thesis using assms(1) c s' wait_side.serves[of R pc u q] Cons w by (auto simp: sem_inv_def)
  qed
qed

lemma popped_releaser: "pop_releasing s = (Some u, s') \<Longrightarrow> u \<in> set (releasing s)"
  by (auto simp: pop_releasing_def split: list.splits)

lemma popped_waiter: "pop_waiting s = (Some u, s') \<Longrightarrow> u \<in> set (waiting s)"
  by (auto simp: pop_waiting_def split: list.splits)

section \<open>With a scheduler\<close>

text \<open>
  What the semaphore relies on: \<open>run\<close> are the runnable and \<open>known\<close> the existing tasks, \<open>kinv\<close> is the invariant
  of the scheduler while its lock is free. The running task is runnable unless it is the idle task.
\<close>

definition sys_inv :: "('k \<Rightarrow> bool) \<Rightarrow> ('k \<Rightarrow> usize set) \<Rightarrow> ('k \<Rightarrow> usize set) \<Rightarrow> 'k sem_sys \<Rightarrow> bool" where
  "sys_inv kinv run known x \<longleftrightarrow>
     kinv (ss_kernel x) \<and> sem_inv (known (ss_kernel x)) (run (ss_kernel x)) (ss_pc x) (ss_sem x)"

text \<open>No task is on its way through an operation: those inside are blocked.\<close>

definition quiescent :: "('k \<Rightarrow> usize set) \<Rightarrow> 'k sem_sys \<Rightarrow> bool" where
  "quiescent run x \<longleftrightarrow>
     (\<forall>t. ss_pc x t \<noteq> Outside \<longrightarrow> ss_pc x t \<in> {InWait, InSignal} \<and> t \<notin> run (ss_kernel x))"

lemma quiescent_sums:
  assumes "quiescent run x"
  shows "side_sum InWait PopWaiting WakeWaiter (run (ss_kernel x)) (ss_pc x) = 0"
    and "side_sum InSignal PopReleasing WakeReleaser (run (ss_kernel x)) (ss_pc x) = 0"
proof -
  have "ss_pc x t = Outside \<or> ss_pc x t = InWait \<and> t \<notin> run (ss_kernel x) \<or> ss_pc x t = InSignal \<and> t \<notin> run (ss_kernel x)" for t
    using assms by (auto simp: quiescent_def)
  then have "side_weight InWait PopWaiting WakeWaiter (t \<in> run (ss_kernel x)) (ss_pc x t) = 0"
    "side_weight InSignal PopReleasing WakeReleaser (t \<in> run (ss_kernel x)) (ss_pc x t) = 0" for t
    by (metis (full_types) wait_side.weight_off wait_side.weight_simps(1) off_wait_side(1,2) of_bool_eq(1),
      metis (full_types) signal_side.weight_off signal_side.weight_simps(1) off_signal_side(1,2) of_bool_eq(1))
  then show "side_sum InWait PopWaiting WakeWaiter (run (ss_kernel x)) (ss_pc x) = 0"
    "side_sum InSignal PopReleasing WakeReleaser (run (ss_kernel x)) (ss_pc x) = 0"
    by (simp_all add: side_sum_def)
qed

locale blocking_sched =
  fixes api :: "'k sched_api" and preempt :: "u64 \<Rightarrow> u64 \<Rightarrow> 'k \<Rightarrow> 'k res" and kinv :: "'k \<Rightarrow> bool" and run known :: "'k \<Rightarrow> usize set"
  assumes lock_ok: "kinv k \<Longrightarrow> \<exists>k1. api_lock api k = Inr k1"
    and lock_drop: "kinv k \<Longrightarrow> api_lock api k = Inr k1 \<Longrightarrow> api_current api k1 = api_current api k \<and>
      kinv (api_unlock api k1) \<and> run (api_unlock api k1) = run k \<and> known (api_unlock api k1) = known k"
    and block_law: "kinv k \<Longrightarrow> api_lock api k = Inr k1 \<Longrightarrow> api_block api now k1 = Inr k2 \<Longrightarrow>
      kinv k2 \<and> run k2 = run k - {api_current api k} \<and> known k2 = known k"
    and wake_ok: "kinv k \<Longrightarrow> api_lock api k = Inr k1 \<Longrightarrow> u \<in> known k \<Longrightarrow> u \<noteq> api_current api k \<Longrightarrow>
      \<exists>k2. api_wake api u k1 = Inr k2 \<and> kinv (api_unlock api k2) \<and>
        run (api_unlock api k2) = insert u (run k) \<and> known (api_unlock api k2) = known k"
    and wake_known: "kinv k \<Longrightarrow> api_lock api k = Inr k1 \<Longrightarrow> api_wake api u k1 = Inr k2 \<Longrightarrow> u \<in> known k"
    and preempt_law: "kinv k \<Longrightarrow> preempt now now2 k = Inr k' \<Longrightarrow> kinv k' \<and> run k' = run k \<and> known k' = known k"
    and current_law: "kinv k \<Longrightarrow> api_current api k \<in> known k \<and> (api_current api k \<in> run k \<or> api_current api k = 0)"
begin

lemma lock_wake_law:
  assumes "kinv k" and "lock_wake api u k = Inr k'" and "u \<noteq> api_current api k"
  shows "kinv k' \<and> run k' = insert u (run k) \<and> known k' = known k"
proof -
  obtain k1 k2 where k: "api_lock api k = Inr k1" "api_wake api u k1 = Inr k2" "k' = api_unlock api k2"
    using assms(2) by (auto simp: lock_wake_def res_simps)
  then show ?thesis using wake_ok[OF assms(1) k(1) wake_known[OF assms(1) k(1,2)] assms(3)] by auto
qed

lemma lock_wake_total:
  assumes "kinv k" and "u \<in> known k" and "u \<noteq> api_current api k"
  shows "\<exists>k'. lock_wake api u k = Inr k'"
proof -
  obtain k1 where k1: "api_lock api k = Inr k1" using lock_ok[OF assms(1)] by blast
  then show ?thesis using wake_ok[OF assms(1) k1 assms(2,3)] by (auto simp: lock_wake_def)
qed

lemma wake_popped_law:
  assumes "kinv k" and "wake_popped api (r, s) k = Inr (s', k')" and "\<And>u. r = Some u \<Longrightarrow> u \<noteq> api_current api k"
  shows "s' = s \<and> kinv k' \<and> run k' = run k \<union> set_option r \<and> known k' = known k"
  using assms lock_wake_law[OF assms(1)] by (cases r) (auto simp: wake_popped_def res_simps)

lemma wait_round_inv:
  assumes "kinv k" and i: "sem_inv (known k) (run k) pc s" and "wait_round api now s k = Inr (b, s', k')"
    and a: "pc (api_current api k) = InWait"
  shows "kinv k' \<and> sem_inv (known k') (run k') (if b then pc(api_current api k := PopReleasing) else pc) s'"
proof -
  let ?a = "api_current api k"
  have cur: "?a \<in> known k" "?a \<in> run k" using current_law[OF assms(1)] a i by (auto simp: sem_inv_def)
  obtain k1 where k1: "api_lock api k = Inr k1" using lock_ok[OF assms(1)] by blast
  note l = lock_drop[OF assms(1) k1]
  show ?thesis
  proof (cases "try_take s")
    case None
    then show ?thesis
      using assms(3) k1 l block_law[OF assms(1) k1, of now] inv_wait_blocks[OF i a cur(2) None] by (auto simp: wait_round_def res_simps)
  next
    case (Some s1)
    then show ?thesis using assms(3) k1 l inv_take[OF i _ cur(1) Some] a cur(2) by (auto simp: wait_round_def)
  qed
qed

lemma signal_round_inv:
  assumes "kinv k" and i: "sem_inv (known k) (run k) pc s" and "signal_round api now s k = Inr (b, s', k')"
    and a: "pc (api_current api k) = InSignal"
  shows "kinv k' \<and> sem_inv (known k') (run k') (if b then pc(api_current api k := PopWaiting) else pc) s'"
proof -
  let ?a = "api_current api k"
  have cur: "?a \<in> known k" "?a \<in> run k" using current_law[OF assms(1)] a i by (auto simp: sem_inv_def)
  obtain k1 where k1: "api_lock api k = Inr k1" using lock_ok[OF assms(1)] by blast
  note l = lock_drop[OF assms(1) k1]
  show ?thesis
  proof (cases "try_give s")
    case None
    then show ?thesis
      using assms(3) k1 l block_law[OF assms(1) k1, of now] inv_signal_blocks[OF i a cur(2) None] by (auto simp: signal_round_def res_simps)
  next
    case (Some s1)
    then show ?thesis using assms(3) k1 l inv_give[OF i _ cur(1) Some] a cur(2) by (auto simp: signal_round_def)
  qed
qed

lemma not_current:
  assumes "kinv k" and "u \<notin> run k" and "u \<noteq> 0" shows "u \<noteq> api_current api k"
  using current_law[OF assms(1)] assms(2,3) by auto

lemma try_wait_inv:
  assumes "kinv k" and i: "sem_inv (known k) (run k) pc s" and "try_wait api s k = Inr (b, s', k')"
  shows "kinv k' \<and> sem_inv (known k') (run k') pc s'"
proof (cases "try_take s")
  case (Some s1)
  obtain r s2 where p: "pop_releasing s1 = (r, s2)" by fastforce
  have "u \<noteq> api_current api k" if "r = Some u" for u
  proof -
    have "u \<in> set (releasing s)"
      using popped_releaser[of s1 u s2] p that Some by (auto simp: try_take_def split: if_splits)
    then show ?thesis using woken_releaser(2,4)[OF i] not_current[OF assms(1)] by blast
  qed
  then show ?thesis
    using assms(3) Some p wake_popped_law[OF assms(1), of r s2] inv_take_pop[OF i Some p] by (auto simp: try_wait_def res_simps)
qed (use assms in \<open>auto simp: try_wait_def\<close>)

lemma try_signal_inv:
  assumes "kinv k" and i: "sem_inv (known k) (run k) pc s" and "try_signal api s k = Inr (b, s', k')"
  shows "kinv k' \<and> sem_inv (known k') (run k') pc s'"
proof (cases "try_give s")
  case (Some s1)
  obtain r s2 where p: "pop_waiting s1 = (r, s2)" by fastforce
  have "u \<noteq> api_current api k" if "r = Some u" for u
  proof -
    have "u \<in> set (waiting s)"
      using popped_waiter[of s1 u s2] p that Some by (auto simp: try_give_def split: if_splits)
    then show ?thesis using woken_waiter(2,4)[OF i] not_current[OF assms(1)] by blast
  qed
  then show ?thesis
    using assms(3) Some p wake_popped_law[OF assms(1), of r s2] inv_give_pop[OF i Some p] by (auto simp: try_signal_def res_simps)
qed (use assms in \<open>auto simp: try_signal_def\<close>)

lemma step_inv: "sem_step api preempt x y \<Longrightarrow> sys_inv kinv run known x \<Longrightarrow> sys_inv kinv run known y"
proof (induction rule: sem_step.induct)
  case (enter pc k p s)
  then show ?case using inv_enter[of "known k" "run k" pc s "api_current api k" p] current_law[of k] by (simp add: sys_inv_def)
next
  case (wait_through pc k now s s' k')
  then show ?case using wait_round_inv[of k pc s now True s' k'] by (simp add: sys_inv_def)
next
  case (wait_blocks pc k now s s' k')
  then show ?case using wait_round_inv[of k pc s now False s' k'] by (simp add: sys_inv_def)
next
  case (signal_through pc k now s s' k')
  then show ?case using signal_round_inv[of k pc s now True s' k'] by (simp add: sys_inv_def)
next
  case (signal_blocks pc k now s s' k')
  then show ?case using signal_round_inv[of k pc s now False s' k'] by (simp add: sys_inv_def)
next
  case (take_releasing pc k s r s')
  then show ?case using inv_pop_releasing[of "known k" "run k" pc s "api_current api k" r s'] current_law[of k] by (simp add: sys_inv_def)
next
  case (take_waiting pc k s r s')
  then show ?case using inv_pop_waiting[of "known k" "run k" pc s "api_current api k" r s'] current_law[of k] by (simp add: sys_inv_def)
next
  case (wake_queued pc k u k' s)
  then have i: "sem_inv (known k) (run k) pc s" "kinv k" by (simp_all add: sys_inv_def)
  have "u \<noteq> api_current api k"
    using woken_waiter(1)[OF i(1), of u] woken_releaser(1)[OF i(1), of u] wake_queued(1) by force
  then show ?case using inv_wake[OF i(1) wake_queued(1)] lock_wake_law[OF i(2) wake_queued(2)] by (simp add: sys_inv_def)
next
  case (start_try_wait pc k s s')
  then show ?case using inv_take[of "known k" "run k" pc s "api_current api k" s'] current_law[of k] by (simp add: sys_inv_def)
next
  case (start_try_signal pc k s s')
  then show ?case using inv_give[of "known k" "run k" pc s "api_current api k" s'] current_law[of k] by (simp add: sys_inv_def)
next
  case (interrupt_try_wait s k b s' k' pc)
  then show ?case using try_wait_inv[of k pc s b s' k'] by (simp add: sys_inv_def)
next
  case (interrupt_try_signal s k b s' k' pc)
  then show ?case using try_signal_inv[of k pc s b s' k'] by (simp add: sys_inv_def)
next
  case (preempted now now2 k k' s pc)
  then show ?case using preempt_law[of k now now2 k'] by (simp add: sys_inv_def)
next
  case (block_outside pc k k1 now k' s)
  then show ?case using block_law[of k k1 now k'] inv_outside_R[of _ "run k" pc s "api_current api k"] by (simp add: sys_inv_def)
next
  case (wake_outside pc u k k' s)
  then show ?case using lock_wake_law[of k u k'] inv_outside_R[of _ "run k" pc s u] by (simp add: sys_inv_def)
qed

lemma reachable_inv: "(sem_step api preempt)\<^sup>*\<^sup>* x y \<Longrightarrow> sys_inv kinv run known x \<Longrightarrow> sys_inv kinv run known y"
  by (induction rule: rtranclp_induct) (auto dest: step_inv)

lemma no_lost_wakeup:
  assumes "sys_inv kinv run known x" and "quiescent run x"
  shows "(waiting (ss_sem x) \<noteq> [] \<longrightarrow> sem_count (ss_sem x) = 0) \<and>
    (releasing (ss_sem x) \<noteq> [] \<longrightarrow> sem_count (ss_sem x) = sem_max (ss_sem x))"
proof (intro conjI impI)
  have i: "sem_count (ss_sem x) \<le> sem_max (ss_sem x)"
    "waiting (ss_sem x) \<noteq> [] \<Longrightarrow> unat (sem_count (ss_sem x)) \<le> 0"
    "releasing (ss_sem x) \<noteq> [] \<Longrightarrow> unat (sem_max (ss_sem x)) - unat (sem_count (ss_sem x)) \<le> 0"
    using assms(1) quiescent_sums[OF assms(2)] by (simp_all add: sys_inv_def sem_inv_def side_inv_def)
  show "sem_count (ss_sem x) = 0" if "waiting (ss_sem x) \<noteq> []" using i(2)[OF that] by (simp add: unat_eq_0)
  show "sem_count (ss_sem x) = sem_max (ss_sem x)" if "releasing (ss_sem x) \<noteq> []"
    using i(1) i(3)[OF that] by (simp add: word_le_nat_alt order_antisym word_unat_eq_iff)
qed

text \<open>Every blocked task is in its queue, so that the next change of the count wakes it.\<close>

lemma blocked_queued:
  assumes "sys_inv kinv run known x" and "quiescent run x"
  shows "{t. ss_pc x t = InWait} = set (waiting (ss_sem x)) \<and> {t. ss_pc x t = InSignal} = set (releasing (ss_sem x))"
proof -
  have q: "ss_pc x t \<noteq> Outside \<Longrightarrow> ss_pc x t \<in> {InWait, InSignal} \<and> t \<notin> run (ss_kernel x)" for t
    using assms(2) by (simp add: quiescent_def)
  have "ss_pc x t \<noteq> WakeWaiter u" "ss_pc x t \<noteq> WakeReleaser u" for t u using q[of t] by auto
  then have "side_wakers WakeWaiter (ss_pc x) = {}" "side_wakers WakeReleaser (ss_pc x) = {}"
    by (simp_all add: side_wakers_def)
  moreover have "side_blocked InWait (run (ss_kernel x)) (ss_pc x) = {t. ss_pc x t = InWait}"
    "side_blocked InSignal (run (ss_kernel x)) (ss_pc x) = {t. ss_pc x t = InSignal}"
    using q by (auto simp: side_blocked_def)
  ultimately show ?thesis using assms(1) by (simp add: sys_inv_def sem_inv_def side_inv_def)
qed

text \<open>Waking the task taken off a queue does not panic.\<close>

lemma wake_total:
  assumes "sys_inv kinv run known x" and "ss_pc x (api_current api (ss_kernel x)) \<in> {WakeReleaser u, WakeWaiter u}"
  shows "\<exists>k'. lock_wake api u (ss_kernel x) = Inr k'"
proof -
  have i: "sem_inv (known (ss_kernel x)) (run (ss_kernel x)) (ss_pc x) (ss_sem x)" "kinv (ss_kernel x)"
    using assms(1) by (simp_all add: sys_inv_def)
  have "u \<noteq> api_current api (ss_kernel x)" "u \<in> known (ss_kernel x)"
    using woken_waiter(1,3)[OF i(1), of u] woken_releaser(1,3)[OF i(1), of u] assms(2) by force+
  then show ?thesis using lock_wake_total[OF i(2)] by blast
qed

end

end
