(* ===== verification/Binary_Heap.thy ===== *)
theory Binary_Heap
  imports Prelude "HOL-Library.Multiset"
begin

text \<open>
  The \<open>BinaryHeap\<close> of Rust's \<open>alloc\<close> crate, which holds the runnable tasks of the scheduler. The heap
  is the array of its elements, with the array algorithms of the library (sifting up, sifting to the
  bottom, rebuilding the tail after \<open>retain\<close>), because which of several equal elements comes out
  first depends on them; moving the hole is written as swapping. The order of the elements is an
  argument. The locale \<open>ord_trait\<close> is the contract of \<open>Ord\<close> that the heap relies on, the locale
  \<open>priority_queue\<close> the contract of the heap that the scheduler relies on.
\<close>

section \<open>Model\<close>

definition parent :: "nat \<Rightarrow> nat" where
  "parent i = (i - 1) div 2"

definition hp_swap :: "'a list \<Rightarrow> nat \<Rightarrow> nat \<Rightarrow> 'a list" where
  "hp_swap xs i j = xs[i := xs ! j, j := xs ! i]"

function sift_up :: "('a \<Rightarrow> 'a \<Rightarrow> bool) \<Rightarrow> 'a list \<Rightarrow> nat \<Rightarrow> 'a list" where
  "sift_up le xs pos =
     (if pos = 0 then xs
      else if le (xs ! pos) (xs ! parent pos) then xs
      else sift_up le (hp_swap xs pos (parent pos)) (parent pos))"
  by pat_completeness auto
termination by (relation "measure (\<lambda>(le, xs, pos). pos)") (auto simp: parent_def)

declare sift_up.simps [simp del]

definition larger_child :: "('a \<Rightarrow> 'a \<Rightarrow> bool) \<Rightarrow> 'a list \<Rightarrow> nat \<Rightarrow> nat" where
  "larger_child le xs pos = (let child = 2 * pos + 1 in if le (xs ! child) (xs ! (child + 1)) then child + 1 else child)"

text \<open>The loop of \<open>sift_down_to_bottom\<close>: the hole goes to the larger child down to a leaf.\<close>

function sink :: "('a \<Rightarrow> 'a \<Rightarrow> bool) \<Rightarrow> 'a list \<Rightarrow> nat \<Rightarrow> 'a list \<times> nat" where
  "sink le xs pos =
     (let child = 2 * pos + 1 in
      if child \<le> length xs - 2
      then let c = larger_child le xs pos in sink le (hp_swap xs pos c) c
      else if child = length xs - 1 then (hp_swap xs pos child, child)
      else (xs, pos))"
  by pat_completeness auto
termination
  by (relation "measure (\<lambda>(le, xs, pos). length xs - pos)") (auto simp: larger_child_def hp_swap_def Let_def)

declare sink.simps [simp del]

function sift_down :: "('a \<Rightarrow> 'a \<Rightarrow> bool) \<Rightarrow> 'a list \<Rightarrow> nat \<Rightarrow> 'a list" where
  "sift_down le xs pos =
     (let child = 2 * pos + 1 in
      if child \<le> length xs - 2
      then let c = larger_child le xs pos in
           if le (xs ! c) (xs ! pos) then xs else sift_down le (hp_swap xs pos c) c
      else if child = length xs - 1 \<and> \<not> le (xs ! child) (xs ! pos) then hp_swap xs pos child
      else xs)"
  by pat_completeness auto
termination
  by (relation "measure (\<lambda>(le, xs, pos). length xs - pos)") (auto simp: larger_child_def hp_swap_def Let_def)

declare sift_down.simps [simp del]

definition bh_push :: "('a \<Rightarrow> 'a \<Rightarrow> bool) \<Rightarrow> 'a \<Rightarrow> 'a list \<Rightarrow> 'a list" where
  "bh_push le x h = sift_up le (h @ [x]) (length h)"

definition bh_pop :: "('a \<Rightarrow> 'a \<Rightarrow> bool) \<Rightarrow> 'a list \<Rightarrow> ('a \<times> 'a list) option" where
  "bh_pop le h =
     (if h = [] then None
      else let item = last h; data = butlast h in
           if data = [] then Some (item, [])
           else let (xs, pos) = sink le (data[0 := item]) 0 in Some (data ! 0, sift_up le xs pos))"

fun rebuild :: "('a \<Rightarrow> 'a \<Rightarrow> bool) \<Rightarrow> nat \<Rightarrow> 'a list \<Rightarrow> 'a list" where
  "rebuild le 0 xs = xs"
| "rebuild le (Suc n) xs = rebuild le n (sift_down le xs n)"

definition log2_fast :: "nat \<Rightarrow> nat" where
  "log2_fast n = length (takeWhile (\<lambda>k. 2 ^ k \<le> n) [0..<64]) - 1"

definition rebuild_tail :: "('a \<Rightarrow> 'a \<Rightarrow> bool) \<Rightarrow> 'a list \<Rightarrow> nat \<Rightarrow> 'a list" where
  "rebuild_tail le xs start =
     (if start = length xs then xs
      else let tail_len = length xs - start;
               better_to_rebuild =
                 (if start < tail_len then True
                  else if length xs \<le> 2048 then 2 * length xs < tail_len * log2_fast start
                  else 2 * length xs < tail_len * 11)
           in if better_to_rebuild then rebuild le (length xs div 2) xs
              else fold (\<lambda>i h. sift_up le h i) [start..<length xs] xs)"

definition bh_retain :: "('a \<Rightarrow> 'a \<Rightarrow> bool) \<Rightarrow> ('a \<Rightarrow> bool) \<Rightarrow> 'a list \<Rightarrow> 'a list" where
  "bh_retain le f h = rebuild_tail le (filter f h) (length (takeWhile f h))"

section \<open>Heap order\<close>

text \<open>The first \<open>k\<close> elements are in heap order; in heap order but for the element at \<open>pos\<close>.\<close>

definition heap_upto :: "('a \<Rightarrow> 'a \<Rightarrow> bool) \<Rightarrow> nat \<Rightarrow> 'a list \<Rightarrow> bool" where
  "heap_upto le k xs \<longleftrightarrow> (\<forall>i. 0 < i \<longrightarrow> i < k \<longrightarrow> le (xs ! i) (xs ! parent i))"

definition almost :: "('a \<Rightarrow> 'a \<Rightarrow> bool) \<Rightarrow> nat \<Rightarrow> 'a list \<Rightarrow> nat \<Rightarrow> bool" where
  "almost le k xs pos \<longleftrightarrow>
     (\<forall>i. 0 < i \<longrightarrow> i < k \<longrightarrow> i \<noteq> pos \<longrightarrow> le (xs ! i) (xs ! parent i)) \<and>
     (\<forall>i. 0 < pos \<longrightarrow> 0 < i \<longrightarrow> i < k \<longrightarrow> parent i = pos \<longrightarrow> le (xs ! i) (xs ! parent pos))"

definition heap_from :: "('a \<Rightarrow> 'a \<Rightarrow> bool) \<Rightarrow> nat \<Rightarrow> 'a list \<Rightarrow> bool" where
  "heap_from le m xs \<longleftrightarrow> (\<forall>i. 0 < i \<longrightarrow> i < length xs \<longrightarrow> m \<le> parent i \<longrightarrow> le (xs ! i) (xs ! parent i))"

definition holed :: "('a \<Rightarrow> 'a \<Rightarrow> bool) \<Rightarrow> nat \<Rightarrow> 'a list \<Rightarrow> nat \<Rightarrow> bool" where
  "holed le m xs pos \<longleftrightarrow>
     (\<forall>i. 0 < i \<longrightarrow> i < length xs \<longrightarrow> m \<le> parent i \<longrightarrow> i \<noteq> pos \<longrightarrow> parent i \<noteq> pos \<longrightarrow> le (xs ! i) (xs ! parent i)) \<and>
     (\<forall>i. m < pos \<longrightarrow> 0 < i \<longrightarrow> i < length xs \<longrightarrow> parent i = pos \<longrightarrow> m \<le> parent pos \<longrightarrow> le (xs ! i) (xs ! parent pos))"

text \<open>What the heap asks of the \<open>Ord\<close> of its elements.\<close>

locale ord_trait =
  fixes le :: "'a \<Rightarrow> 'a \<Rightarrow> bool"
  assumes total: "le x y \<or> le y x"
    and trans: "le x y \<Longrightarrow> le y z \<Longrightarrow> le x z"
begin

lemma le_refl [simp]: "le x x" using total by blast

end

lemma parent_less [simp]: "0 < i \<Longrightarrow> parent i < i"
  by (auto simp: parent_def)

lemma parent_eq_iff: "0 < i \<Longrightarrow> parent i = p \<longleftrightarrow> i = 2 * p + 1 \<or> i = 2 * p + 2"
  by (auto simp: parent_def)

lemma length_hp_swap [simp]: "length (hp_swap xs i j) = length xs"
  by (simp add: hp_swap_def)

lemma nth_hp_swap:
  "i < length xs \<Longrightarrow> j < length xs \<Longrightarrow>
   hp_swap xs i j ! k = (if k = i then xs ! j else if k = j then xs ! i else xs ! k)"
  by (auto simp: hp_swap_def nth_list_update)

lemma mset_hp_swap [simp]: "i < length xs \<Longrightarrow> j < length xs \<Longrightarrow> mset (hp_swap xs i j) = mset xs"
  by (metis hp_swap_def mset_swap)

lemma length_sift_up [simp]: "length (sift_up le xs pos) = length xs"
  by (induction le xs pos rule: sift_up.induct) (subst sift_up.simps, simp)

lemma mset_sift_up [simp]: "pos < length xs \<Longrightarrow> mset (sift_up le xs pos) = mset xs"
proof (induction le xs pos rule: sift_up.induct)
  case (1 le xs pos)
  then show ?case
    using parent_less[of pos] less_trans[of "parent pos" pos "length xs"] by (subst sift_up.simps) auto
qed

lemma larger_child_cases:
  "larger_child le xs pos = 2 * pos + 1 \<or> larger_child le xs pos = 2 * pos + 2"
  by (auto simp: larger_child_def Let_def)

lemma larger_child_bound: "2 * pos + 1 \<le> length xs - 2 \<Longrightarrow> pos < larger_child le xs pos \<and> larger_child le xs pos < length xs"
  using larger_child_cases[of le xs pos] by auto

lemma sink_props:
  "pos < length xs \<Longrightarrow> sink le xs pos = (ys, q) \<Longrightarrow>
   mset ys = mset xs \<and> length ys = length xs \<and> q < length xs \<and> length xs \<le> 2 * q + 1"
proof (induction le xs pos rule: sink.induct)
  case (1 le xs pos)
  let ?c = "larger_child le xs pos"
  show ?case
  proof (cases "2 * pos + 1 \<le> length xs - 2")
    case True
    then show ?thesis
      using "1.IH"[OF refl True refl] "1.prems" larger_child_bound[OF True, of le] by (subst (asm) sink.simps) (auto simp: Let_def)
  next
    case False
    then show ?thesis using "1.prems" by (subst (asm) sink.simps) (auto simp: Let_def split: if_splits)
  qed
qed

lemma sift_down_props: "pos < length xs \<Longrightarrow> mset (sift_down le xs pos) = mset xs \<and> length (sift_down le xs pos) = length xs"
proof (induction le xs pos rule: sift_down.induct)
  case (1 le xs pos)
  show ?case
  proof (cases "2 * pos + 1 \<le> length xs - 2")
    case True
    then show ?thesis
      using "1.IH"[OF refl True refl] "1.prems" larger_child_bound[OF True, of le] by (subst (1 2) sift_down.simps) (auto simp: Let_def)
  next
    case False
    then show ?thesis using "1.prems" by (subst (1 2) sift_down.simps) (auto simp: Let_def)
  qed
qed

lemma rebuild_props: "n \<le> length xs \<Longrightarrow> mset (rebuild le n xs) = mset xs \<and> length (rebuild le n xs) = length xs"
  by (induction n arbitrary: xs) (simp_all add: Suc_le_eq sift_down_props)

lemma up_induct [case_names 1]:
  assumes "\<And>xs pos. (pos \<noteq> 0 \<Longrightarrow> P (hp_swap xs pos (parent pos)) (parent pos)) \<Longrightarrow> P xs pos"
  shows "P xs pos"
  using assms by (induction pos arbitrary: xs rule: less_induct) (metis parent_less neq0_conv)

lemma down_induct [case_names 1]:
  assumes "\<And>xs pos. (2 * pos + 1 \<le> length xs - 2 \<Longrightarrow>
      P (hp_swap xs pos (larger_child le xs pos)) (larger_child le xs pos)) \<Longrightarrow> P xs pos"
  shows "P xs pos"
proof (induction "length xs - pos" arbitrary: xs pos rule: less_induct)
  case less
  show ?case
  proof (rule assms)
    assume b: "2 * pos + 1 \<le> length xs - 2"
    from larger_child_bound[OF b, of le]
    show "P (hp_swap xs pos (larger_child le xs pos)) (larger_child le xs pos)" by (intro less) auto
  qed
qed

context ord_trait
begin

lemma not_le: "\<not> le x y \<Longrightarrow> le y x" using total by blast

lemma sift_up_heap: "almost le k xs pos \<Longrightarrow> pos < k \<Longrightarrow> k \<le> length xs \<Longrightarrow> heap_upto le k (sift_up le xs pos)"
proof (induction xs pos rule: up_induct)
  case (1 xs pos)
  show ?case
  proof (cases "pos = 0 \<or> le (xs ! pos) (xs ! parent pos)")
    case True
    then show ?thesis using "1.prems" by (subst sift_up.simps) (auto simp: heap_upto_def almost_def)
  next
    case False
    let ?p = "parent pos"
    have p: "0 < pos" "?p < pos" using False by auto
    have "almost le k (hp_swap xs pos ?p) ?p"
      unfolding almost_def
    proof (intro conjI allI impI)
      fix i assume i: "0 < i" "i < k" "i \<noteq> ?p"
      have "i \<noteq> pos \<Longrightarrow> le (xs ! i) (xs ! parent i)" and "parent i = pos \<Longrightarrow> le (xs ! i) (xs ! ?p)"
        using "1.prems"(1) i p unfolding almost_def by auto
      moreover have "le (xs ! ?p) (xs ! pos)" using False not_le by blast
      moreover have "i \<noteq> pos \<Longrightarrow> parent i = ?p \<Longrightarrow> le (xs ! i) (xs ! pos)"
        using calculation trans by metis
      ultimately show "le (hp_swap xs pos ?p ! i) (hp_swap xs pos ?p ! parent i)"
        using "1.prems" p i by (auto simp: nth_hp_swap)
    next
      fix i assume i: "0 < ?p" "0 < i" "i < k" "parent i = ?p"
      have pp: "parent ?p \<noteq> ?p" "parent ?p \<noteq> pos" "i \<noteq> ?p"
        using parent_less[OF i(1)] parent_less[OF i(2)] p i(4) by auto
      have a: "j \<noteq> pos \<Longrightarrow> 0 < j \<Longrightarrow> j < k \<Longrightarrow> le (xs ! j) (xs ! parent j)" for j using "1.prems"(1) unfolding almost_def by blast
      have "le (xs ! ?p) (xs ! parent ?p)" using a[of ?p] i p "1.prems" by simp
      moreover have "i \<noteq> pos \<Longrightarrow> le (xs ! i) (xs ! parent ?p)" using a[of i] i calculation trans by metis
      ultimately show "le (hp_swap xs pos ?p ! i) (hp_swap xs pos ?p ! parent ?p)"
        using "1.prems" p pp by (auto simp: nth_hp_swap)
    qed
    then show ?thesis using "1.IH" False "1.prems" p by (subst sift_up.simps) simp
  qed
qed

lemma larger_child_le:
  "0 < i \<Longrightarrow> parent i = pos \<Longrightarrow> le (xs ! i) (xs ! larger_child le xs pos)"
  using not_le by (auto simp: parent_eq_iff larger_child_def Let_def)

lemma holed_step:
  assumes "holed le m xs pos" and "m \<le> pos" and "2 * pos + 1 \<le> length xs - 2"
  defines "c \<equiv> larger_child le xs pos"
  shows "holed le m (hp_swap xs pos c) c"
proof -
  have c: "pos < c" "c < length xs" "parent c = pos" "0 < c"
    using larger_child_bound[OF assms(3), of le] larger_child_cases[of le xs pos] by (auto simp: c_def parent_def)
  have h1: "le (xs ! i) (xs ! parent i)"
    if "0 < i" "i < length xs" "m \<le> parent i" "i \<noteq> pos" "parent i \<noteq> pos" for i
    using assms(1) that unfolding holed_def by blast
  show ?thesis
    unfolding holed_def
  proof (intro conjI allI impI)
    fix i assume i: "0 < i" "i < length (hp_swap xs pos c)" "m \<le> parent i" "i \<noteq> c" "parent i \<noteq> c"
    have "i = pos \<Longrightarrow> le (xs ! c) (xs ! parent pos)"
      using assms(1) i c parent_less[OF i(1)] unfolding holed_def by auto
    moreover have "parent i = pos \<Longrightarrow> le (xs ! i) (xs ! c)" unfolding c_def by (rule larger_child_le[OF i(1)])
    ultimately show "le (hp_swap xs pos c ! i) (hp_swap xs pos c ! parent i)"
      using i c h1[of i] parent_less[OF i(1)] by (auto simp: nth_hp_swap)
  next
    fix i assume "0 < i" "i < length (hp_swap xs pos c)" "parent i = c"
    then show "le (hp_swap xs pos c ! i) (hp_swap xs pos c ! parent c)"
      using h1[of i] c assms(2) parent_less[of i] by (auto simp: nth_hp_swap)
  qed
qed

lemma sink_heap:
  "holed le 0 xs pos \<Longrightarrow> pos < length xs \<Longrightarrow> sink le xs pos = (ys, q) \<Longrightarrow> almost le (length xs) ys q"
proof (induction xs pos rule: down_induct[where le = le])
  case (1 xs pos)
  have leaf: "almost le (length zs) zs r" if "holed le 0 zs r" "length zs \<le> 2 * r + 1" for zs r
    using that unfolding almost_def holed_def by (auto simp: parent_def)
  consider "2 * pos + 1 \<le> length xs - 2" | "2 * pos + 1 = length xs - 1" | "length xs \<le> 2 * pos + 1"
    using "1.prems"(2) by linarith
  then show ?case
  proof cases
    case 1
    then show ?thesis
      using "1.IH"[OF 1] "1.prems" larger_child_bound[OF 1, of le] holed_step[OF "1.prems"(1) _ 1]
      by (subst (asm) sink.simps) (auto simp: Let_def)
  next
    case 2
    then have c: "2 * pos + 1 < length xs" "\<not> 2 * pos + 1 \<le> length xs - 2" using "1.prems"(2) by auto
    have "holed le 0 (hp_swap xs pos (2 * pos + 1)) (2 * pos + 1)"
      using "1.prems"(1,2) c(1) 2 unfolding holed_def by (auto simp: nth_hp_swap parent_def)
    then show ?thesis using leaf[of "hp_swap xs pos (2 * pos + 1)" "2 * pos + 1"] "1.prems"(3) c 2
      by (subst (asm) sink.simps) (auto simp: Let_def)
  next
    case 3
    then show ?thesis using leaf[OF "1.prems"(1) 3] "1.prems" by (subst (asm) sink.simps) (auto simp: Let_def split: if_splits)
  qed
qed

lemma sift_down_heap:
  "holed le m xs pos \<Longrightarrow> m \<le> pos \<Longrightarrow> pos < length xs \<Longrightarrow>
   (0 < pos \<Longrightarrow> m \<le> parent pos \<Longrightarrow> le (xs ! pos) (xs ! parent pos)) \<Longrightarrow>
   heap_from le m (sift_down le xs pos)"
proof (induction xs pos rule: down_induct[where le = le])
  case (1 xs pos)
  have stop: "heap_from le m xs" if "\<And>i. 0 < i \<Longrightarrow> i < length xs \<Longrightarrow> parent i = pos \<Longrightarrow> le (xs ! i) (xs ! pos)"
    using that "1.prems"(1,4) unfolding heap_from_def holed_def by metis
  let ?c = "larger_child le xs pos"
  show ?case
  proof (cases "2 * pos + 1 \<le> length xs - 2")
    case True
    note c = larger_child_bound[OF True, of le] larger_child_cases[of le xs pos]
    have pc: "parent ?c = pos" using c by (auto simp: parent_def)
    show ?thesis
    proof (cases "le (xs ! ?c) (xs ! pos)")
      case t: True
      have "heap_from le m xs" by (rule stop) (metis t larger_child_le trans)
      then show ?thesis using True t by (subst sift_down.simps) (auto simp: Let_def)
    next
      case False
      have "le (hp_swap xs pos ?c ! ?c) (hp_swap xs pos ?c ! parent ?c)"
        using not_le[OF False] c(1) pc by (auto simp: nth_hp_swap)
      then have "heap_from le m (sift_down le (hp_swap xs pos ?c) ?c)"
        using "1.IH"[OF True holed_step[OF "1.prems"(1,2) True]] c(1) "1.prems"(2) by auto
      then show ?thesis using True False by (subst sift_down.simps) (auto simp: Let_def)
    qed
  next
    case False
    show ?thesis
    proof (cases "2 * pos + 1 = length xs - 1 \<and> \<not> le (xs ! (2 * pos + 1)) (xs ! pos)")
      case True
      then have l: "2 * pos + 1 < length xs" "length xs = 2 * pos + 2" using "1.prems"(3) by auto
      have "\<not> pos \<le> parent pos" if "0 < pos" using parent_less[OF that] by (simp add: linorder_not_le)
      then have "heap_from le m (hp_swap xs pos (2 * pos + 1))"
        using "1.prems"(1,2) l not_le[of "xs ! (2 * pos + 1)" "xs ! pos"] True
        unfolding heap_from_def holed_def by (auto simp: nth_hp_swap parent_eq_iff)
      then show ?thesis using True False by (subst sift_down.simps) (auto simp: Let_def)
    next
      case f: False
      have "heap_from le m xs"
      proof (rule stop)
        fix i assume i: "0 < i" "i < length xs" "parent i = pos"
        then have "i = 2 * pos + 1 \<and> 2 * pos + 1 = length xs - 1" using False by (auto simp: parent_eq_iff)
        then show "le (xs ! i) (xs ! pos)" using f by simp
      qed
      then show ?thesis using False f by (subst sift_down.simps) (auto simp: Let_def)
    qed
  qed
qed

lemma rebuild_heap: "heap_from le n xs \<Longrightarrow> n \<le> length xs \<Longrightarrow> heap_from le 0 (rebuild le n xs)"
proof (induction n arbitrary: xs)
  case (Suc n)
  have "holed le n xs n" using Suc.prems(1) unfolding holed_def heap_from_def by (auto simp: Suc_le_eq)
  moreover have "\<not> n \<le> parent n" if "0 < n" using parent_less[OF that] by (simp add: linorder_not_le)
  ultimately have "heap_from le n (sift_down le xs n)" using Suc.prems(2) by (intro sift_down_heap) auto
  then show ?case using Suc.IH Suc.prems(2) by (simp add: sift_down_props)
qed simp

lemma heap_upto_from: "heap_upto le (length xs) xs \<longleftrightarrow> heap_from le 0 xs"
  by (simp add: heap_upto_def heap_from_def)

lemma almost_last: "heap_upto le k xs \<Longrightarrow> almost le (Suc k) xs k"
proof -
  have "parent i \<noteq> k" if "0 < i" "i < Suc k" for i using parent_less[OF that(1)] that(2) by linarith
  then show "heap_upto le k xs \<Longrightarrow> almost le (Suc k) xs k" unfolding heap_upto_def almost_def by (auto simp: less_Suc_eq)
qed

lemma sift_up_all:
  "heap_upto le k xs \<Longrightarrow> k \<le> n \<Longrightarrow> n \<le> length xs \<Longrightarrow>
   heap_upto le n (fold (\<lambda>i h. sift_up le h i) [k..<n] xs) \<and>
   mset (fold (\<lambda>i h. sift_up le h i) [k..<n] xs) = mset xs"
proof (induction "n - k" arbitrary: k xs)
  case (Suc d)
  have "k < n" using Suc.hyps(2) by simp
  moreover have "heap_upto le (Suc k) (sift_up le xs k)"
    using sift_up_heap[OF almost_last[OF Suc.prems(1)]] Suc.hyps(2) Suc.prems by simp
  ultimately show ?case
    using Suc.hyps(1)[of "Suc k" "sift_up le xs k"] Suc.hyps(2) Suc.prems by (simp add: upt_conv_Cons)
qed simp

lemma rebuild_tail_heap:
  assumes "heap_upto le k xs" and "k \<le> length xs"
  shows "heap_upto le (length xs) (rebuild_tail le xs k) \<and> mset (rebuild_tail le xs k) = mset xs"
proof -
  have "heap_from le (length xs div 2) xs" by (auto simp: heap_from_def parent_def)
  then have "heap_upto le (length xs) (rebuild le (length xs div 2) xs)" "mset (rebuild le (length xs div 2) xs) = mset xs"
    using rebuild_heap[of "length xs div 2" xs] rebuild_props[of "length xs div 2" xs le]
    by (simp_all flip: heap_upto_from)
  then show ?thesis using assms sift_up_all[OF assms order_refl] by (auto simp: rebuild_tail_def Let_def)
qed

lemma heap_root: "heap_upto le (length xs) xs \<Longrightarrow> i < length xs \<Longrightarrow> le (xs ! i) (xs ! 0)"
proof (induction i rule: less_induct)
  case (less i)
  show ?case
  proof (cases "i = 0")
    case False
    then have "le (xs ! parent i) (xs ! 0)" "le (xs ! i) (xs ! parent i)"
      using less parent_less[of i] by (auto simp: heap_upto_def)
    then show ?thesis using trans by blast
  qed simp
qed

lemma push_ok: "heap_upto le (length h) h \<Longrightarrow> heap_upto le (length (bh_push le x h)) (bh_push le x h)"
proof -
  assume "heap_upto le (length h) h"
  then have "heap_upto le (length h) (h @ [x])"
    unfolding heap_upto_def by (auto simp: nth_append) (metis less_trans parent_less)
  from sift_up_heap[OF almost_last[OF this]] show ?thesis by (simp add: bh_push_def)
qed

lemma pop_ok:
  assumes "heap_upto le (length h) h" and "bh_pop le h = Some (x, h')"
  shows "mset h = add_mset x (mset h') \<and> heap_upto le (length h') h' \<and> (\<forall>y\<in>set h. le y x)"
proof -
  have ne: "h \<noteq> []" using assms(2) by (auto simp: bh_pop_def)
  have top: "\<forall>y\<in>set h. le y (h ! 0)" using heap_root[OF assms(1)] by (auto simp: in_set_conv_nth)
  let ?d = "butlast h"
  show ?thesis
  proof (cases "?d = []")
    case True
    then have "h = [last h]" using ne append_butlast_last_id[of h] by simp
    moreover have "x = last h" "h' = []" using True ne assms(2) by (auto simp: bh_pop_def)
    ultimately show ?thesis by (metis add_mset_add_single empty_iff heap_upto_def le_refl list.set(1) list.size(3)
      mset.simps(1) mset.simps(2) not_less_zero set_ConsD)
  next
    case False
    obtain ys q where k: "sink le (?d[0 := last h]) 0 = (ys, q)" by fastforce
    have d0: "0 < length ?d" using False unfolding length_greater_0_conv .
    have h0: "?d ! 0 = h ! 0" using nth_butlast[OF d0] .
    have r: "x = h ! 0" "h' = sift_up le ys q" using False ne assms(2) k h0 by (auto simp: bh_pop_def Let_def)
    have nth: "?d[0 := last h] ! i = h ! i" if "0 < i" "i < length ?d" for i using that by (simp add: nth_butlast)
    have "holed le 0 (?d[0 := last h]) 0"
      unfolding holed_def
    proof (intro conjI allI impI)
      fix i assume i: "0 < i" "i < length (?d[0 := last h])" "parent i \<noteq> 0"
      have "parent i < length ?d" using parent_less[OF i(1)] i(2) by simp
      then show "le (?d[0 := last h] ! i) (?d[0 := last h] ! parent i)"
        using nth[of i] nth[of "parent i"] i assms(1) by (simp add: heap_upto_def)
    qed simp
    note a = sink_heap[OF this _ k] and pr = sink_props[OF _ k]
    have "heap_upto le (length h') h'" using a pr sift_up_heap[of "length ?d" ys q] d0 r(2) by simp
    moreover have "mset h = add_mset x (mset h')"
    proof -
      have "mset (?d @ [last h]) = add_mset (last h) (mset ?d)" by simp
      then have "mset h = add_mset (last h) (mset ?d)" using ne by simp
      moreover have "mset (?d[0 := last h]) = add_mset (last h) (mset ?d - {#h ! 0#})" using mset_update[OF d0] h0 by simp
      moreover have "h ! 0 \<in># mset ?d" using d0 h0 by (metis nth_mem_mset)
      ultimately show ?thesis using pr d0 r by simp
    qed
    ultimately show ?thesis using top r(1) by simp
  qed
qed

lemma retain_ok:
  assumes "heap_upto le (length h) h"
  shows "heap_upto le (length (bh_retain le f h)) (bh_retain le f h) \<and> mset (bh_retain le f h) = filter_mset f (mset h)"
proof -
  let ?k = "length (takeWhile f h)"
  have split: "filter f h = takeWhile f h @ filter f (dropWhile f h)"
    by (metis filter_append filter_id_conv set_takeWhileD takeWhile_dropWhile_id)
  have nth: "filter f h ! i = h ! i" if "i < ?k" for i
    using that unfolding split by (simp add: nth_append takeWhile_nth)
  have "?k \<le> length h" by (rule length_takeWhile_le)
  then have "heap_upto le ?k (filter f h)"
    using assms nth unfolding heap_upto_def by (metis less_le_trans less_trans parent_less)
  moreover have "?k \<le> length (filter f h)" by (simp add: split)
  ultimately show ?thesis
    using rebuild_tail_heap[of ?k "filter f h"] unfolding bh_retain_def by (metis mset_filter size_mset)
qed

end

section \<open>The interface of the queue\<close>

locale priority_queue =
  fixes push :: "'a \<Rightarrow> 'q \<Rightarrow> 'q"
    and pop :: "'q \<Rightarrow> ('a \<times> 'q) option"
    and retain :: "('a \<Rightarrow> bool) \<Rightarrow> 'q \<Rightarrow> 'q"
    and elems :: "'q \<Rightarrow> 'a multiset"
    and ok :: "'q \<Rightarrow> bool"
    and le :: "'a \<Rightarrow> 'a \<Rightarrow> bool"
  assumes elems_push: "elems (push x q) = add_mset x (elems q)"
    and ok_push: "ok q \<Longrightarrow> ok (push x q)"
    and pop_None: "pop q = None \<longleftrightarrow> elems q = {#}"
    and pop_Some: "ok q \<Longrightarrow> pop q = Some (x, q') \<Longrightarrow>
      elems q = add_mset x (elems q') \<and> ok q' \<and> (\<forall>y\<in>#elems q. le y x)"
    and retain_spec: "ok q \<Longrightarrow> ok (retain f q) \<and> elems (retain f q) = filter_mset f (elems q)"
begin

text \<open>What is put in comes out, and nothing else.\<close>

lemma pop_elem: "ok q \<Longrightarrow> pop q = Some (x, q') \<Longrightarrow> x \<in># elems q"
  using pop_Some by fastforce

lemma push_pop_elem: "ok q \<Longrightarrow> pop (push x q) \<noteq> None"
  by (simp add: pop_None elems_push)

lemma push_pop_le:
  assumes "ok q" and "pop (push x q) = Some (y, q')"
  shows "le x y"
  using pop_Some[OF ok_push[OF assms(1)] assms(2)] by (simp add: elems_push)

lemma retain_all: "ok q \<Longrightarrow> (\<And>x. x \<in># elems q \<Longrightarrow> f x) \<Longrightarrow> elems (retain f q) = elems q"
  by (simp add: retain_spec filter_mset_eq_conv)

end

context ord_trait
begin

lemma heap_is_priority_queue:
  "priority_queue (bh_push le) (bh_pop le) (bh_retain le) mset (\<lambda>h. heap_upto le (length h) h) le"
proof
  fix q :: "'a list" and x
  show "mset (bh_push le x q) = add_mset x (mset q)" by (simp add: bh_push_def)
  show "(bh_pop le q = None) = (mset q = {#})" by (auto simp: bh_pop_def Let_def split: prod.splits)
  fix q'
  assume "heap_upto le (length q) q" and "bh_pop le q = Some (x, q')"
  from pop_ok[OF this] show "mset q = add_mset x (mset q') \<and> heap_upto le (length q') q' \<and> (\<forall>y\<in>#mset q. le y x)"
    unfolding set_mset_mset by blast
qed (use push_ok retain_ok in auto)

end

end
