(* ===== verification/Spinlock.thy ===== *)
theory Spinlock
  imports Prelude
begin

text \<open>
  The interrupt flag (\<open>interrupts_enabled\<close>, \<open>enable_interrupts\<close>, \<open>disable_interrupts\<close> of
  \<open>src/arch/x86_64/interrupt.rs\<close>) and the lock that disables interrupts
  (\<open>src/locking/spinlock.rs\<close>). The mutex inside is the one of the \<open>spin\<close> crate: its two operations
  are a parameter, and \<open>spin_ok\<close> states what the crate documents of them. A lock that is held is
  waited for forever, because the kernel runs on one processor and the holder cannot run while
  interrupts are disabled.
\<close>

section \<open>Model\<close>

text \<open>The interrupt flag is bit 9 of \<open>RFLAGS\<close>; \<open>sti\<close> sets and \<open>cli\<close> clears it.\<close>

definition interrupts_enabled :: "u64 \<Rightarrow> bool" where
  "interrupts_enabled rflags \<longleftrightarrow> drop_bit 9 rflags AND 1 \<noteq> 0"

definition enable_interrupts :: "u64 \<Rightarrow> u64" where
  "enable_interrupts rflags = rflags OR push_bit 9 1"

definition disable_interrupts :: "u64 \<Rightarrow> u64" where
  "disable_interrupts rflags = rflags AND NOT (push_bit 9 1)"

record 'l spin_ops =
  sp_lock :: "'l \<Rightarrow> 'l res"
  sp_unlock :: "'l \<Rightarrow> 'l"

definition spin_ok :: "'l spin_ops \<Rightarrow> 'l \<Rightarrow> 'l \<Rightarrow> bool" where
  "spin_ok sp free held \<longleftrightarrow>
     sp_lock sp free = Inr held \<and> sp_lock sp held = Inl Diverges \<and>
     sp_unlock sp held = free \<and> sp_unlock sp free = free"

record ('l, 'a) with_spin_lock =
  inner :: 'l
  locked_data :: 'a

record with_spin_lock_guard =
  was_enabled :: bool

definition spin_lock_new :: "'l \<Rightarrow> 'a \<Rightarrow> ('l, 'a) with_spin_lock" where
  "spin_lock_new mutex_new a = \<lparr>inner = mutex_new, locked_data = a\<rparr>"

definition spin_lock_lock ::
  "'l spin_ops \<Rightarrow> u64 \<Rightarrow> ('l, 'a) with_spin_lock \<Rightarrow> (with_spin_lock_guard \<times> u64 \<times> ('l, 'a) with_spin_lock) res" where
  "spin_lock_lock sp rflags l =
     (let was = interrupts_enabled rflags; rflags' = disable_interrupts rflags in
      rbind (sp_lock sp (inner l)) (\<lambda>i. Inr (\<lparr>was_enabled = was\<rparr>, rflags', l\<lparr>inner := i\<rparr>)))"

text \<open>
  Dropping the guard: the body of \<open>drop\<close> drops the inner guard in place and restores interrupts, and
  after it the compiler drops the field \<open>inner\<close> once more.
\<close>

definition guard_drop ::
  "'l spin_ops \<Rightarrow> with_spin_lock_guard \<Rightarrow> u64 \<Rightarrow> ('l, 'a) with_spin_lock \<Rightarrow> u64 \<times> ('l, 'a) with_spin_lock" where
  "guard_drop sp g rflags l =
     (let l1 = l\<lparr>inner := sp_unlock sp (inner l)\<rparr>;
          rflags' = (if was_enabled g then enable_interrupts rflags else rflags)
      in (rflags', l1\<lparr>inner := sp_unlock sp (inner l1)\<rparr>))"

section \<open>Critical sections\<close>

text \<open>
  A piece of code as the critical sections it runs: each takes one of the kernel's locks, updates the
  data under it, runs the sections nested in it, and drops the guard.
\<close>

datatype 'a critical = Critical nat "'a \<Rightarrow> 'a" "'a critical list"

type_synonym ('l, 'a) lock_table = "nat \<Rightarrow> ('l, 'a) with_spin_lock"

fun run_critical :: "'l spin_ops \<Rightarrow> 'a critical \<Rightarrow> u64 \<times> ('l, 'a) lock_table \<Rightarrow> (u64 \<times> ('l, 'a) lock_table) res"
  and run_criticals :: "'l spin_ops \<Rightarrow> 'a critical list \<Rightarrow> u64 \<times> ('l, 'a) lock_table \<Rightarrow> (u64 \<times> ('l, 'a) lock_table) res" where
  "run_critical sp (Critical i f cs) (rflags, ls) =
     rbind (spin_lock_lock sp rflags (ls i)) (\<lambda>(g, rflags1, l1).
     rbind (run_criticals sp cs (rflags1, ls(i := l1\<lparr>locked_data := f (locked_data l1)\<rparr>))) (\<lambda>(rflags2, ls2).
     let (rflags3, l3) = guard_drop sp g rflags2 (ls2 i) in Inr (rflags3, ls2(i := l3))))"
| "run_criticals sp [] s = Inr s"
| "run_criticals sp (c # cs) s = rbind (run_critical sp c s) (run_criticals sp cs)"

text \<open>What the sections do to the data, as if there were no locks.\<close>

fun effect :: "'a critical \<Rightarrow> (nat \<Rightarrow> 'a) \<Rightarrow> nat \<Rightarrow> 'a"
  and effects :: "'a critical list \<Rightarrow> (nat \<Rightarrow> 'a) \<Rightarrow> nat \<Rightarrow> 'a" where
  "effect (Critical i f cs) d = effects cs (d(i := f (d i)))"
| "effects [] d = d"
| "effects (c # cs) d = effects cs (effect c d)"

text \<open>No lock of the set is taken again.\<close>

fun avoids :: "nat set \<Rightarrow> 'a critical \<Rightarrow> bool"
  and avoids_all :: "nat set \<Rightarrow> 'a critical list \<Rightarrow> bool" where
  "avoids held (Critical i f cs) \<longleftrightarrow> i \<notin> held \<and> avoids_all (insert i held) cs"
| "avoids_all held [] \<longleftrightarrow> True"
| "avoids_all held (c # cs) \<longleftrightarrow> avoids held c \<and> avoids_all held cs"

section \<open>Lemmas\<close>

lemma interrupts_enabled_bit: "interrupts_enabled rflags \<longleftrightarrow> bit rflags 9"
  by (simp add: interrupts_enabled_def and_one_eq bit_iff_odd_drop_bit odd_iff_mod_2_eq_one)

lemma bit_9: "bit (push_bit 9 1 :: u64) n \<longleftrightarrow> n = 9"
  unfolding bit_push_bit_iff bit_1_iff by auto

lemma bit_enable: "bit (enable_interrupts rflags) n \<longleftrightarrow> bit rflags n \<or> n = 9"
  unfolding enable_interrupts_def bit_or_iff bit_9 by simp

lemma bit_disable: "bit (disable_interrupts rflags) n \<longleftrightarrow> bit rflags n \<and> n \<noteq> 9"
  unfolding disable_interrupts_def bit_and_iff bit_not_iff_eq bit_9 by (auto dest: bit_imp_le_length)

lemma interrupts_disable [simp]: "\<not> interrupts_enabled (disable_interrupts rflags)"
  and interrupts_enable [simp]: "interrupts_enabled (enable_interrupts rflags)"
  unfolding interrupts_enabled_bit bit_enable bit_disable by simp_all

lemma restore_interrupts:
  "(if interrupts_enabled rflags then enable_interrupts (disable_interrupts rflags) else disable_interrupts rflags) = rflags"
  by (rule bit_word_eqI) (auto simp: interrupts_enabled_bit bit_enable bit_disable)

text \<open>The locks in \<open>held\<close> are held and all the others free.\<close>

definition lock_state :: "'l \<Rightarrow> 'l \<Rightarrow> nat set \<Rightarrow> ('l, 'a) lock_table \<Rightarrow> bool" where
  "lock_state free held H ls \<longleftrightarrow> (\<forall>i. inner (ls i) = (if i \<in> H then held else free))"

definition critical_spec :: "'l spin_ops \<Rightarrow> 'l \<Rightarrow> 'l \<Rightarrow> nat set \<Rightarrow> u64 \<Rightarrow> ('l, 'a) lock_table \<Rightarrow>
    (nat \<Rightarrow> 'a) \<Rightarrow> (u64 \<times> ('l, 'a) lock_table) res \<Rightarrow> bool" where
  "critical_spec sp free held H rflags ls d r \<longleftrightarrow>
     (\<exists>ls'. r = Inr (rflags, ls') \<and> lock_state free held H ls' \<and> (\<lambda>i. locked_data (ls' i)) = d)"

lemma run_criticals_spec:
  assumes "\<And>c ls. c \<in> set cs \<Longrightarrow> avoids H c \<Longrightarrow> lock_state free held H ls \<Longrightarrow>
      critical_spec sp free held H rflags ls (effect c (\<lambda>i. locked_data (ls i))) (run_critical sp c (rflags, ls))"
    and "avoids_all H cs" and "lock_state free held H ls"
  shows "critical_spec sp free held H rflags ls (effects cs (\<lambda>i. locked_data (ls i))) (run_criticals sp cs (rflags, ls))"
  using assms
proof (induction cs arbitrary: ls)
  case Nil
  then show ?case by (simp add: critical_spec_def)
next
  case (Cons c cs)
  obtain ls1 where r: "run_critical sp c (rflags, ls) = Inr (rflags, ls1)" "lock_state free held H ls1"
    "(\<lambda>i. locked_data (ls1 i)) = effect c (\<lambda>i. locked_data (ls i))"
    using Cons.prems(1)[of c ls] Cons.prems(2,3) by (auto simp: critical_spec_def)
  have "critical_spec sp free held H rflags ls1 (effects cs (\<lambda>i. locked_data (ls1 i))) (run_criticals sp cs (rflags, ls1))"
    using Cons.prems r(2) by (intro Cons.IH) auto
  then show ?case using r by (simp add: critical_spec_def)
qed

lemma run_critical_spec:
  assumes "spin_ok sp free held"
  shows "avoids H c \<Longrightarrow> lock_state free held H ls \<Longrightarrow>
    critical_spec sp free held H rflags ls (effect c (\<lambda>i. locked_data (ls i))) (run_critical sp c (rflags, ls))"
proof (induction c arbitrary: H rflags ls)
  case (Critical i f cs)
  let ?r = "disable_interrupts rflags" and ?ls = "ls(i := (ls i)\<lparr>inner := held, locked_data := f (locked_data (ls i))\<rparr>)"
  have i: "i \<notin> H" "inner (ls i) = free" using Critical.prems by (auto simp: lock_state_def)
  have "lock_state free held (insert i H) ?ls" using Critical.prems(2) by (auto simp: lock_state_def)
  then have "critical_spec sp free held (insert i H) ?r ?ls (effects cs (\<lambda>j. locked_data (?ls j))) (run_criticals sp cs (?r, ?ls))"
    using Critical.prems(1) by (intro run_criticals_spec Critical.IH) auto
  then obtain ls2 where r: "run_criticals sp cs (?r, ?ls) = Inr (?r, ls2)" "lock_state free held (insert i H) ls2"
    "(\<lambda>j. locked_data (ls2 j)) = effects cs (\<lambda>j. locked_data (?ls j))"
    by (auto simp: critical_spec_def)
  define ls3 where "ls3 = ls2(i := (ls2 i)\<lparr>inner := free\<rparr>)"
  have "inner (ls2 i) = held" using r(2) by (simp add: lock_state_def)
  then have "guard_drop sp \<lparr>was_enabled = interrupts_enabled rflags\<rparr> ?r (ls2 i) = (rflags, ls3 i)"
    using assms restore_interrupts[of rflags] by (simp add: guard_drop_def spin_ok_def ls3_def)
  then have "run_critical sp (Critical i f cs) (rflags, ls) = Inr (rflags, ls3)"
    using assms i(2) r(1) by (simp add: spin_lock_lock_def spin_ok_def ls3_def)
  moreover have "lock_state free held H ls3" using r(2) i(1) by (auto simp: lock_state_def ls3_def)
  moreover have "(\<lambda>j. locked_data (ls3 j)) = effect (Critical i f cs) (\<lambda>j. locked_data (ls j))"
    using r(3) by (auto simp: ls3_def fun_eq_iff fun_upd_def if_distrib cong: if_cong)
  ultimately show ?case by (auto simp: critical_spec_def)
qed

section \<open>Properties\<close>

text \<open>
  C18: code whose critical sections never take a lock again that they hold returns, with the interrupt
  flag as it was, every lock free, and the data as the sections alone would have changed it. This
  includes the second release of each lock when a guard is dropped.
\<close>

theorem critical_sections_restore:
  assumes "spin_ok sp free held" and "avoids_all {} cs" and "\<forall>i. inner (ls i) = free"
  shows "\<exists>ls'. run_criticals sp cs (rflags, ls) = Inr (rflags, ls') \<and> (\<forall>i. inner (ls' i) = free) \<and>
    (\<lambda>i. locked_data (ls' i)) = effects cs (\<lambda>i. locked_data (ls i))"
  using run_criticals_spec[OF run_critical_spec[OF assms(1)] assms(2)] assms(3)
  by (auto simp: critical_spec_def lock_state_def)

definition bool_spin :: "bool spin_ops" where
  "bool_spin = \<lparr>sp_lock = (\<lambda>b. if b then Inl Diverges else Inr True), sp_unlock = (\<lambda>_. False)\<rparr>"

lemma bool_spin_ok: "spin_ok bool_spin False True"
  by (simp add: spin_ok_def bool_spin_def)

theorem critical_sections_restore_witness:
  "\<exists>ls'. run_criticals bool_spin [Critical 0 Suc [Critical 1 Suc []], Critical 1 Suc []]
      (0x202, \<lambda>i. spin_lock_new False 0) = Inr (0x202, ls') \<and> locked_data (ls' 1) = 2 \<and> \<not> inner (ls' 0)"
proof -
  let ?cs = "[Critical 0 Suc [Critical 1 Suc []], Critical 1 Suc []]"
  have "\<exists>ls'. run_criticals bool_spin ?cs (0x202, \<lambda>i. spin_lock_new False 0) = Inr (0x202, ls') \<and>
      (\<forall>i. inner (ls' i) = False) \<and>
      (\<lambda>i. locked_data (ls' i)) = effects ?cs (\<lambda>i. locked_data (spin_lock_new False 0))"
    by (rule critical_sections_restore[OF bool_spin_ok]) (simp_all add: spin_lock_new_def)
  then show ?thesis by (auto simp: spin_lock_new_def fun_eq_iff)
qed

end
