(* ===== verification/Machine.thy ===== *)
theory Machine
  imports Spinlock
begin

text \<open>
  The part of the processor that the assembly code of the kernel works on, the context switch
  (\<open>src/arch/x86_64/task_switch.s\<close>) and the entry and exit of interrupts
  (\<open>src/arch/x86_64/isr.s\<close>). The stacks are memory of quadwords: every access of this code is an
  aligned quadword. The header of a task (\<open>struct TaskInfo\<close>, \<open>repr(C)\<close>) that the context switch
  accesses at the offsets 8 and 16 is the record of the structure, stored at the address of the task.
\<close>

section \<open>Model\<close>

datatype reg = RAX | RBX | RCX | RDX | RSI | RDI | RBP | RSP | R8 | R9 | R10 | R11 | R12 | R13 | R14 | R15
  | RIP | CR2 | CR3 | CS | SS

record registers =
  stack_top :: usize
  task_cr3 :: usize

record task_info =
  task_id :: usize
  registers :: registers
  last_scheduled :: u64
  run_until :: u64
  total_runtime :: u64
  flags :: u32
  interrupt_enabled :: bool

record machine =
  regs :: "reg \<Rightarrow> u64"
  rflags :: u64
  qmem :: "usize \<Rightarrow> u64"
  infos :: "usize \<Rightarrow> task_info"

definition set_reg :: "reg \<Rightarrow> u64 \<Rightarrow> machine \<Rightarrow> machine" where
  "set_reg r v m = m\<lparr>regs := (regs m)(r := v)\<rparr>"

definition push :: "u64 \<Rightarrow> machine \<Rightarrow> machine" where
  "push v m = (let sp = regs m RSP - 8 in m\<lparr>regs := (regs m)(RSP := sp), qmem := (qmem m)(sp := v)\<rparr>)"

definition pushq :: "reg \<Rightarrow> machine \<Rightarrow> machine" where
  "pushq r m = push (regs m r) m"

definition popq :: "reg \<Rightarrow> machine \<Rightarrow> machine" where
  "popq r m = m\<lparr>regs := (regs m)(RSP := regs m RSP + 8, r := qmem m (regs m RSP))\<rparr>"

text \<open>\<open>movq disp(%rsp), %r\<close>\<close>

definition load_stack :: "u64 \<Rightarrow> reg \<Rightarrow> machine \<Rightarrow> machine" where
  "load_stack disp r m = set_reg r (qmem m (regs m RSP + disp)) m"

text \<open>\<open>movq %rsp, 8(%rdi)\<close>, \<open>movq 8(%rsi), %rsp\<close> and \<open>movq 16(%rsi), %rbx; movq %rbx, %cr3\<close>.\<close>

definition save_stack_top :: "machine \<Rightarrow> machine" where
  "save_stack_top m =
     (let p = regs m RDI; i = infos m p in
      m\<lparr>infos := (infos m)(p := i\<lparr>registers := (registers i)\<lparr>stack_top := regs m RSP\<rparr>\<rparr>)\<rparr>)"

definition load_stack_top :: "machine \<Rightarrow> machine" where
  "load_stack_top m = set_reg RSP (stack_top (registers (infos m (regs m RSI)))) m"

definition load_cr3 :: "machine \<Rightarrow> machine" where
  "load_cr3 m =
     (let m1 = set_reg RBX (task_cr3 (registers (infos m (regs m RSI)))) m in set_reg CR3 (regs m1 RBX) m1)"

definition push_callee_saved :: "machine \<Rightarrow> machine" where
  "push_callee_saved m = pushq R15 (pushq R14 (pushq R13 (pushq R12 (pushq RBX (pushq RBP m)))))"

definition pop_callee_saved :: "machine \<Rightarrow> machine" where
  "pop_callee_saved m = popq RBP (popq RBX (popq R12 (popq R13 (popq R14 (popq R15 m)))))"

definition do_switch :: "machine \<Rightarrow> machine" where
  "do_switch m =
     (let m1 = push_callee_saved m;
          m2 = save_stack_top m1;
          m3 = load_stack_top m2;
          m4 = load_cr3 m3;
          m5 = pop_callee_saved m4;
          m6 = set_reg RAX (regs m5 RDX) m5
      in popq RIP m6)"

text \<open>\<open>_task_entry\<close>, up to the call of \<open>task_entry\<close>, which pushes the return address.\<close>

definition task_entry_stub :: "u64 \<Rightarrow> machine \<Rightarrow> machine" where
  "task_entry_stub ret m =
     (let m1 = set_reg RDI (regs m RBP) m;
          m2 = set_reg RSI (regs m1 RBX) m1;
          m3 = set_reg RDX (regs m2 RAX) m2
      in push ret m3)"

subsection \<open>Interrupts\<close>

text \<open>
  What the processor does on an interrupt through a 64-bit interrupt gate, without and with an error
  code, and on \<open>iretq\<close>.
\<close>

definition cpu_interrupt :: "machine \<Rightarrow> machine" where
  "cpu_interrupt m =
     (let sp0 = regs m RSP AND NOT 0xf;
          m1 = push (regs m SS) (set_reg RSP sp0 m);
          m2 = push (regs m RSP) m1;
          m3 = push (rflags m) m2;
          m4 = push (regs m CS) m3;
          m5 = push (regs m RIP) m4
      in m5\<lparr>rflags := disable_interrupts (rflags m)\<rparr>)"

definition iretq :: "machine \<Rightarrow> machine" where
  "iretq m =
     (let sp = regs m RSP in
      m\<lparr>regs := (regs m)(RIP := qmem m sp, CS := qmem m (sp + 8), RSP := qmem m (sp + 24), SS := qmem m (sp + 32)),
        rflags := qmem m (sp + 16)\<rparr>)"

definition pusha :: "machine \<Rightarrow> machine" where
  "pusha m = pushq R11 (pushq R10 (pushq R9 (pushq R8 (pushq RSP (pushq RBP (pushq RSI (pushq RDI
     (pushq RDX (pushq RCX (pushq RAX m))))))))))"

definition popa :: "machine \<Rightarrow> machine" where
  "popa m = popq RAX (popq RCX (popq RDX (popq RDI (popq RSI (popq RBP (popq RSP (popq R8 (popq R9
     (popq R10 (popq R11 m))))))))))"

text \<open>\<open>isr_exit\<close>; the calls of Rust functions are arguments.\<close>

definition isr_exit :: "(machine \<Rightarrow> machine) \<Rightarrow> machine \<Rightarrow> machine" where
  "isr_exit check_runtime m =
     (let m1 = popa (check_runtime m) in iretq (set_reg RSP (regs m1 RSP + 8) m1))"

definition isr_with :: "(machine \<Rightarrow> machine) \<Rightarrow> u64 \<Rightarrow> (machine \<Rightarrow> machine) \<Rightarrow> machine \<Rightarrow> machine" where
  "isr_with check_runtime vector handler m = isr_exit check_runtime (handler (pusha (push vector m)))"

definition ps2_keyboard_isr where
  "ps2_keyboard_isr check_runtime ps2_keyboard_handler = isr_with check_runtime 0x21 ps2_keyboard_handler"

definition pit_isr where
  "pit_isr check_runtime pit_handler = isr_with check_runtime 0x20 pit_handler"

definition com0_isr where
  "com0_isr check_runtime com0_handler = isr_with check_runtime 0x24 com0_handler"

definition hpet_isr where
  "hpet_isr check_runtime hpet_handler = isr_with check_runtime 0x20 hpet_handler"

definition syscall_args :: "machine \<Rightarrow> machine" where
  "syscall_args m = load_stack 24 R9 (load_stack 8 R8 (load_stack 64 RCX (load_stack 48 RDX
     (load_stack 56 RSI (load_stack 80 RDI m)))))"

definition syscall_isr where
  "syscall_isr check_runtime syscall_handler =
     isr_with check_runtime 0x80 (\<lambda>m. syscall_handler (syscall_args m))"

text \<open>The entry of the device vector \<open>n\<close>, of which the macro generates those up to 63.\<close>

definition device_isr where
  "device_isr check_runtime device_handler n =
     isr_with check_runtime n (\<lambda>m. device_handler (load_stack 88 RDI m))"

text \<open>For a page fault the processor has pushed the error code.\<close>

definition page_fault_isr where
  "page_fault_isr check_runtime page_fault_handler m =
     (let m1 = load_stack 88 RDI (pusha m)
      in isr_exit check_runtime (page_fault_handler (set_reg RSI (regs m1 CR2) m1)))"

section \<open>Lemmas\<close>

named_theorems machine_simps \<open>the instructions\<close>

lemmas instruction_defs [machine_simps] = set_reg_def push_def pushq_def popq_def load_stack_def Let_def

lemma wordadd_numeral_cancel [machine_simps]:
  "(x :: 'a::len word) - a + b = x + (b - a)" "x + a + b = x + (a + b)" "x + a - b = x + (a - b)" "x - a - b = x - (a + b)"
  by simp_all

text \<open>The frame that the context switch leaves on a stack: six registers and the return address.\<close>

definition switch_frame :: "usize \<Rightarrow> usize list" where
  "switch_frame sp = map (\<lambda>k. sp + 8 * of_nat k) [0..<7]"

lemma switch_frame_unfold: "switch_frame sp = [sp, sp + 8, sp + 16, sp + 24, sp + 32, sp + 40, sp + 48]"
  by (simp add: switch_frame_def upt_rec)

lemma push_callee_saved_eq:
  "push_callee_saved m =
     (let sp = regs m RSP in
      m\<lparr>regs := (regs m)(RSP := sp - 48),
        qmem := (qmem m)(sp - 8 := regs m RBP, sp - 16 := regs m RBX, sp - 24 := regs m R12,
          sp - 32 := regs m R13, sp - 40 := regs m R14, sp - 48 := regs m R15)\<rparr>)"
  by (simp add: push_callee_saved_def machine_simps)

lemma pop_callee_saved_eq:
  "pop_callee_saved m =
     (let sp = regs m RSP in
      m\<lparr>regs := (regs m)(R15 := qmem m sp, R14 := qmem m (sp + 8), R13 := qmem m (sp + 16),
          R12 := qmem m (sp + 24), RBX := qmem m (sp + 32), RBP := qmem m (sp + 40), RSP := sp + 48)\<rparr>)"
  by (simp add: pop_callee_saved_def machine_simps fun_upd_twist)

text \<open>What the switch does to the registers, to the memory and to the task it leaves.\<close>

lemma do_switch_eq:
  assumes "m' = do_switch m"
  defines "sp \<equiv> stack_top (registers (infos (save_stack_top (push_callee_saved m)) (regs m RSI)))"
  shows "regs m' = (regs m)(R15 := qmem m' sp, R14 := qmem m' (sp + 8), R13 := qmem m' (sp + 16), R12 := qmem m' (sp + 24),
      RBX := qmem m' (sp + 32), RBP := qmem m' (sp + 40), RIP := qmem m' (sp + 48), RSP := sp + 56, RAX := regs m RDX,
      CR3 := task_cr3 (registers (infos m (regs m RSI))))"
    and "qmem m' = qmem (push_callee_saved m)"
    and "infos m' = infos (save_stack_top (push_callee_saved m))"
    and "rflags m' = rflags m"
proof -
  have "infos (push_callee_saved m) = infos m" by (simp add: push_callee_saved_eq Let_def)
  then have c: "task_cr3 (registers (infos (save_stack_top (push_callee_saved m)) p)) = task_cr3 (registers (infos m p))" for p
    by (simp add: save_stack_top_def Let_def)
  have r: "regs (save_stack_top (push_callee_saved m)) = (regs m)(RSP := regs m RSP - 48)"
    "qmem (save_stack_top (push_callee_saved m)) = qmem (push_callee_saved m)"
    "rflags (save_stack_top (push_callee_saved m)) = rflags m"
    by (simp_all add: save_stack_top_def push_callee_saved_eq Let_def)
  show "regs m' = (regs m)(R15 := qmem m' sp, R14 := qmem m' (sp + 8), R13 := qmem m' (sp + 16), R12 := qmem m' (sp + 24),
      RBX := qmem m' (sp + 32), RBP := qmem m' (sp + 40), RIP := qmem m' (sp + 48), RSP := sp + 56, RAX := regs m RDX,
      CR3 := task_cr3 (registers (infos m (regs m RSI))))"
    unfolding assms(1) do_switch_def Let_def load_stack_top_def load_cr3_def pop_callee_saved_eq sp_def
    by (simp add: machine_simps r c fun_upd_twist)
  show "qmem m' = qmem (push_callee_saved m)" "infos m' = infos (save_stack_top (push_callee_saved m))" "rflags m' = rflags m"
    unfolding assms(1) do_switch_def Let_def load_stack_top_def load_cr3_def pop_callee_saved_eq
    by (simp_all add: machine_simps r)
qed

section \<open>Properties\<close>

text \<open>
  C11: the context switch saves a task completely: when a task switches away and, after anything that
  leaves its saved stack pointer and the frame on its stack alone, another task switches back to it,
  it continues after its call of the switch with its callee-saved registers, its stack pointer and
  its address space.
\<close>

theorem context_switch_roundtrip:
  assumes "m2 = do_switch m1"
    and "registers (infos m3 (regs m1 RDI)) = registers (infos m2 (regs m1 RDI))"
    and "\<forall>a\<in>set (switch_frame (regs m1 RSP - 48)). qmem m3 a = qmem m2 a"
    and "regs m3 RSI = regs m1 RDI" and "regs m3 RDI \<noteq> regs m1 RDI"
    and "set (switch_frame (regs m1 RSP - 48)) \<inter> set (switch_frame (regs m3 RSP - 48)) = {}"
  shows "map (regs (do_switch m3)) [RBX, RBP, R12, R13, R14, R15] = map (regs m1) [RBX, RBP, R12, R13, R14, R15] \<and>
    regs (do_switch m3) RSP = regs m1 RSP + 8 \<and> regs (do_switch m3) RIP = qmem m1 (regs m1 RSP) \<and>
    regs (do_switch m3) CR3 = task_cr3 (registers (infos m1 (regs m1 RDI)))"
proof -
  let ?A = "regs m1 RDI" and ?s = "regs m1 RSP - 48" and ?t = "regs m3 RSP - 48"
  note e1 = do_switch_eq[OF assms(1)] and e3 = do_switch_eq[OF refl, of m3]
  have A: "registers (infos m2 ?A) = \<lparr>stack_top = ?s, task_cr3 = task_cr3 (registers (infos m1 ?A))\<rparr>"
    by (simp add: e1(3) save_stack_top_def push_callee_saved_eq Let_def)
  have top: "stack_top (registers (infos (save_stack_top (push_callee_saved m3)) (regs m3 RSI))) = ?s"
    using A assms(2,4,5) by (simp add: save_stack_top_def push_callee_saved_eq Let_def)
  have "qmem (push_callee_saved m3) a = qmem m3 a" if "a \<notin> set (switch_frame ?t)" for a
    using that by (simp add: push_callee_saved_eq Let_def switch_frame_unfold)
  then have mem: "qmem (do_switch m3) a = qmem (push_callee_saved m1) a" if "a \<in> set (switch_frame ?s)" for a
    using that assms(3,6) unfolding e3(2) e1(2) by (metis disjoint_iff)
  have "map (qmem (push_callee_saved m1)) (switch_frame ?s) =
      [regs m1 R15, regs m1 R14, regs m1 R13, regs m1 R12, regs m1 RBX, regs m1 RBP, qmem m1 (regs m1 RSP)]"
    by (simp add: push_callee_saved_eq Let_def switch_frame_unfold)
  moreover have "map (qmem (do_switch m3)) (switch_frame ?s) = map (qmem (push_callee_saved m1)) (switch_frame ?s)"
    by (rule map_cong[OF refl mem])
  ultimately have "map (qmem (do_switch m3)) [?s, ?s + 8, ?s + 16, ?s + 24, ?s + 32, ?s + 40, ?s + 48] =
      [regs m1 R15, regs m1 R14, regs m1 R13, regs m1 R12, regs m1 RBX, regs m1 RBP, qmem m1 (regs m1 RSP)]"
    unfolding switch_frame_unfold by simp
  then show ?thesis
    using assms(2,4) A unfolding e3(1) top by simp
qed

definition sample_machine :: machine where
  "sample_machine = \<lparr>regs = (\<lambda>_. 0)(RDI := 0x2000, RSI := 0x4000, RSP := 0x3000, RBX := 7, R12 := 9, RIP := 0x1234),
     rflags = 0x202, qmem = (\<lambda>_. 0)(0x3000 := 0x1111),
     infos = (\<lambda>_. \<lparr>task_id = 0, registers = \<lparr>stack_top = 0x5000, task_cr3 = 0x1000\<rparr>, last_scheduled = 0, run_until = 0,
       total_runtime = 0, flags = 1, interrupt_enabled = True\<rparr>)\<rparr>"

definition sample_back :: machine where
  "sample_back = (let m2 = do_switch sample_machine in m2\<lparr>regs := (regs m2)(RDI := 0x4000, RSI := 0x2000, RBX := 5)\<rparr>)"

theorem context_switch_roundtrip_witness:
  "regs (do_switch sample_back) RBX = 7 \<and> regs (do_switch sample_back) RSP = 0x3008 \<and>
   regs (do_switch sample_back) RIP = 0x1111"
proof -
  let ?m2 = "do_switch sample_machine"
  note e = do_switch_eq[OF refl, of sample_machine]
  have "regs sample_back RSP = 0x5038"
    by (simp add: sample_back_def Let_def e(1) save_stack_top_def push_callee_saved_eq) (simp add: sample_machine_def)
  then have "map (regs (do_switch sample_back)) [RBX, RBP, R12, R13, R14, R15] = map (regs sample_machine) [RBX, RBP, R12, R13, R14, R15] \<and>
    regs (do_switch sample_back) RSP = regs sample_machine RSP + 8 \<and>
    regs (do_switch sample_back) RIP = qmem sample_machine (regs sample_machine RSP) \<and>
    regs (do_switch sample_back) CR3 = task_cr3 (registers (infos sample_machine (regs sample_machine RDI)))"
    by (intro context_switch_roundtrip[of ?m2]) (simp_all add: sample_back_def Let_def sample_machine_def switch_frame_unfold)
  then show ?thesis by (simp add: sample_machine_def)
qed

text \<open>What the calling convention promises of a Rust function called from the assembly code.\<close>

definition above :: "usize \<Rightarrow> usize list" where
  "above sp = map (\<lambda>k. sp + 8 * of_nat k) [0..<17]"

definition call_ok :: "(machine \<Rightarrow> machine) \<Rightarrow> bool" where
  "call_ok f \<longleftrightarrow> (\<forall>m. (\<forall>r\<in>{RSP, RBX, R12, R13, R14, R15}. regs (f m) r = regs m r) \<and>
     (\<forall>a\<in>set (above (regs m RSP)). qmem (f m) a = qmem m a))"

lemma above_unfold:
  "above sp = [sp, sp + 8, sp + 16, sp + 24, sp + 32, sp + 40, sp + 48, sp + 56, sp + 64, sp + 72, sp + 80, sp + 88,
     sp + 96, sp + 104, sp + 112, sp + 120, sp + 128]"
  by (simp add: above_def upt_rec)

text \<open>The state in which a handler is called, 88 bytes below the vector.\<close>

definition handler_entry :: "u64 \<Rightarrow> machine \<Rightarrow> machine" where
  "handler_entry vector m = pusha (push vector (cpu_interrupt m))"

lemma handler_entry_regs:
  "regs (handler_entry v m) = (regs m)(RSP := (regs m RSP AND NOT 0xf) - 136)"
  by (simp add: handler_entry_def pusha_def cpu_interrupt_def machine_simps fun_upd_twist)

lemma handler_entry_mem:
  "map (\<lambda>a. qmem (handler_entry v m) a) (above (regs (handler_entry v m) RSP)) =
     [regs m R11, regs m R10, regs m R9, regs m R8, (regs m RSP AND NOT 0xf) - 96, regs m RBP, regs m RSI, regs m RDI,
      regs m RDX, regs m RCX, regs m RAX, v, regs m RIP, regs m CS, rflags m, regs m RSP, regs m SS]"
  unfolding handler_entry_regs above_unfold
  by (simp add: handler_entry_def pusha_def cpu_interrupt_def machine_simps)

text \<open>Leaving the interrupt from a state whose frame is the one of the entry.\<close>

lemma isr_exit_frame:
  assumes "map (\<lambda>a. qmem (c m) a) (above (regs (c m) RSP)) =
     [r11, r10, r9, r8, regs (c m) RSP + 40, rbp, rsi, rdi, rdx, rcx, rax, v, rip, cs, fl, sp, ss]"
  shows "regs (isr_exit c m) = (regs (c m))(R11 := r11, R10 := r10, R9 := r9, R8 := r8, RBP := rbp, RSI := rsi, RDI := rdi,
      RDX := rdx, RCX := rcx, RAX := rax, RIP := rip, CS := cs, RSP := sp, SS := ss)"
    and "rflags (isr_exit c m) = fl" and "qmem (isr_exit c m) = qmem (c m)"
  using assms unfolding above_unfold
  by (simp_all add: isr_exit_def popa_def iretq_def machine_simps fun_upd_twist)

lemma isr_with_restores:
  assumes "call_ok check_runtime" and "call_ok handler"
  shows "\<forall>r. r \<notin> {CR2, CR3} \<longrightarrow> regs (isr_with check_runtime v handler (cpu_interrupt m)) r = regs m r"
    and "rflags (isr_with check_runtime v handler (cpu_interrupt m)) = rflags m"
proof -
  let ?e = "handler_entry v m"
  define c where "c = (\<lambda>_ :: machine. check_runtime (handler ?e))"
  have k: "regs (c m) r = regs ?e r" if "r \<in> {RSP, RBX, R12, R13, R14, R15}" for r
    using that assms unfolding call_ok_def c_def by (metis)
  have "qmem (c m) a = qmem ?e a" if "a \<in> set (above (regs ?e RSP))" for a
    using that assms unfolding call_ok_def c_def by (metis insertI1)
  then have "map (\<lambda>a. qmem (c m) a) (above (regs (c m) RSP)) = map (\<lambda>a. qmem ?e a) (above (regs ?e RSP))"
    using k[of RSP] by simp
  note f = isr_exit_frame[of c m, unfolded this handler_entry_mem]
  have x: "isr_with check_runtime v handler (cpu_interrupt m) = isr_exit c m"
    by (simp add: isr_with_def isr_exit_def c_def handler_entry_def)
  have "regs (c m) RSP + 40 = (regs m RSP AND NOT 0xf) - 96" using k[of RSP] by (simp add: handler_entry_regs)
  note f = f[unfolded this, OF refl]
  show "rflags (isr_with check_runtime v handler (cpu_interrupt m)) = rflags m" by (simp add: x f)
  show "\<forall>r. r \<notin> {CR2, CR3} \<longrightarrow> regs (isr_with check_runtime v handler (cpu_interrupt m)) r = regs m r"
  proof (intro allI impI)
    fix r assume "r \<notin> {CR2, CR3}"
    then show "regs (isr_with check_runtime v handler (cpu_interrupt m)) r = regs m r"
      using k[of r] by (cases r) (simp_all add: x f(1) handler_entry_regs)
  qed
qed

lemma call_ok_args:
  assumes "call_ok h" and "\<And>m. qmem (f m) = qmem m"
    and "\<And>m r. r \<in> {RSP, RBX, R12, R13, R14, R15} \<Longrightarrow> regs (f m) r = regs m r"
  shows "call_ok (\<lambda>m. h (f m))"
  using assms unfolding call_ok_def by (metis insertI1)

lemma page_fault_isr_eq:
  "page_fault_isr c h (push err m) =
     isr_with c err (\<lambda>m. h (let m1 = load_stack 88 RDI m in set_reg RSI (regs m1 CR2) m1)) m"
  by (simp add: page_fault_isr_def isr_with_def Let_def)

text \<open>
  C24: interrupts are transparent: if the Rust functions called keep the calling convention, every
  interrupt, system call and page fault returns to where it came from with every general register,
  the flags and the stack pointer as they were, whatever alignment the stack had.
\<close>

theorem interrupt_restores:
  assumes "call_ok check_runtime" and "call_ok handler"
    and "isr \<in> {ps2_keyboard_isr check_runtime handler, pit_isr check_runtime handler, com0_isr check_runtime handler,
      hpet_isr check_runtime handler, syscall_isr check_runtime handler, device_isr check_runtime handler n,
      (\<lambda>m. page_fault_isr check_runtime handler (push error_code m))}"
  shows "rflags (isr (cpu_interrupt m)) = rflags m \<and>
    (\<forall>r. r \<notin> {CR2, CR3} \<longrightarrow> regs (isr (cpu_interrupt m)) r = regs m r)"
proof -
  have a: "call_ok (\<lambda>m. handler (syscall_args m))" "call_ok (\<lambda>m. handler (load_stack 88 RDI m))"
    "call_ok (\<lambda>m. handler (let m1 = load_stack 88 RDI m in set_reg RSI (regs m1 CR2) m1))"
    by (rule call_ok_args[OF assms(2)]; auto simp: syscall_args_def machine_simps)+
  have "\<exists>v h. call_ok h \<and> isr = isr_with check_runtime v h"
    using assms(2,3) a unfolding ps2_keyboard_isr_def pit_isr_def com0_isr_def hpet_isr_def syscall_isr_def
      device_isr_def page_fault_isr_eq by blast
  then show ?thesis using isr_with_restores[OF assms(1)] by blast
qed

theorem interrupt_restores_witness:
  "regs (hpet_isr (\<lambda>m. m) (set_reg RAX 5) (cpu_interrupt sample_machine)) RAX = 0 \<and>
   regs (hpet_isr (\<lambda>m. m) (set_reg RAX 5) (cpu_interrupt sample_machine)) RIP = 0x1234"
proof -
  have c: "call_ok (\<lambda>m. m)" "call_ok (set_reg RAX 5)" by (simp_all add: call_ok_def set_reg_def)
  have "rflags (hpet_isr (\<lambda>m. m) (set_reg RAX 5) (cpu_interrupt sample_machine)) = rflags sample_machine \<and>
    (\<forall>r. r \<notin> {CR2, CR3} \<longrightarrow> regs (hpet_isr (\<lambda>m. m) (set_reg RAX 5) (cpu_interrupt sample_machine)) r = regs sample_machine r)"
    by (rule interrupt_restores[OF c]) simp
  then show ?thesis by (simp add: sample_machine_def)
qed

text \<open>
  Property: a system call passes its number in \<open>rax\<close> and its arguments in \<open>rdi\<close>, \<open>rsi\<close>, \<open>rdx\<close>, \<open>r10\<close>, \<open>r8\<close>: the
  entry code finds each in the saved registers and hands them over in the order of the parameters of
  \<open>syscall_handler\<close>.
\<close>

theorem syscall_arguments:
  "map (regs (syscall_args (handler_entry 0x80 m))) [RDI, RSI, RDX, RCX, R8, R9] =
   map (regs m) [RAX, RDI, RSI, RDX, R10, R8]"
  using handler_entry_mem[of "0x80" m, unfolded above_unfold]
  by (simp add: syscall_args_def load_stack_def set_reg_def)

end
