(* ===== verification/Rust_Collections.thy ===== *)
theory Rust_Collections
  imports Prelude
begin

text \<open>
  The ordered collections of Rust's \<open>alloc\<close> crate the kernel uses. A \<open>BTreeSet\<close> is the
  list of its elements and a \<open>BTreeMap\<close> the list of its entries, both in the order their
  iterators yield them. The two interfaces the clients rely on are the locales
  \<open>ordered_set\<close> and \<open>ordered_map\<close>, interpreted at the end of each section.
\<close>

section \<open>BTreeSet\<close>

type_synonym 'a btree_set = "'a list"

fun bts_insert :: "'a::linorder \<Rightarrow> 'a btree_set \<Rightarrow> 'a btree_set" where
  "bts_insert x [] = [x]"
| "bts_insert x (y # ys) =
     (if x < y then x # y # ys else if x = y then y # ys else y # bts_insert x ys)"

definition bts_remove :: "'a \<Rightarrow> 'a btree_set \<Rightarrow> 'a btree_set" where
  "bts_remove x s = filter (\<lambda>y. y \<noteq> x) s"

fun bts_first :: "'a btree_set \<Rightarrow> 'a option" where
  "bts_first [] = None"
| "bts_first (x # _) = Some x"

definition bts_ok :: "'a::linorder btree_set \<Rightarrow> bool" where
  "bts_ok s \<longleftrightarrow> sorted_wrt (<) s"

locale ordered_set =
  fixes ins :: "'a::linorder \<Rightarrow> 's \<Rightarrow> 's"
    and rem :: "'a \<Rightarrow> 's \<Rightarrow> 's"
    and first :: "'s \<Rightarrow> 'a option"
    and elems :: "'s \<Rightarrow> 'a set"
    and ok :: "'s \<Rightarrow> bool"
  assumes elems_ins: "elems (ins x s) = insert x (elems s)"
    and elems_rem: "elems (rem x s) = elems s - {x}"
    and ok_ins: "ok s \<Longrightarrow> ok (ins x s)"
    and ok_rem: "ok s \<Longrightarrow> ok (rem x s)"
    and first_None: "first s = None \<longleftrightarrow> elems s = {}"
    and first_Some: "ok s \<Longrightarrow> first s = Some x \<Longrightarrow> x \<in> elems s \<and> (\<forall>y\<in>elems s. x \<le> y)"
begin

lemmas specs = elems_ins elems_rem ok_ins ok_rem

text \<open>Taking the first element out leaves only larger ones.\<close>

lemma first_rem:
  assumes "ok s" and "first s = Some x"
  shows "\<forall>y\<in>elems (rem x s). x < y"
  using assms first_Some[of s x] by (auto simp: elems_rem less_le)

lemma ins_rem: "elems (ins x (rem x s)) = insert x (elems s)"
  by (auto simp: elems_ins elems_rem)

lemma rem_ins: "x \<notin> elems s \<Longrightarrow> elems (rem x (ins x s)) = elems s"
  by (auto simp: elems_ins elems_rem)

end

lemma set_bts_insert [simp]: "set (bts_insert x s) = insert x (set s)"
  by (induction s) auto

lemma set_bts_remove [simp]: "set (bts_remove x s) = set s - {x}"
  by (auto simp: bts_remove_def)

lemma bts_ok_Nil [simp]: "bts_ok []"
  by (simp add: bts_ok_def)

lemma bts_ok_insert: "bts_ok s \<Longrightarrow> bts_ok (bts_insert x s)"
  unfolding bts_ok_def by (induction s) (auto simp: not_less_iff_gr_or_eq)

lemma bts_ok_remove: "bts_ok s \<Longrightarrow> bts_ok (bts_remove x s)"
  unfolding bts_ok_def bts_remove_def by (simp add: sorted_wrt_filter)

lemma length_bts_insert:
  "bts_ok s \<Longrightarrow> length (bts_insert x s) = (if x \<in> set s then length s else Suc (length s))"
  unfolding bts_ok_def by (induction s) auto

lemma length_bts_remove:
  "bts_ok s \<Longrightarrow> length (bts_remove x s) = (if x \<in> set s then length s - 1 else length s)"
proof -
  assume "bts_ok s"
  then have "distinct s" by (simp add: bts_ok_def strict_sorted_iff)
  then have "length (bts_remove x s) = card (set s - {x})"
    by (simp add: bts_remove_def flip: distinct_card set_bts_remove[unfolded bts_remove_def])
  then show ?thesis using \<open>distinct s\<close> by (simp add: distinct_card)
qed

interpretation bts: ordered_set bts_insert bts_remove bts_first set bts_ok
proof unfold_locales
  fix s :: "'a list" and x
  show "(bts_first s = None) = (set s = {})" by (cases s) auto
  assume "bts_ok s" and "bts_first s = Some x"
  then show "x \<in> set s \<and> (\<forall>y\<in>set s. x \<le> y)"
    by (cases s) (auto simp: bts_ok_def)
qed (simp_all add: bts_ok_insert bts_ok_remove)

section \<open>BTreeMap\<close>

type_synonym ('k, 'v) btree_map = "('k \<times> 'v) list"

fun btm_insert :: "'k::linorder \<Rightarrow> 'v \<Rightarrow> ('k, 'v) btree_map \<Rightarrow> ('k, 'v) btree_map" where
  "btm_insert k v [] = [(k, v)]"
| "btm_insert k v ((k', v') # m) =
     (if k < k' then (k, v) # (k', v') # m
      else if k = k' then (k, v) # m
      else (k', v') # btm_insert k v m)"

definition btm_remove :: "'k \<Rightarrow> ('k, 'v) btree_map \<Rightarrow> ('k, 'v) btree_map" where
  "btm_remove k m = filter (\<lambda>(k', _). k' \<noteq> k) m"

definition btm_ok :: "('k::linorder, 'v) btree_map \<Rightarrow> bool" where
  "btm_ok m \<longleftrightarrow> sorted_wrt (<) (map fst m)"

locale ordered_map =
  fixes get :: "'m \<Rightarrow> 'k::linorder \<Rightarrow> 'v option"
    and put :: "'k \<Rightarrow> 'v \<Rightarrow> 'm \<Rightarrow> 'm"
    and del :: "'k \<Rightarrow> 'm \<Rightarrow> 'm"
    and keys :: "'m \<Rightarrow> 'k list"
    and ok :: "'m \<Rightarrow> bool"
  assumes get_put: "get (put k v m) k' = (if k' = k then Some v else get m k')"
    and get_del: "get (del k m) k' = (if k' = k then None else get m k')"
    and ok_put: "ok m \<Longrightarrow> ok (put k v m)"
    and ok_del: "ok m \<Longrightarrow> ok (del k m)"
    and set_keys: "set (keys m) = {k. get m k \<noteq> None}"
    and keys_sorted: "ok m \<Longrightarrow> sorted_wrt (<) (keys m)"
begin

lemmas map_specs = get_put get_del ok_put ok_del

lemma put_put_other:
  "k \<noteq> k' \<Longrightarrow> get (put k v (put k' v' m)) = get (put k' v' (put k v m))"
  by (auto simp: get_put fun_eq_iff)

lemma del_put: "get m k = None \<Longrightarrow> get (del k (put k v m)) = get m"
  by (auto simp: get_put get_del fun_eq_iff)

lemma keys_distinct: "ok m \<Longrightarrow> distinct (keys m)"
  using keys_sorted strict_sorted_iff by blast

text \<open>Inserting a fresh key adds one entry, replacing a key adds none.\<close>

lemma length_keys:
  assumes "ok m"
  shows "length (keys (put k v m)) = (if get m k = None then Suc (length (keys m)) else length (keys m))"
proof -
  have "set (keys (put k v m)) = insert k (set (keys m))"
    by (auto simp: set_keys get_put)
  then have "card (set (keys (put k v m))) = card (insert k (set (keys m)))" by simp
  then have "length (keys (put k v m)) = card (insert k (set (keys m)))"
    using assms by (simp add: distinct_card keys_distinct ok_put)
  also have "\<dots> = (if k \<in> set (keys m) then card (set (keys m)) else Suc (card (set (keys m))))"
    by (simp add: insert_absorb)
  also have "card (set (keys m)) = length (keys m)"
    using assms by (simp add: distinct_card keys_distinct)
  finally show ?thesis by (simp add: set_keys)
qed

end

lemma map_of_btm_insert [simp]: "map_of (btm_insert k v m) = (map_of m)(k \<mapsto> v)"
  by (induction m) (auto simp: fun_eq_iff)

lemma map_of_btm_remove [simp]: "map_of (btm_remove k m) = (map_of m)(k := None)"
  unfolding btm_remove_def by (induction m) (auto simp: fun_eq_iff)

lemma keys_btm_insert: "fst ` set (btm_insert k v m) = insert k (fst ` set m)"
  by (induction k v m rule: btm_insert.induct) auto

lemma btm_ok_insert: "btm_ok m \<Longrightarrow> btm_ok (btm_insert k v m)"
  unfolding btm_ok_def
proof (induction m)
  case (Cons a m)
  then show ?case
    using keys_btm_insert[of k v m] by (cases a) (auto simp: not_less_iff_gr_or_eq)
qed simp

lemma btm_ok_remove: "btm_ok m \<Longrightarrow> btm_ok (btm_remove k m)"
  unfolding btm_ok_def btm_remove_def by (induction m) auto

interpretation btm: ordered_map map_of btm_insert btm_remove "map fst" btm_ok
proof unfold_locales
  fix m :: "('a \<times> 'b) list"
  show "set (map fst m) = {k. map_of m k \<noteq> None}"
    by (simp add: map_of_eq_None_iff)
  show "btm_ok m \<Longrightarrow> sorted_wrt (<) (map fst m)" by (simp add: btm_ok_def)
qed (simp_all add: btm_ok_insert btm_ok_remove)

end
