(* ===== verification/Clock.thy ===== *)
theory Clock
  imports Rust_Collections
begin

text \<open>
  The system clock (\<open>src/kernel/clock.rs\<close>): the time in nanoseconds and the callbacks to run at a
  given time. A callback is a boxed closure; the type of closures and what calling one does to the
  rest of the kernel (\<open>run\<close>) are arguments. The clock source is the value its \<open>get_tick\<close> returns. The
  ticks are an atomic, whose addition wraps around.
\<close>

section \<open>Model\<close>

record 'f clock =
  ticks :: u64
  callbacks :: "(u64, 'f) btree_map"

definition clock_new :: "'f clock" where
  "clock_new = \<lparr>ticks = 0, callbacks = []\<rparr>"

text \<open>\<open>init\<close> replaces what the static held.\<close>

definition clock_init :: "'f clock option \<Rightarrow> 'f clock option" where
  "clock_init CLOCK = Some clock_new"

text \<open>The loop of \<open>tick\<close> over the keys collected before it.\<close>

fun run_callbacks :: "('f \<Rightarrow> u64 \<Rightarrow> 's \<Rightarrow> 's res) \<Rightarrow> u64 \<Rightarrow> u64 list \<Rightarrow> 'f clock \<Rightarrow> 's \<Rightarrow> ('f clock \<times> 's) res" where
  "run_callbacks run now [] c s = Inr (c, s)"
| "run_callbacks run now (k # ks) c s =
     (case map_of (callbacks c) k of
        None \<Rightarrow> run_callbacks run now ks c s
      | Some f \<Rightarrow>
          rbind (run f now s) (\<lambda>s'. run_callbacks run now ks (c\<lparr>callbacks := btm_remove k (callbacks c)\<rparr>) s'))"

definition tick :: "('f \<Rightarrow> u64 \<Rightarrow> 's \<Rightarrow> 's res) \<Rightarrow> u64 \<Rightarrow> 'f clock \<Rightarrow> 's \<Rightarrow> ('f clock \<times> 's) res" where
  "tick run increment c s =
     (let c1 = c\<lparr>ticks := ticks c + increment\<rparr>;
          now = ticks c1;
          to_run = filter (\<lambda>k. k \<le> now) (map fst (callbacks c1))
      in run_callbacks run now to_run c1 s)"

definition get_tick :: "u64 \<Rightarrow> 'f clock \<Rightarrow> u64 \<times> 'f clock" where
  "get_tick clocksource_tick c = (clocksource_tick, c\<lparr>ticks := clocksource_tick\<rparr>)"

definition callback_at :: "u64 \<Rightarrow> 'f \<Rightarrow> 'f clock \<Rightarrow> 'f clock" where
  "callback_at ns f c = c\<lparr>callbacks := btm_insert ns f (callbacks c)\<rparr>"

text \<open>\<open>tick_fn\<close> on the static clock: nothing happens before \<open>init\<close>.\<close>

definition tick_fn :: "('f \<Rightarrow> u64 \<Rightarrow> 's \<Rightarrow> 's res) \<Rightarrow> u64 \<Rightarrow> 'f clock option \<Rightarrow> 's \<Rightarrow> ('f clock option \<times> 's) res" where
  "tick_fn run x CLOCK s =
     (case CLOCK of
        None \<Rightarrow> Inr (None, s)
      | Some c \<Rightarrow> rbind (tick run x c s) (\<lambda>(c', s'). Inr (Some c', s')))"

text \<open>
  The busy loop of \<open>sleep\<close>: \<open>hlt\<close> waits for the next interrupt. The list holds what the following
  interrupts add to the clock; if it ends before the time is reached the loop is still waiting.
\<close>

fun sleep_loop :: "u64 \<Rightarrow> u64 list \<Rightarrow> u64 \<Rightarrow> u64 option" where
  "sleep_loop until [] now = (if now < until then None else Some now)"
| "sleep_loop until (i # is') now = (if now < until then sleep_loop until is' (now + i) else Some now)"

definition busy_sleep :: "u64 \<Rightarrow> u64 list \<Rightarrow> 'f clock option \<Rightarrow> u64 option res" where
  "busy_sleep ms interrupts CLOCK =
     (case CLOCK of
        None \<Rightarrow> Inl ExplicitPanic
      | Some c \<Rightarrow>
          rbind (checked_mul ms 1000000) (\<lambda>d.
          rbind (checked_add (ticks c) d) (\<lambda>until. Inr (sleep_loop until interrupts (ticks c)))))"

section \<open>Lemmas\<close>

definition clock_ok :: "'f clock \<Rightarrow> bool" where
  "clock_ok c \<longleftrightarrow> btm_ok (callbacks c)"

lemma clock_ok_ops: "clock_ok clock_new" "clock_ok c \<Longrightarrow> clock_ok (callback_at t f c)"
  by (simp_all add: clock_ok_def clock_new_def callback_at_def btm_ok_def[of "[]"] btm.ok_put)

text \<open>The callbacks that are due, in the order of their times.\<close>

definition due :: "u64 \<Rightarrow> 'f clock \<Rightarrow> (u64 \<times> 'f) list" where
  "due now c = filter (\<lambda>p. fst p \<le> now) (callbacks c)"

lemma btm_remove_hd: "btm_ok ((k, v) # m) \<Longrightarrow> btm_remove k ((k, v) # m) = m"
  by (auto simp: btm_ok_def btm_remove_def filter_id_conv)

lemma run_callbacks_prefix:
  "btm_ok (ds @ rest) \<Longrightarrow>
   run_callbacks run now (map fst ds) (c\<lparr>callbacks := ds @ rest\<rparr>) s =
   rbind (rfold (\<lambda>f. run f now) (map snd ds) s) (\<lambda>s'. Inr (c\<lparr>callbacks := rest\<rparr>, s'))"
proof (induction ds arbitrary: s)
  case (Cons d ds)
  obtain k f where d: "d = (k, f)" by fastforce
  have "btm_remove k ((k, f) # ds @ rest) = ds @ rest" using Cons.prems d by (intro btm_remove_hd) simp
  moreover have "btm_ok (ds @ rest)" using Cons.prems by (simp add: btm_ok_def)
  ultimately show ?case using Cons.IH by (simp add: d rbind_assoc cong: rbind_cong)
qed simp

lemma btm_ok_split:
  assumes "btm_ok m"
  shows "m = filter (\<lambda>p. fst p \<le> now) m @ filter (\<lambda>p. \<not> fst p \<le> now) m"
  using assms
proof (induction m)
  case (Cons p m)
  then show ?case
  proof (cases "fst p \<le> now")
    case False
    then have "filter (\<lambda>p. fst p \<le> now) m = []" "filter (\<lambda>p. \<not> fst p \<le> now) m = m"
      using Cons.prems by (auto simp: btm_ok_def filter_empty_conv filter_id_conv)
    then show ?thesis using False by (simp add: case_prod_beta)
  qed (simp add: btm_ok_def case_prod_beta)
qed simp

lemma tick_runs_due_lemma:
  fixes c :: "'f clock" and increment :: u64
  assumes "clock_ok c"
  defines "now \<equiv> ticks c + increment"
  shows "tick run increment c s =
    rbind (rfold (\<lambda>f. run f now) (map snd (due now c)) s)
      (\<lambda>s'. Inr (c\<lparr>ticks := now, callbacks := filter (\<lambda>p. \<not> fst p \<le> now) (callbacks c)\<rparr>, s'))"
proof -
  let ?rest = "filter (\<lambda>p. \<not> fst p \<le> now) (callbacks c)"
  have split: "callbacks c = due now c @ ?rest"
    using btm_ok_split assms(1) unfolding clock_ok_def due_def by blast
  have "filter (\<lambda>k. k \<le> now) (map fst (callbacks c)) = map fst (due now c)"
    by (simp add: due_def filter_map comp_def case_prod_beta)
  then have "tick run increment c s = run_callbacks run now (map fst (due now c)) (c\<lparr>ticks := now, callbacks := due now c @ ?rest\<rparr>) s"
    unfolding tick_def Let_def now_def[symmetric] by (simp flip: split)
  also have "\<dots> = rbind (rfold (\<lambda>f. run f now) (map snd (due now c)) s) (\<lambda>s'. Inr (c\<lparr>ticks := now, callbacks := ?rest\<rparr>, s'))"
    using run_callbacks_prefix[of "due now c" ?rest run now "c\<lparr>ticks := now\<rparr>" s] assms(1)
    by (simp add: clock_ok_def flip: split)
  finally show ?thesis .
qed

text \<open>A callback replaces one asked for at the same time.\<close>

lemma callback_at_same_time:
  "callback_at t g (callback_at t f c) = callback_at t g c"
proof -
  have "btm_insert t g (btm_insert t f m) = btm_insert t g m" for m :: "(u64, 'a) btree_map"
    by (induction m) (auto simp: case_prod_beta)
  then show ?thesis by (simp add: callback_at_def)
qed

lemma sleep_loop_ends:
  "unat now + sum_list (map unat is') < 2 ^ 64 \<Longrightarrow> unat until \<le> unat now + sum_list (map unat is') \<Longrightarrow>
   \<exists>t. sleep_loop until is' now = Some t \<and> until \<le> t"
proof (induction until is' now rule: sleep_loop.induct)
  case (2 until i is' now)
  have "unat (now + i) = unat now + unat i" using "2.prems"(1) by (intro unat_add_usize) simp
  then show ?case using "2.IH" "2.prems" by (auto simp: word_le_nat_alt word_less_nat_alt)
qed (simp add: word_le_nat_alt word_less_nat_alt)

section \<open>Properties\<close>

text \<open>
  Property: a tick runs exactly the callbacks whose time has come, each once, in the order of their times
  and with the new time, and keeps exactly the others.
\<close>

theorem tick_runs_due:
  assumes "clock_ok c"
  shows "tick run increment c s =
    rbind (rfold (\<lambda>f. run f (ticks c + increment)) (map snd (due (ticks c + increment) c)) s)
      (\<lambda>s'. Inr (c\<lparr>ticks := ticks c + increment, callbacks := filter (\<lambda>p. \<not> fst p \<le> ticks c + increment) (callbacks c)\<rparr>, s'))"
  by (rule tick_runs_due_lemma[OF assms])

theorem tick_runs_due_witness:
  "tick (\<lambda>f now s. Inr (s @ [(f, now)])) 10 (callback_at 7 ''b'' (callback_at 5 ''a'' (callback_at 20 ''c'' clock_new))) [] =
   Inr (\<lparr>ticks = 10, callbacks = [(20, ''c'')]\<rparr>, [(''a'', 10), (''b'', 10)])"
  by (subst tick_runs_due) (simp_all add: clock_ok_ops, simp add: callback_at_def clock_new_def due_def)

text \<open>
  Property: the busy sleep ends: if the interrupts together bring the clock to the time asked for without
  wrapping around, the loop returns, and not before that time.
\<close>

theorem busy_sleep_ends:
  assumes "unat (ticks c) + unat ms * 1000000 < 2 ^ 64"
    and "unat (ticks c) + sum_list (map unat interrupts) < 2 ^ 64"
    and "unat ms * 1000000 \<le> sum_list (map unat interrupts)"
  shows "\<exists>t. busy_sleep ms interrupts (Some c) = Inr (Some t) \<and> unat (ticks c) + unat ms * 1000000 \<le> unat t"
proof -
  have fit: "unat ms * unat (1000000 :: u64) < 2 ^ 64" using assms(1) by simp
  then have mul: "checked_mul ms 1000000 = Inr (ms * 1000000)" "unat (ms * 1000000) = unat ms * 1000000"
    by (simp_all add: checked_mul_eq_Inr unat_word_ariths)
  have add: "checked_add (ticks c) (ms * 1000000) = Inr (ticks c + ms * 1000000)"
    "unat (ticks c + ms * 1000000) = unat (ticks c) + unat ms * 1000000"
    using assms(1) mul(2) by (simp_all add: unat_add_usize)
  show ?thesis
    using sleep_loop_ends[OF assms(2), of "ticks c + ms * 1000000"] assms(3) mul add
    by (auto simp: busy_sleep_def word_le_nat_alt)
qed

theorem busy_sleep_ends_witness:
  "\<exists>t. busy_sleep 2 [900000, 900000, 900000] (Some (clock_new :: nat clock)) = Inr (Some t) \<and> 2000000 \<le> unat t"
  using busy_sleep_ends[of "clock_new :: nat clock" 2 "[900000, 900000, 900000]"] by (simp add: clock_new_def)

text \<open>
  Property: two callbacks asked for at the same time: the first one is dropped without being run, so that
  nothing runs it at any later time.
\<close>

theorem callback_at_same_time_lost:
  assumes "f \<noteq> g" and "f \<notin> snd ` set (callbacks c)"
  shows "f \<notin> snd ` set (callbacks (callback_at t g (callback_at t f c)))"
proof -
  have "set (btm_insert t g m) \<subseteq> insert (t, g) (set m)" for m :: "(u64, 'a) btree_map"
    by (induction m) (auto split: if_splits)
  then have "snd ` set (btm_insert t g m) \<subseteq> insert g (snd ` set m)" for m :: "(u64, 'a) btree_map" by fastforce
  then show ?thesis using assms unfolding callback_at_same_time by (auto simp: callback_at_def)
qed

theorem callback_at_same_time_lost_witness:
  "''task 1'' \<notin> snd ` set (callbacks (callback_at 500 ''task 2'' (callback_at 500 ''task 1'' clock_new)))"
  by (rule callback_at_same_time_lost) (simp_all add: clock_new_def)

end
