(* ===== verification/Physical.thy ===== *)
theory Physical
  imports Rust_Collections
begin

text \<open>
  The physical page allocator (\<open>paging/src/physical.rs\<close>): a buddy allocator over the
  free lists of the block orders 12 (4 KiB) to 19 (512 KiB). The model follows the
  source operation by operation; the specification is the set \<open>covered\<close> of the
  addresses that lie in some free block.
\<close>

section \<open>Model\<close>

definition PAGE_SIZE_ORDER :: nat where
  "PAGE_SIZE_ORDER = 12"

definition PAGE_SIZE :: usize where
  "PAGE_SIZE = push_bit PAGE_SIZE_ORDER 1"

definition BLOCK_ORDER_COUNT :: nat where
  "BLOCK_ORDER_COUNT = 7"

record block =
  block_addr :: usize
  block_order :: nat

record page_allocator =
  free_lists :: "usize btree_set list"

definition pa_new :: page_allocator where
  "pa_new = \<lparr>free_lists = []\<rparr>"

definition get_addr :: "block \<Rightarrow> usize" where
  "get_addr b = block_addr b"

definition set_list :: "page_allocator \<Rightarrow> nat \<Rightarrow> usize btree_set \<Rightarrow> page_allocator" where
  "set_list pa i l = pa\<lparr>free_lists := (free_lists pa)[i := l]\<rparr>"

lemma length_set_list [simp]: "length (free_lists (set_list pa i l)) = length (free_lists pa)"
  by (simp add: set_list_def)

text \<open>
  The recursion of \<open>is_buddy_in_range\<close> stops at \<open>PAGE_SIZE\<close>. From a block size that is not
  \<open>PAGE_SIZE\<close> times a power of two it would run into block size 0 and recurse for ever.
\<close>

function is_buddy_in_range :: "usize \<Rightarrow> usize \<Rightarrow> usize \<Rightarrow> usize \<Rightarrow> bool res" where
  "is_buddy_in_range addr block_size start size' =
     (let buddy = addr XOR block_size in
      rbind (checked_add start size') (\<lambda>end'.
        if block_size = PAGE_SIZE then Inr (start \<le> buddy \<and> buddy < end')
        else if start \<le> buddy \<and> buddy < end'
        then (if block_size = 0 then Inl Diverges
              else is_buddy_in_range buddy (drop_bit 1 block_size) start size')
        else Inr False))"
  by pat_completeness auto
termination
  by (relation "measure (\<lambda>(_, b, _, _). unat b)") (auto intro: unat_shr1_less)

declare is_buddy_in_range.simps [simp del]

text \<open>
  \<open>free\<close>: \<open>remove(&buddy)\<close> runs before the check that there is a larger order, as in the
  source.
\<close>

function free :: "page_allocator \<Rightarrow> block \<Rightarrow> page_allocator res" where
  "free pa b =
     rbind (nat_sub (block_order b) PAGE_SIZE_ORDER) (\<lambda>list_idx.
     rbind (checked_shl 1 (block_order b)) (\<lambda>block_size.
     let buddy = block_addr b XOR block_size in
     rbind (index (free_lists pa) list_idx) (\<lambda>l.
     let removed = buddy \<in> set l;
         pa' = set_list pa list_idx (bts_remove buddy l) in
     if removed \<and> list_idx + 1 < length (free_lists pa')
     then free pa' \<lparr>block_addr = block_addr b AND NOT block_size, block_order = block_order b + 1\<rparr>
     else Inr (set_list pa' list_idx (bts_insert (block_addr b) (bts_remove buddy l))))))"
  by pat_completeness auto
termination
  by (relation "measure (\<lambda>(pa, b). length (free_lists pa) + PAGE_SIZE_ORDER - block_order b)")
     (auto simp: res_simps)

declare free.simps [simp del]

text \<open>
  \<open>allocate\<close>: the recursive call passes \<open>list_idx + 1\<close>, as the source does. The
  result pairs the returned \<open>Option<Block>\<close> with the new allocator.
\<close>

function allocate :: "page_allocator \<Rightarrow> nat \<Rightarrow> (block option \<times> page_allocator) res" where
  "allocate pa order' =
     rbind (nat_sub order' PAGE_SIZE_ORDER) (\<lambda>list_idx.
     if list_idx \<ge> length (free_lists pa) then Inr (None, pa)
     else case bts_first (free_lists pa ! list_idx) of
       Some addr \<Rightarrow>
         Inr (Some \<lparr>block_addr = addr, block_order = order'\<rparr>,
              set_list pa list_idx (bts_remove addr (free_lists pa ! list_idx)))
     | None \<Rightarrow>
         rbind (allocate pa (list_idx + 1)) (\<lambda>(large_block, pa').
         case large_block of
           None \<Rightarrow> Inr (None, pa')
         | Some large_block \<Rightarrow>
             rbind (checked_shl 1 order') (\<lambda>block_size.
             let buddy = block_addr large_block XOR block_size in
             rbind (index (free_lists pa') list_idx) (\<lambda>l.
             Inr (Some \<lparr>block_addr = block_addr large_block, block_order = order'\<rparr>,
                  set_list pa' list_idx (bts_insert buddy l))))))"
  by pat_completeness auto
termination
  by (relation "measure (\<lambda>(_, order'). order')") (auto simp: res_simps PAGE_SIZE_ORDER_def)

declare allocate.simps [simp del]

text \<open>The inner loop of \<open>init\<close> over the block orders: it ends at the first order whose buddy is
  not in the range. It returns the last value of \<open>shift\<close>.\<close>

fun init_scan :: "page_allocator \<Rightarrow> usize \<Rightarrow> usize \<Rightarrow> usize \<Rightarrow> nat list \<Rightarrow> (usize \<times> page_allocator) res" where
  "init_scan pa start size' shift [] = Inr (shift, pa)"
| "init_scan pa start size' shift (sz # szs) =
     rbind (checked_shl 1 sz) (\<lambda>block_size.
     rbind (is_buddy_in_range start block_size start size') (\<lambda>in_range.
     if \<not> in_range
     then rbind (free pa \<lparr>block_addr = start, block_order = sz\<rparr>) (\<lambda>pa'. Inr (shift, pa'))
     else init_scan pa start size' (push_bit 1 block_size) szs))"

definition block_orders :: "nat list" where
  "block_orders = [PAGE_SIZE_ORDER..<PAGE_SIZE_ORDER + BLOCK_ORDER_COUNT + 1]"

lemma init_scan_shift:
  "init_scan pa start size' shift szs = Inr (shift', pa') \<Longrightarrow> shift \<noteq> 0 \<Longrightarrow>
   \<forall>sz\<in>set szs. sz < 63 \<Longrightarrow> shift' \<noteq> 0"
proof (induction pa start size' shift szs rule: init_scan.induct)
  case (2 pa start size' shift sz szs)
  have nz: "2 ^ sz * 2 \<noteq> (0 :: usize)"
    using "2.prems"(3) exp_nonzero_word[of "Suc sz", where 'a = 64] by (simp add: mult.commute)
  show ?case
    using "2.prems" "2.IH" nz by (auto simp: res_simps split: if_splits)
qed simp

function init_loop :: "page_allocator \<Rightarrow> usize \<Rightarrow> usize \<Rightarrow> page_allocator res" where
  "init_loop pa start size' =
     rbind (init_scan pa start size' PAGE_SIZE block_orders) (\<lambda>(shift, pa').
     rbind (checked_add start shift) (\<lambda>start'.
     rbind (checked_sub size' shift) (\<lambda>size''.
     if size'' = 0 then Inr pa' else init_loop pa' start' size'')))"
  by pat_completeness auto
termination
proof (relation "measure (\<lambda>(_, _, s). unat s)")
  fix pa start size' x shift pa' start' size''
  assume "init_scan pa start size' PAGE_SIZE block_orders = Inr x" and "(shift, pa') = x"
    and sub: "checked_sub size' shift = Inr size''" and nz: "size'' \<noteq> 0"
  then have "shift \<noteq> 0"
    using init_scan_shift[of pa start size' PAGE_SIZE block_orders shift pa']
    by (auto simp: PAGE_SIZE_def PAGE_SIZE_ORDER_def block_orders_def BLOCK_ORDER_COUNT_def)
  moreover have "shift \<le> size'" and "size'' = size' - shift" using sub by (auto simp: res_simps)
  ultimately have "unat size'' < unat size'" by (simp add: unat_diff_less)
  then show "((pa', start', size''), pa, start, size') \<in> measure (\<lambda>(_, _, s). unat s)"
    by simp
qed auto

declare init_loop.simps [simp del]

definition init :: "page_allocator \<Rightarrow> (usize \<times> usize) list \<Rightarrow> page_allocator res" where
  "init pa init_free =
     rfold (\<lambda>(start, size') pa. init_loop pa start size') init_free
       (pa\<lparr>free_lists := free_lists pa @ replicate (BLOCK_ORDER_COUNT + 1) []\<rparr>)"

section \<open>Specification\<close>

text \<open>
  A block of order \<open>n\<close> at \<open>a\<close> is the set of the addresses that agree with \<open>a\<close> above bit
  \<open>n\<close>. The invariant: the lists are sorted sets, every listed block is aligned to its size, and the
  listed blocks are pairwise disjoint.
\<close>

definition aligned :: "usize \<Rightarrow> nat \<Rightarrow> bool" where
  "aligned a n \<longleftrightarrow> take_bit n a = 0"

definition block_span :: "usize \<Rightarrow> nat \<Rightarrow> usize set" where
  "block_span a n = {x. drop_bit n x = drop_bit n a}"

definition blocks :: "page_allocator \<Rightarrow> (nat \<times> usize) set" where
  "blocks pa = {(i, a). i < length (free_lists pa) \<and> a \<in> set (free_lists pa ! i)}"

fun listed_span :: "nat \<times> usize \<Rightarrow> usize set" where
  "listed_span (i, a) = block_span a (PAGE_SIZE_ORDER + i)"

definition covered :: "page_allocator \<Rightarrow> usize set" where
  "covered pa = (\<Union>p\<in>blocks pa. listed_span p)"

definition pa_wf :: "page_allocator \<Rightarrow> bool" where
  "pa_wf pa \<longleftrightarrow>
     length (free_lists pa) + PAGE_SIZE_ORDER \<le> 64 \<and>
     (\<forall>l\<in>set (free_lists pa). bts_ok l) \<and>
     (\<forall>(i, a)\<in>blocks pa. aligned a (PAGE_SIZE_ORDER + i)) \<and>
     pairwise (\<lambda>p q. disjnt (listed_span p) (listed_span q)) (blocks pa)"

section \<open>Blocks and buddies\<close>

lemma aligned_bits: "aligned a n \<longleftrightarrow> (\<forall>i<n. \<not> bit a i)"
  by (simp add: aligned_def take_bit_eq_0_iff_bits)

lemma block_span_bits: "x \<in> block_span a n \<longleftrightarrow> (\<forall>i\<ge>n. bit x i = bit a i)"
  by (simp add: block_span_def drop_bit_eq_iff_bits)

lemma block_span_self [simp]: "a \<in> block_span a n"
  by (simp add: block_span_def)

lemma block_span_eq: "\<forall>i\<ge>n. bit a i = bit b i \<Longrightarrow> block_span a n = block_span b n"
  by (auto simp: block_span_bits)

lemma block_span_mono: "m \<le> n \<Longrightarrow> block_span a m \<subseteq> block_span a n"
  by (auto simp: block_span_bits)

text \<open>Two blocks of the same order are disjoint unless they are the same.\<close>

lemma block_span_disjoint:
  "aligned a n \<Longrightarrow> aligned b n \<Longrightarrow> a \<noteq> b \<Longrightarrow> block_span a n \<inter> block_span b n = {}"
  by (auto simp: block_span_bits aligned_bits bit_eq_iff) (metis not_le)+

text \<open>A block and its buddy make up the block of the next order.\<close>

lemma block_span_buddy:
  assumes "n < 64"
  shows "block_span (a AND NOT (2 ^ n)) (Suc n) = block_span a n \<union> block_span (a XOR 2 ^ n) n"
proof -
  have "bit (a AND NOT (2 ^ n)) i = bit a i" if "n < i" for i
    using that bit_imp_le_length[of a i] by (auto simp: bit_and_iff bit_not_iff)
  then have "x \<in> block_span (a AND NOT (2 ^ n)) (Suc n) \<longleftrightarrow> (\<forall>i>n. bit x i = bit a i)" for x
    by (auto simp: block_span_bits Suc_le_eq)
  moreover have "x \<in> block_span a n \<union> block_span (a XOR 2 ^ n) n \<longleftrightarrow> (\<forall>i>n. bit x i = bit a i)" for x
    using assms by (auto simp: block_span_bits bit_xor_iff le_less)
  ultimately show ?thesis by blast
qed

lemma aligned_buddy:
  "n < 64 \<Longrightarrow> aligned a n \<Longrightarrow> aligned (a XOR 2 ^ n) n"
  "n < 64 \<Longrightarrow> aligned a n \<Longrightarrow> aligned (a AND NOT (2 ^ n)) (Suc n)"
  by (auto simp: aligned_bits bit_xor_iff bit_and_iff bit_not_iff less_Suc_eq)

lemma buddy_neq: "n < 64 \<Longrightarrow> a XOR 2 ^ n \<noteq> (a :: usize)"
proof -
  assume "n < 64"
  then have "bit (a XOR 2 ^ n) n \<noteq> bit a n" by (simp add: bit_xor_iff)
  then show ?thesis by metis
qed

text \<open>What one step on a free list does to the set of blocks.\<close>

lemma blocks_remove:
  "i < length (free_lists pa) \<Longrightarrow>
   blocks (set_list pa i (bts_remove a (free_lists pa ! i))) = blocks pa - {(i, a)}"
  by (auto simp: blocks_def set_list_def nth_list_update split: if_splits)

lemma blocks_insert:
  "i < length (free_lists pa) \<Longrightarrow>
   blocks (set_list pa i (bts_insert a (free_lists pa ! i))) = insert (i, a) (blocks pa)"
  by (auto simp: blocks_def set_list_def nth_list_update split: if_splits)

lemma pa_wf_remove:
  assumes "pa_wf pa" and "i < length (free_lists pa)"
  shows "pa_wf (set_list pa i (bts_remove a (free_lists pa ! i)))"
proof -
  have "bts_ok (free_lists pa ! i)" using assms by (auto simp: pa_wf_def)
  then have "\<forall>l\<in>set ((free_lists pa)[i := bts_remove a (free_lists pa ! i)]). bts_ok l"
    using assms by (auto simp: pa_wf_def bts.ok_rem dest!: set_update_subset_insert[THEN subsetD])
  moreover have "pairwise (\<lambda>p q. disjnt (listed_span p) (listed_span q)) (blocks pa - {(i, a)})"
    using assms(1) by (auto simp: pa_wf_def intro: pairwise_subset)
  ultimately show ?thesis
    using assms by (simp add: pa_wf_def blocks_remove) (simp add: set_list_def)
qed

lemma pa_wf_insert:
  assumes "pa_wf pa" and "i < length (free_lists pa)"
    and "aligned a (PAGE_SIZE_ORDER + i)"
    and "block_span a (PAGE_SIZE_ORDER + i) \<inter> covered pa = {}"
  shows "pa_wf (set_list pa i (bts_insert a (free_lists pa ! i)))"
proof -
  have "bts_ok (free_lists pa ! i)" using assms by (auto simp: pa_wf_def)
  then have "\<forall>l\<in>set ((free_lists pa)[i := bts_insert a (free_lists pa ! i)]). bts_ok l"
    using assms by (auto simp: pa_wf_def bts.ok_ins dest!: set_update_subset_insert[THEN subsetD])
  moreover have "disjnt (listed_span (i, a)) (listed_span p)" if "p \<in> blocks pa" for p
    using assms(4) that by (auto simp: covered_def disjnt_def)
  then have "pairwise (\<lambda>p q. disjnt (listed_span p) (listed_span q)) (insert (i, a) (blocks pa))"
    using assms(1) by (auto simp: pa_wf_def pairwise_insert disjnt_sym)
  ultimately show ?thesis
    using assms(1-3) by (simp add: pa_wf_def blocks_insert) (simp add: set_list_def)
qed

lemma covered_remove:
  assumes "pa_wf pa" and "i < length (free_lists pa)" and "a \<in> set (free_lists pa ! i)"
  shows "covered (set_list pa i (bts_remove a (free_lists pa ! i)))
       = covered pa - block_span a (PAGE_SIZE_ORDER + i)"
proof -
  have "(i, a) \<in> blocks pa" using assms by (simp add: blocks_def)
  moreover have "disjnt (listed_span p) (listed_span (i, a))" if "p \<in> blocks pa - {(i, a)}" for p
    using assms(1) that calculation by (auto simp: pa_wf_def pairwise_def simp del: listed_span.simps)
  ultimately have "(\<Union>p\<in>blocks pa - {(i, a)}. listed_span p)
      = (\<Union>p\<in>blocks pa. listed_span p) - listed_span (i, a)"
    by (fastforce simp: disjnt_iff)
  then show ?thesis using assms(2) by (simp add: covered_def blocks_remove)
qed

lemma covered_insert:
  "i < length (free_lists pa) \<Longrightarrow>
   covered (set_list pa i (bts_insert a (free_lists pa ! i)))
     = covered pa \<union> block_span a (PAGE_SIZE_ORDER + i)"
  by (auto simp: covered_def blocks_insert)

lemma set_list_set_list [simp]: "set_list (set_list pa i l) i l' = set_list pa i l'"
  by (simp add: set_list_def)

lemma nth_set_list [simp]: "i < length (free_lists pa) \<Longrightarrow> free_lists (set_list pa i l) ! i = l"
  by (simp add: set_list_def)

section \<open>free\<close>

lemma free_unfold:
  assumes "PAGE_SIZE_ORDER \<le> n" and "n < PAGE_SIZE_ORDER + length (free_lists pa)" and "n < 64"
  shows "free pa \<lparr>block_addr = a, block_order = n\<rparr> =
    (let i = n - PAGE_SIZE_ORDER; l = free_lists pa ! i; buddy = a XOR 2 ^ n;
         pa' = set_list pa i (bts_remove buddy l) in
     if buddy \<in> set l \<and> i + 1 < length (free_lists pa)
     then free pa' \<lparr>block_addr = a AND NOT (2 ^ n), block_order = n + 1\<rparr>
     else Inr (set_list pa i (bts_insert a (bts_remove buddy l))))"
proof -
  have "n - PAGE_SIZE_ORDER < length (free_lists pa)" using assms by simp
  then show ?thesis
    using assms by (subst free.simps) (simp add: checked_simps index_def Let_def)
qed

text \<open>
  What freeing the block at \<open>a\<close> of order \<open>n\<close> promises: the invariant, no address beyond the
  freed block becomes free, and all of the block becomes free unless the free memory then
  holds a whole block of the order above the largest one. What is lost in that case lies in
  that block.
\<close>

definition free_post :: "page_allocator \<Rightarrow> usize \<Rightarrow> nat \<Rightarrow> page_allocator \<Rightarrow> bool" where
  "free_post pa a n pa' \<longleftrightarrow>
     pa_wf pa' \<and> length (free_lists pa') = length (free_lists pa) \<and>
     covered pa' \<subseteq> covered pa \<union> block_span a n \<and>
     (\<not> block_span a (PAGE_SIZE_ORDER + length (free_lists pa)) \<subseteq> covered pa \<union> block_span a n \<longrightarrow>
      covered pa' = covered pa \<union> block_span a n) \<and>
     (covered pa \<union> block_span a n) - block_span a (PAGE_SIZE_ORDER + length (free_lists pa)) \<subseteq> covered pa'"

definition freeable :: "page_allocator \<Rightarrow> usize \<Rightarrow> nat \<Rightarrow> bool" where
  "freeable pa a n \<longleftrightarrow>
     pa_wf pa \<and> PAGE_SIZE_ORDER \<le> n \<and> n < PAGE_SIZE_ORDER + length (free_lists pa) \<and>
     aligned a n \<and> block_span a n \<inter> covered pa = {}"

lemma freeableD:
  assumes "freeable pa a n"
  shows "n < 64" and "n - PAGE_SIZE_ORDER < length (free_lists pa)"
    and "PAGE_SIZE_ORDER + (n - PAGE_SIZE_ORDER) = n"
  using assms by (auto simp: freeable_def pa_wf_def)

lemma free_no_buddy:
  assumes "freeable pa a n" and "i = n - PAGE_SIZE_ORDER"
  shows "free_post pa a n (set_list pa i (bts_insert a (free_lists pa ! i)))"
  using pa_wf_insert[of pa i a] covered_insert[of i pa a] freeableD[OF assms(1)] assms
  by (simp add: free_post_def freeable_def)

lemma remove_buddy:
  assumes "freeable pa a n" and "i = n - PAGE_SIZE_ORDER" and "a XOR 2 ^ n \<in> set (free_lists pa ! i)"
  shows "pa_wf (set_list pa i (bts_remove (a XOR 2 ^ n) (free_lists pa ! i)))"
    and "covered (set_list pa i (bts_remove (a XOR 2 ^ n) (free_lists pa ! i)))
           = covered pa - block_span (a XOR 2 ^ n) n"
    and "block_span (a XOR 2 ^ n) n \<subseteq> covered pa"
proof -
  note d = freeableD[OF assms(1)]
  show "pa_wf (set_list pa i (bts_remove (a XOR 2 ^ n) (free_lists pa ! i)))"
    using assms d by (simp add: pa_wf_remove freeable_def)
  show "covered (set_list pa i (bts_remove (a XOR 2 ^ n) (free_lists pa ! i)))
           = covered pa - block_span (a XOR 2 ^ n) n"
    using covered_remove[of pa i "a XOR 2 ^ n"] assms d by (simp add: freeable_def)
  have "(i, a XOR 2 ^ n) \<in> blocks pa" using assms d by (simp add: blocks_def)
  then show "block_span (a XOR 2 ^ n) n \<subseteq> covered pa"
    using d(3) assms(2) by (force simp: covered_def)
qed

lemma block_span_clear:
  "n < m \<Longrightarrow> block_span (a AND NOT (2 ^ n)) m = block_span a m"
  using bit_imp_le_length[of a] by (intro block_span_eq) (auto simp: bit_and_iff bit_not_iff)

lemma free_merge:
  assumes "freeable pa a n" and i: "i = n - PAGE_SIZE_ORDER"
    and buddy: "a XOR 2 ^ n \<in> set (free_lists pa ! i)" and "i + 1 < length (free_lists pa)"
  defines "pa1 \<equiv> set_list pa i (bts_remove (a XOR 2 ^ n) (free_lists pa ! i))"
  shows "freeable pa1 (a AND NOT (2 ^ n)) (Suc n)"
    and "free_post pa1 (a AND NOT (2 ^ n)) (Suc n) pa' \<Longrightarrow> free_post pa a n pa'"
proof -
  note rb = remove_buddy[OF assms(1) i buddy, folded pa1_def]
  have span: "block_span (a AND NOT (2 ^ n)) (Suc n) = block_span a n \<union> block_span (a XOR 2 ^ n) n"
    using block_span_buddy freeableD(1)[OF assms(1)] by blast
  then have un: "covered pa1 \<union> block_span (a AND NOT (2 ^ n)) (Suc n) = covered pa \<union> block_span a n"
    using rb by blast
  have len: "length (free_lists pa1) = length (free_lists pa)" by (simp add: pa1_def)
  show "freeable pa1 (a AND NOT (2 ^ n)) (Suc n)"
    using assms(1,4) rb(1,2) span len i aligned_buddy(2) freeableD(1)[OF assms(1)]
    unfolding freeable_def by auto
  have "n < PAGE_SIZE_ORDER + length (free_lists pa)" using assms(1) by (simp add: freeable_def)
  then show "free_post pa1 (a AND NOT (2 ^ n)) (Suc n) pa' \<Longrightarrow> free_post pa a n pa'"
    using un by (simp add: free_post_def len block_span_clear)
qed

lemma free_top:
  assumes "freeable pa a n" and i: "i = n - PAGE_SIZE_ORDER"
    and buddy: "a XOR 2 ^ n \<in> set (free_lists pa ! i)" and "\<not> i + 1 < length (free_lists pa)"
  shows "free_post pa a n (set_list pa i (bts_insert a (bts_remove (a XOR 2 ^ n) (free_lists pa ! i))))"
proof -
  let ?pa1 = "set_list pa i (bts_remove (a XOR 2 ^ n) (free_lists pa ! i))"
  note rb = remove_buddy[OF assms(1) i buddy] and d = freeableD[OF assms(1)]
  have i1: "i < length (free_lists ?pa1)" and l1: "free_lists ?pa1 ! i = bts_remove (a XOR 2 ^ n) (free_lists pa ! i)"
    using d i by simp_all
  have top: "PAGE_SIZE_ORDER + length (free_lists pa) = Suc n" using assms(4) d i by simp
  have span: "block_span a (Suc n) = block_span a n \<union> block_span (a XOR 2 ^ n) n"
    using block_span_buddy[OF d(1), of a] block_span_clear[of n "Suc n" a] by simp
  have disj: "block_span a n \<inter> covered ?pa1 = {}" using assms(1) rb(2) by (auto simp: freeable_def)
  show ?thesis
    using pa_wf_insert[OF rb(1) i1, of a] covered_insert[OF i1, of a] disj rb(2,3) d(3) i assms(1) top span
    unfolding free_post_def freeable_def l1 by auto
qed

lemma free_correct:
  "freeable pa a n \<Longrightarrow> \<exists>pa'. free pa \<lparr>block_addr = a, block_order = n\<rparr> = Inr pa' \<and> free_post pa a n pa'"
proof (induction "length (free_lists pa) + PAGE_SIZE_ORDER - n" arbitrary: pa a n rule: less_induct)
  case less
  let ?i = "n - PAGE_SIZE_ORDER" and ?buddy = "a XOR 2 ^ n"
  let ?l = "free_lists pa ! ?i"
  have unf: "free pa \<lparr>block_addr = a, block_order = n\<rparr> =
     (if ?buddy \<in> set ?l \<and> ?i + 1 < length (free_lists pa)
      then free (set_list pa ?i (bts_remove ?buddy ?l)) \<lparr>block_addr = a AND NOT (2 ^ n), block_order = Suc n\<rparr>
      else Inr (set_list pa ?i (bts_insert a (bts_remove ?buddy ?l))))"
    using free_unfold[of n pa a] less.prems freeableD[OF less.prems] by (simp add: freeable_def Let_def)
  consider "?buddy \<notin> set ?l" | "?buddy \<in> set ?l" "?i + 1 < length (free_lists pa)"
    | "?buddy \<in> set ?l" "\<not> ?i + 1 < length (free_lists pa)" by blast
  then show ?case
  proof cases
    case 1
    then have "bts_remove ?buddy ?l = ?l" by (auto simp: bts_remove_def filter_id_conv)
    then show ?thesis using unf 1 free_no_buddy[OF less.prems refl] by simp
  next
    case 2
    note m = free_merge[OF less.prems refl 2]
    have "length (free_lists pa) + PAGE_SIZE_ORDER - Suc n < length (free_lists pa) + PAGE_SIZE_ORDER - n"
      using less.prems by (auto simp: freeable_def)
    then show ?thesis using less.hyps[OF _ m(1)] m(2) unf 2 by auto
  next
    case 3
    then show ?thesis using unf free_top[OF less.prems refl 3] by auto
  qed
qed

lemma block_span_interval:
  assumes "aligned a n" and "n < 64"
  shows "x \<in> block_span a n \<longleftrightarrow> unat a \<le> unat x \<and> unat x < unat a + 2 ^ n"
proof -
  have "unat a mod 2 ^ n = 0"
    using assms by (metis aligned_def take_bit_eq_mod unat_0 unsigned_take_bit_eq)
  then obtain k where k: "unat a = 2 ^ n * k" by auto
  have "x \<in> block_span a n \<longleftrightarrow> unat x div 2 ^ n = unat a div 2 ^ n"
    by (simp add: block_span_def word_unat_eq_iff unat_drop_bit_eq) (simp add: drop_bit_eq_div)
  also have "\<dots> \<longleftrightarrow> unat x div 2 ^ n = k" by (simp add: k)
  also have "\<dots> \<longleftrightarrow> 2 ^ n * k \<le> unat x \<and> unat x < 2 ^ n * k + 2 ^ n"
    by (rule div_eq_iff_interval) simp
  finally show ?thesis by (simp add: k)
qed

lemma aligned_unat: "aligned a n \<longleftrightarrow> 2 ^ n dvd unat a"
  by (metis aligned_def dvd_eq_mod_eq_0 take_bit_eq_mod unat_eq_zero unsigned_take_bit_eq)

text \<open>The buddy of a block that is the lower one of its pair.\<close>

lemma unat_upper_buddy:
  assumes "aligned a (Suc k)" and "k < 64"
  shows "unat (a XOR 2 ^ k) = unat a + 2 ^ k"
proof -
  have "a AND 2 ^ k = 0" using assms by (intro bit_eqI) (auto simp: bit_and_iff aligned_bits)
  then have eq: "a XOR 2 ^ k = a + 2 ^ k" by (simp add: disjunctive_add_eq_xor)
  obtain m where m: "unat a = 2 ^ Suc k * m" using assms(1) by (auto simp: aligned_unat)
  have "2 ^ Suc k * m < 2 ^ Suc k * 2 ^ (63 - k)"
    using m unat_less_exp[of a] assms(2) by (simp flip: power_add power_Suc)
  then have "m < 2 ^ (63 - k)" using nat_mult_less_cancel1[of "2 ^ Suc k" m "2 ^ (63 - k)"] by simp
  then have "Suc m \<le> 2 ^ (63 - k)" by simp
  then have "2 ^ Suc k * Suc m \<le> 2 ^ Suc k * (2 :: nat) ^ (63 - k)" by (rule mult_le_mono2)
  then have le: "unat a + 2 * 2 ^ k \<le> 2 ^ 64" using m assms(2) by (simp flip: power_add power_Suc)
  have u: "unat (2 ^ k :: usize) = 2 ^ k" using assms(2) by (simp add: unat_exp_word)
  have "unat a + unat (2 ^ k :: usize) < 2 ^ 64" unfolding u using le zero_less_power[of "2::nat" k] by linarith
  then show ?thesis using eq u by (simp add: unat_add_usize)
qed

lemma aligned_imp_aligned: "aligned a n \<Longrightarrow> m \<le> n \<Longrightarrow> aligned a m"
  by (auto simp: aligned_bits)

lemma aligned_Suc: "aligned a (Suc k) \<longleftrightarrow> aligned a k \<and> \<not> bit a k"
  by (auto simp: aligned_bits less_Suc_eq)

lemma unat_lower_buddy:
  assumes "aligned a k" and "bit a k" and "k < 64"
  shows "unat a = unat (a XOR 2 ^ k) + 2 ^ k"
proof -
  have "aligned (a XOR 2 ^ k) (Suc k)"
    using assms by (auto simp: aligned_bits bit_xor_iff less_Suc_eq)
  then show ?thesis using unat_upper_buddy[of "a XOR 2 ^ k" k] assms(3) by (simp add: xor.assoc)
qed

lemma PAGE_SIZE_exp: "PAGE_SIZE = 2 ^ 12"
  by (simp add: PAGE_SIZE_def PAGE_SIZE_ORDER_def)

text \<open>
  \<open>is_buddy_in_range\<close> decides whether the whole buddy block lies in the range. It never
  diverges on the block sizes the allocator passes.
\<close>

lemma is_buddy_in_range_correct:
  assumes "aligned start 12" and "aligned size' 12" and "unat start + unat size' < 2 ^ 64"
    and "12 \<le> k" and "k < 64" and "aligned addr k"
  shows "is_buddy_in_range addr (2 ^ k) start size' =
    Inr (start \<le> addr XOR 2 ^ k \<and> unat (addr XOR 2 ^ k) + 2 ^ k \<le> unat start + unat size')"
  using assms(4,5,6)
proof (induction k arbitrary: addr rule: dec_induct)
  case base
  have e: "unat (start + size') = unat start + unat size'" using assms(3) by (simp add: unat_word_ariths)
  have "2 ^ 12 dvd unat (addr XOR 2 ^ 12)"
    using aligned_buddy(1)[of 12 addr] base by (simp only: aligned_unat)
  moreover have "2 ^ 12 dvd unat start + unat size'" using assms(1,2) by (simp add: aligned_unat)
  ultimately have "unat (addr XOR 2 ^ 12) < unat start + unat size' \<longleftrightarrow>
      unat (addr XOR 2 ^ 12) + 2 ^ 12 \<le> unat start + unat size'"
    by (rule dvd_less_iff_add_le) simp
  then show ?case
    using assms(3) e by (subst is_buddy_in_range.simps)
      (simp add: Let_def PAGE_SIZE_def PAGE_SIZE_ORDER_def word_less_nat_alt)
next
  case (step k)
  let ?b = "addr XOR 2 ^ Suc k"
  have al: "aligned ?b (Suc k)" using aligned_buddy(1)[of "Suc k" addr] step.prems by simp
  have up: "unat (?b XOR 2 ^ k) = unat ?b + 2 ^ k" using unat_upper_buddy[OF al] step.prems by simp
  have e: "unat (start + size') = unat start + unat size'" using assms(3) by (simp add: unat_word_ariths)
  have "bit ((2 :: usize) ^ Suc k) (Suc k)" and "\<not> bit PAGE_SIZE (Suc k)"
    using step.hyps step.prems unfolding PAGE_SIZE_exp bit_exp_word by auto
  then have ne: "(2 :: usize) ^ Suc k \<noteq> PAGE_SIZE" by metis
  have half: "drop_bit 1 ((2 :: usize) ^ Suc k) = 2 ^ k"
    using step.prems by (intro bit_eqI) (auto simp: bit_drop_bit_eq simp del: power_Suc)
  have IH: "is_buddy_in_range ?b (2 ^ k) start size' =
    Inr (start \<le> ?b XOR 2 ^ k \<and> unat (?b XOR 2 ^ k) + 2 ^ k \<le> unat start + unat size')"
    using step.prems al by (intro step.IH) (auto intro: aligned_imp_aligned)
  have rec: "is_buddy_in_range addr (2 ^ Suc k) start size' =
    (if start \<le> ?b \<and> ?b < start + size' then is_buddy_in_range ?b (2 ^ k) start size' else Inr False)"
    using assms(3) ne half exp_nonzero_word[of "Suc k", where 'a = 64] step.prems
    by (subst is_buddy_in_range.simps) (simp add: Let_def del: power_Suc One_nat_def)
  have arith: "(if s \<le> b \<and> b < n then Inr (s \<le> b + p \<and> b + p + p \<le> n) else Inr False)
      = (Inr (s \<le> b \<and> b + 2 * p \<le> n) :: bool res)" if "0 < p" for p s b n :: nat
    using that by auto
  show ?case
    unfolding rec IH word_less_nat_alt word_le_nat_alt e up power_Suc[of "2 :: nat"]
    by (rule arith) simp
qed

section \<open>init\<close>

text \<open>
  The inner loop of \<open>init\<close> at \<open>start\<close> with \<open>size'\<close> bytes left: it stops at the largest \<open>k\<close> such
  that \<open>start\<close> is aligned to \<open>k\<close> and a block of order \<open>k\<close> fits, or at 20 when a block of
  order 20 would fit, in which case nothing is freed.
\<close>

definition scan_fits :: "usize \<Rightarrow> usize \<Rightarrow> nat \<Rightarrow> bool" where
  "scan_fits start size' k \<longleftrightarrow> aligned start k \<and> 2 ^ k \<le> unat size'"

lemma scan_step:
  assumes "aligned start 12" and "aligned size' 12" and "unat start + unat size' < 2 ^ 64"
    and "12 \<le> k" and "k < 63" and "scan_fits start size' k"
  shows "is_buddy_in_range start (2 ^ k) start size' = Inr (scan_fits start size' (Suc k))"
proof -
  have al: "aligned start k" using assms(6) by (simp add: scan_fits_def)
  have "(start \<le> start XOR 2 ^ k \<and> unat (start XOR 2 ^ k) + 2 ^ k \<le> unat start + unat size')
      = scan_fits start size' (Suc k)"
  proof (cases "bit start k")
    case True
    then have "unat (start XOR 2 ^ k) < unat start"
      using unat_lower_buddy[OF al True] assms(5) by simp
    then show ?thesis using True by (simp add: word_le_nat_alt scan_fits_def aligned_Suc)
  next
    case False
    then have up: "aligned start (Suc k)" using al by (simp add: aligned_Suc)
    then show ?thesis
      using unat_upper_buddy[OF up] assms(5) by (simp add: word_le_nat_alt scan_fits_def mult_2)
  qed
  then show ?thesis using is_buddy_in_range_correct[OF assms(1-4) _ al] assms(5) by simp
qed

lemma init_scan_correct:
  assumes "aligned start 12" and "aligned size' 12" and "unat start + unat size' < 2 ^ 64"
    and "12 \<le> k" and "k \<le> m" and "m < 64" and "scan_fits start size' k"
  shows "\<exists>j. k \<le> j \<and> j \<le> m \<and> scan_fits start size' j \<and> (j < m \<longrightarrow> \<not> scan_fits start size' (Suc j)) \<and>
     init_scan pa start size' (2 ^ k) [k..<m] =
       (if j < m then rbind (free pa \<lparr>block_addr = start, block_order = j\<rparr>) (\<lambda>pa'. Inr (2 ^ j, pa'))
        else Inr (2 ^ j, pa))"
  using assms(5,4,7)
proof (induction k rule: inc_induct)
  case base
  then show ?case by auto
next
  case (step k)
  have upt: "[k..<m] = k # [Suc k..<m]" using step.hyps by (simp add: upt_rec)
  have s: "is_buddy_in_range start (2 ^ k) start size' = Inr (scan_fits start size' (Suc k))"
    using scan_step[OF assms(1-3)] step.hyps step.prems assms(6) by simp
  show ?case
  proof (cases "scan_fits start size' (Suc k)")
    case True
    then have "init_scan pa start size' (2 ^ k) [k..<m] = init_scan pa start size' (2 ^ Suc k) [Suc k..<m]"
      using s step.hyps assms(6) by (simp add: upt checked_simps mult.commute)
    moreover obtain j where "Suc k \<le> j \<and> j \<le> m \<and> scan_fits start size' j \<and> (j < m \<longrightarrow> \<not> scan_fits start size' (Suc j)) \<and>
     init_scan pa start size' (2 ^ Suc k) [Suc k..<m] =
       (if j < m then rbind (free pa \<lparr>block_addr = start, block_order = j\<rparr>) (\<lambda>pa'. Inr (2 ^ j, pa'))
        else Inr (2 ^ j, pa))"
      using step.IH[OF _ True] step.prems(1) by (meson le_SucI)
    ultimately show ?thesis by (intro exI[of _ j]) (simp del: power_Suc add: Suc_le_eq less_imp_le)
  next
    case False
    then show ?thesis
      using s step.hyps step.prems assms(6) by (intro exI[of _ k]) (simp add: upt checked_simps)
  qed
qed

definition addr_range :: "usize \<Rightarrow> usize \<Rightarrow> usize set" where
  "addr_range start size' = {x. unat start \<le> unat x \<and> unat x < unat start + unat size'}"

definition page_range :: "usize \<Rightarrow> usize \<Rightarrow> bool" where
  "page_range start size' \<longleftrightarrow>
     aligned start 12 \<and> aligned size' 12 \<and> size' \<noteq> 0 \<and> unat start + unat size' < 2 ^ 64"

lemma block_span_range:
  "aligned a n \<Longrightarrow> n < 64 \<Longrightarrow> block_span a n = addr_range a (2 ^ n)"
  by (auto simp: block_span_interval addr_range_def unat_exp_word)

text \<open>One turn of the outer loop: a block of order \<open>j\<close> is split off the front of the range.\<close>

definition scan_stop :: "usize \<Rightarrow> usize \<Rightarrow> nat \<Rightarrow> bool" where
  "scan_stop start size' j \<longleftrightarrow>
     12 \<le> j \<and> j \<le> 20 \<and> scan_fits start size' j \<and> (j < 20 \<longrightarrow> \<not> scan_fits start size' (Suc j))"

lemma scan_fits_page: "page_range start size' \<Longrightarrow> scan_fits start size' 12"
  using dvd_imp_le[of "2 ^ 12" "unat size'"] unfolding page_range_def scan_fits_def aligned_unat
  by (metis gr0I unat_eq_zero)

lemma init_loop_step:
  assumes "page_range start size'"
  obtains j where "scan_stop start size' j"
    and "init_loop pa start size' =
      rbind (if j < 20 then free pa \<lparr>block_addr = start, block_order = j\<rparr> else Inr pa)
       (\<lambda>pa'. if size' = 2 ^ j then Inr pa' else init_loop pa' (start + 2 ^ j) (size' - 2 ^ j))"
proof -
  have pr: "aligned start 12" "aligned size' 12" "unat start + unat size' < 2 ^ 64"
    using assms by (simp_all add: page_range_def)
  obtain j where j: "12 \<le> j" "j \<le> 20" "scan_fits start size' j" "j < 20 \<longrightarrow> \<not> scan_fits start size' (Suc j)"
    and scan: "init_scan pa start size' (2 ^ 12) [12..<20] =
       (if j < 20 then rbind (free pa \<lparr>block_addr = start, block_order = j\<rparr>) (\<lambda>pa'. Inr (2 ^ j, pa'))
        else Inr (2 ^ j, pa))"
    using init_scan_correct[OF pr, of 12 20 pa] scan_fits_page[OF assms] by auto
  have u: "unat (2 ^ j :: usize) = 2 ^ j" using j(2) by (simp add: unat_exp_word)
  have fit: "2 ^ j \<le> unat size'" using j(3) by (simp add: scan_fits_def)
  have add: "checked_add start (2 ^ j) = Inr (start + 2 ^ j)" using fit u pr(3) by simp
  have sub: "checked_sub size' (2 ^ j) = Inr (size' - 2 ^ j)"
    using fit u by (simp add: checked_simps word_le_nat_alt)
  have orders: "block_orders = [12..<20]" by (simp add: block_orders_def PAGE_SIZE_ORDER_def BLOCK_ORDER_COUNT_def)
  have "init_loop pa start size' =
      rbind (if j < 20 then free pa \<lparr>block_addr = start, block_order = j\<rparr> else Inr pa)
       (\<lambda>pa'. if size' = 2 ^ j then Inr pa' else init_loop pa' (start + 2 ^ j) (size' - 2 ^ j))"
    unfolding init_loop.simps[of pa start size'] orders PAGE_SIZE_exp scan
    using add sub by (simp add: rbind_assoc)
  moreover have "scan_stop start size' j" using j by (simp add: scan_stop_def)
  ultimately show ?thesis using that by blast
qed

lemma page_range_rest:
  assumes "page_range start size'" and "scan_stop start size' j" and "size' \<noteq> 2 ^ j"
  shows "page_range (start + 2 ^ j) (size' - 2 ^ j)"
    and "unat (start + 2 ^ j) = unat start + 2 ^ j" and "unat (size' - 2 ^ j) = unat size' - 2 ^ j"
    and "2 ^ j < unat size'"
proof -
  have u: "unat (2 ^ j :: usize) = 2 ^ j" using assms(2) by (simp add: unat_exp_word scan_stop_def)
  have fit: "2 ^ j \<le> unat size'" using assms(2) by (simp add: scan_fits_def scan_stop_def)
  then show lt: "2 ^ j < unat size'" using assms(3) u by (metis le_neq_implies_less word_unat_eq_iff)
  show s: "unat (start + 2 ^ j) = unat start + 2 ^ j"
    using fit u assms(1) by (simp add: unat_add_usize page_range_def)
  show z: "unat (size' - 2 ^ j) = unat size' - 2 ^ j"
    using fit u by (simp add: unat_sub word_le_nat_alt)
  have dvd: "2 ^ 12 dvd (2 :: nat) ^ j" using assms(2) unfolding scan_stop_def by (blast intro: le_imp_power_dvd)
  show "page_range (start + 2 ^ j) (size' - 2 ^ j)"
    using assms lt dvd s z unfolding page_range_def aligned_unat
    by (auto intro: dvd_add dvd_diff_nat)
qed

text \<open>
  The part of \<open>F\<close> that lies in no 1 MiB block contained in \<open>F\<close>: the memory that handing
  \<open>F\<close> to \<open>init\<close> is certain to make free.
\<close>

definition outside_1MiB :: "usize set \<Rightarrow> usize set" where
  "outside_1MiB F = {x \<in> F. \<not> block_span x 20 \<subseteq> F}"

lemma outside_1MiB_Un:
  "outside_1MiB (C \<union> B) \<subseteq> C1 \<Longrightarrow> C1 \<subseteq> C \<union> B \<Longrightarrow> outside_1MiB (C \<union> B \<union> R) \<subseteq> outside_1MiB (C1 \<union> R)"
  unfolding outside_1MiB_def by blast

lemma block_span_sym: "x \<in> block_span a n \<Longrightarrow> block_span x n = block_span a n"
  by (auto simp: block_span_def)

definition init_post :: "page_allocator \<Rightarrow> usize set \<Rightarrow> page_allocator \<Rightarrow> bool" where
  "init_post pa R pa' \<longleftrightarrow>
     pa_wf pa' \<and> length (free_lists pa') = 8 \<and> covered pa' \<subseteq> covered pa \<union> R \<and>
     outside_1MiB (covered pa \<union> R) \<subseteq> covered pa'"

lemma init_post_trans:
  "init_post pa B pa1 \<Longrightarrow> init_post pa1 R pa' \<Longrightarrow> init_post pa (B \<union> R) pa'"
  using outside_1MiB_Un[of "covered pa" B "covered pa1" R] unfolding init_post_def
  by (simp add: Un_assoc) blast

lemma free_post_init_post:
  assumes "free_post pa a n pa'" and "length (free_lists pa) = 8"
  shows "init_post pa (block_span a n) pa'"
proof -
  have top: "PAGE_SIZE_ORDER + length (free_lists pa) = 20" using assms(2) by (simp add: PAGE_SIZE_ORDER_def)
  let ?F = "covered pa \<union> block_span a n"
  have "outside_1MiB ?F \<subseteq> covered pa'"
  proof (cases "block_span a 20 \<subseteq> ?F")
    case True
    then have "outside_1MiB ?F \<subseteq> ?F - block_span a 20"
      using block_span_sym[of _ a 20] unfolding outside_1MiB_def by blast
    then show ?thesis using assms(1) unfolding free_post_def top by blast
  next
    case False
    then show ?thesis using assms(1) unfolding free_post_def top outside_1MiB_def by auto
  qed
  then show ?thesis using assms unfolding free_post_def init_post_def by auto
qed

lemma init_turn:
  assumes "pa_wf pa" and "length (free_lists pa) = 8" and "scan_stop start size' j"
    and "covered pa \<inter> addr_range start (2 ^ j) = {}"
  obtains pa1 where "(if j < 20 then free pa \<lparr>block_addr = start, block_order = j\<rparr> else Inr pa) = Inr pa1"
    and "init_post pa (addr_range start (2 ^ j)) pa1"
    and "j < 20 \<Longrightarrow> free_post pa start j pa1" and "\<not> j < 20 \<Longrightarrow> pa1 = pa"
proof (cases "j < 20")
  case True
  have span: "block_span start j = addr_range start (2 ^ j)"
    using assms(3) by (simp add: block_span_range scan_stop_def scan_fits_def)
  have "freeable pa start j"
    using assms True span by (auto simp: freeable_def scan_stop_def scan_fits_def PAGE_SIZE_ORDER_def)
  then obtain pa1 where pa1: "free pa \<lparr>block_addr = start, block_order = j\<rparr> = Inr pa1" "free_post pa start j pa1"
    using free_correct by blast
  moreover have "init_post pa (addr_range start (2 ^ j)) pa1"
    using free_post_init_post[OF pa1(2) assms(2)] span by simp
  ultimately show ?thesis using that True by simp
next
  case False
  then have "j = 20" using assms(3) by (simp add: scan_stop_def)
  then have "block_span x 20 = addr_range start (2 ^ j)" if "x \<in> addr_range start (2 ^ j)" for x
    using that assms(3) block_span_sym[of x start 20] block_span_range[of start 20]
    unfolding scan_stop_def scan_fits_def by simp
  then have "init_post pa (addr_range start (2 ^ j)) pa"
    using assms(1,2) unfolding init_post_def outside_1MiB_def by blast
  then show ?thesis using that False by simp
qed

lemma addr_range_split:
  assumes "page_range start size'" and "scan_stop start size' j" and "size' \<noteq> 2 ^ j"
  shows "addr_range start size' = addr_range start (2 ^ j) \<union> addr_range (start + 2 ^ j) (size' - 2 ^ j)"
    and "addr_range start (2 ^ j) \<inter> addr_range (start + 2 ^ j) (size' - 2 ^ j) = {}"
proof -
  note r = page_range_rest[OF assms]
  have u: "unat (2 ^ j :: usize) = 2 ^ j" using assms(2) by (simp add: unat_exp_word scan_stop_def)
  show "addr_range start size' = addr_range start (2 ^ j) \<union> addr_range (start + 2 ^ j) (size' - 2 ^ j)"
    unfolding addr_range_def r(2,3) u using r(4) by auto
  show "addr_range start (2 ^ j) \<inter> addr_range (start + 2 ^ j) (size' - 2 ^ j) = {}"
    unfolding addr_range_def r(2,3) u by auto
qed

lemma init_loop_correct:
  "page_range start size' \<Longrightarrow> pa_wf pa \<Longrightarrow> length (free_lists pa) = 8 \<Longrightarrow>
   covered pa \<inter> addr_range start size' = {} \<Longrightarrow>
   \<exists>pa'. init_loop pa start size' = Inr pa' \<and> init_post pa (addr_range start size') pa'"
proof (induction "unat size'" arbitrary: pa start size' rule: less_induct)
  case less
  obtain j where j: "scan_stop start size' j" and unf: "init_loop pa start size' =
      rbind (if j < 20 then free pa \<lparr>block_addr = start, block_order = j\<rparr> else Inr pa)
       (\<lambda>pa'. if size' = 2 ^ j then Inr pa' else init_loop pa' (start + 2 ^ j) (size' - 2 ^ j))"
    using init_loop_step[OF less.prems(1)] by blast
  have sub: "addr_range start (2 ^ j) \<subseteq> addr_range start size'"
    using addr_range_split(1)[OF less.prems(1) j] by blast
  obtain pa1 where pa1: "(if j < 20 then free pa \<lparr>block_addr = start, block_order = j\<rparr> else Inr pa) = Inr pa1"
    "init_post pa (addr_range start (2 ^ j)) pa1"
    using init_turn[OF less.prems(2,3) j] sub less.prems(4) by blast
  show ?case
  proof (cases "size' = 2 ^ j")
    case True
    then show ?thesis using pa1 unf by simp
  next
    case False
    note r = page_range_rest[OF less.prems(1) j False] and s = addr_range_split[OF less.prems(1) j False]
    have "unat (size' - 2 ^ j) < unat size'" using r(3,4) by simp
    moreover have "covered pa1 \<inter> addr_range (start + 2 ^ j) (size' - 2 ^ j) = {}"
      using pa1(2) s less.prems(4) unfolding init_post_def by blast
    ultimately obtain pa' where "init_loop pa1 (start + 2 ^ j) (size' - 2 ^ j) = Inr pa'"
      "init_post pa1 (addr_range (start + 2 ^ j) (size' - 2 ^ j)) pa'"
      using less.hyps[OF _ r(1), of pa1] pa1(2) unfolding init_post_def by blast
    then show ?thesis using unf pa1 False init_post_trans s(1) by auto
  qed
qed

text \<open>
  The state of the outer loop at \<open>start\<close> within the range \<open>R\<close>, from an allocator without free
  memory: the addresses below \<open>start\<close> are free except for those of the 1 MiB blocks inside \<open>R\<close>.
\<close>

definition init_seen :: "usize set \<Rightarrow> nat \<Rightarrow> usize set" where
  "init_seen R p = {x \<in> outside_1MiB R. unat x < p}"

definition no_1MiB_before :: "usize set \<Rightarrow> usize \<Rightarrow> bool" where
  "no_1MiB_before R start \<longleftrightarrow> (block_span start 20 \<subseteq> R \<longrightarrow> aligned start 20)"

lemma scan_fits_antimono: "scan_fits start size' k \<Longrightarrow> m \<le> k \<Longrightarrow> scan_fits start size' m"
  unfolding scan_fits_def
  by (metis aligned_imp_aligned one_le_numeral order_trans power_increasing)

lemma scan_stop_no_1MiB:
  assumes "scan_stop start size' j" and "j < 20" and "no_1MiB_before R start"
    and "R \<subseteq> {x. unat x < unat start + unat size'}" and "unat start + unat size' < 2 ^ 64"
  shows "\<not> block_span start 20 \<subseteq> R"
proof
  assume R: "block_span start 20 \<subseteq> R"
  then have al: "aligned start 20" using assms(3) by (simp add: no_1MiB_before_def)
  have "unat (start + (2 ^ 20 - 1)) = unat start + (2 ^ 20 - 1)"
  proof -
    obtain q where q: "unat start = 2 ^ 20 * q" using al by (auto simp: aligned_unat)
    then have "2 ^ 20 * q < 2 ^ 20 * 2 ^ 44" using unat_less_exp[of start] by simp
    then have "q + 1 \<le> 2 ^ 44" by simp
    then show ?thesis using q by (subst unat_add_usize) (simp_all add: unat_add_usize)
  qed
  then have "start + (2 ^ 20 - 1) \<in> block_span start 20"
    using block_span_interval[OF al] by simp
  then have "2 ^ 20 \<le> unat size'"
    using R assms(4) \<open>unat (start + (2 ^ 20 - 1)) = _\<close> by auto
  then have "scan_fits start size' 20" using al by (simp add: scan_fits_def)
  then have "scan_fits start size' (Suc j)" using scan_fits_antimono assms(2) by simp
  then show False using assms(1,2) by (simp add: scan_stop_def)
qed

lemma no_1MiB_before_next:
  assumes "scan_stop start size' j" and "unat (start + 2 ^ j) = unat start + 2 ^ j"
    and "j < 20 \<Longrightarrow> \<not> block_span start 20 \<subseteq> R"
  shows "no_1MiB_before R (start + 2 ^ j)"
proof (cases "j < 20")
  case True
  show ?thesis unfolding no_1MiB_before_def
  proof (rule impI, rule ccontr)
    assume R: "block_span (start + 2 ^ j) 20 \<subseteq> R" and na: "\<not> aligned (start + 2 ^ j) 20"
    obtain m where m: "unat start = 2 ^ j * m"
      using assms(1) by (auto simp: scan_stop_def scan_fits_def aligned_unat)
    have p: "(2 :: nat) ^ 20 = 2 ^ j * 2 ^ (20 - j)" using True by (simp flip: power_add)
    have "Suc m mod 2 ^ (20 - j) \<noteq> 0"
      using na mult_dvd_mono[of "2 ^ j" "2 ^ j" "2 ^ (20 - j)" "Suc m"] unfolding aligned_unat assms(2) m p
      by (simp only: dvd_eq_mod_eq_0[symmetric] mult_Suc_right add.commute dvd_refl) blast
    then have "unat (start + 2 ^ j) div 2 ^ 20 = unat start div 2 ^ 20"
      unfolding assms(2) m p using div_Suc[of m "2 ^ (20 - j)"] div_mult_mult1[of "2 ^ j" "Suc m" "2 ^ (20 - j)"]
      by (simp add: add.commute)
    then have "start + 2 ^ j \<in> block_span start 20"
      by (simp add: block_span_def word_unat_eq_iff unat_drop_bit_eq) (simp add: drop_bit_eq_div)
    then show False using block_span_sym R assms(3) True by blast
  qed
next
  case False
  then have "j = 20" "aligned start 20" using assms(1) by (auto simp: scan_stop_def scan_fits_def)
  then show ?thesis using assms(2) unfolding no_1MiB_before_def aligned_unat by simp
qed

lemma init_turn_exact:
  assumes "free_post pa start j pa1 \<and> j < 20 \<or> pa1 = pa \<and> j = 20" and "length (free_lists pa) = 8"
    and "aligned start j" and "addr_range start (2 ^ j) \<subseteq> R" and "covered pa = init_seen R (unat start)"
    and "j < 20 \<Longrightarrow> \<not> block_span start 20 \<subseteq> R"
  shows "covered pa1 = init_seen R (unat start + 2 ^ j)"
proof -
  have j: "j \<le> 20" using assms(1) by auto
  have span: "block_span start j = {x. unat start \<le> unat x \<and> unat x < unat start + 2 ^ j}"
    using block_span_interval[OF assms(3)] j by auto
  have sub: "block_span start j \<subseteq> R" using assms(3,4) j by (simp add: block_span_range)
  have same: "block_span x 20 = block_span start 20" if "x \<in> block_span start j" for x
    using block_span_sym[of x start 20] block_span_mono[OF j, of start] that by blast
  have seen: "init_seen R (unat start + 2 ^ j) = init_seen R (unat start) \<union> (outside_1MiB R \<inter> block_span start j)"
    unfolding init_seen_def span by auto
  show ?thesis
  proof (cases "j < 20")
    case True
    have "outside_1MiB R \<inter> block_span start j = block_span start j"
      using sub same assms(6)[OF True] unfolding outside_1MiB_def by blast
    moreover have "covered pa \<union> block_span start j \<subseteq> R"
      using sub assms(5) unfolding init_seen_def outside_1MiB_def by blast
    then have "covered pa1 = covered pa \<union> block_span start j"
      using assms(1,2) assms(6)[OF True] True unfolding free_post_def PAGE_SIZE_ORDER_def by auto
    ultimately show ?thesis using seen assms(5) by simp
  next
    case False
    then have "j = 20" using j by simp
    then have "outside_1MiB R \<inter> block_span start j = {}"
      using sub same unfolding outside_1MiB_def by blast
    then show ?thesis using seen assms(1,5) False by auto
  qed
qed

lemma init_loop_exact:
  "page_range start size' \<Longrightarrow> pa_wf pa \<Longrightarrow> length (free_lists pa) = 8 \<Longrightarrow>
   covered pa = init_seen R (unat start) \<Longrightarrow> no_1MiB_before R start \<Longrightarrow>
   R \<subseteq> {x. unat x < unat start + unat size'} \<Longrightarrow> addr_range start size' \<subseteq> R \<Longrightarrow>
   \<exists>pa'. init_loop pa start size' = Inr pa' \<and> covered pa' = outside_1MiB R"
proof (induction "unat size'" arbitrary: pa start size' rule: less_induct)
  case less
  obtain j where j: "scan_stop start size' j" and unf: "init_loop pa start size' =
      rbind (if j < 20 then free pa \<lparr>block_addr = start, block_order = j\<rparr> else Inr pa)
       (\<lambda>pa'. if size' = 2 ^ j then Inr pa' else init_loop pa' (start + 2 ^ j) (size' - 2 ^ j))"
    using init_loop_step[OF less.prems(1)] by blast
  have sub: "addr_range start (2 ^ j) \<subseteq> R"
    using addr_range_split(1)[OF less.prems(1) j] less.prems(7) by (cases "size' = 2 ^ j") auto
  have "covered pa \<inter> addr_range start (2 ^ j) = {}"
    unfolding less.prems(4) init_seen_def addr_range_def by force
  then obtain pa1 where pa1: "(if j < 20 then free pa \<lparr>block_addr = start, block_order = j\<rparr> else Inr pa) = Inr pa1"
    "init_post pa (addr_range start (2 ^ j)) pa1" "j < 20 \<Longrightarrow> free_post pa start j pa1" "\<not> j < 20 \<Longrightarrow> pa1 = pa"
    using init_turn[OF less.prems(2,3) j] by blast
  have al: "aligned start j" and j20: "j \<le> 20" using j by (auto simp: scan_stop_def scan_fits_def)
  have big: "\<not> block_span start 20 \<subseteq> R" if "j < 20"
    using scan_stop_no_1MiB[OF j that less.prems(5,6)] less.prems(1) by (simp add: page_range_def)
  have "free_post pa start j pa1 \<and> j < 20 \<or> pa1 = pa \<and> j = 20" using pa1(3,4) j20 by (cases "j < 20") auto
  then have cov: "covered pa1 = init_seen R (unat start + 2 ^ j)"
    using init_turn_exact[OF _ less.prems(3) al sub less.prems(4) big] by blast
  show ?case
  proof (cases "size' = 2 ^ j")
    case True
    moreover have "unat (2 ^ j :: usize) = 2 ^ j" using j20 by (simp add: unat_exp_word)
    ultimately have "covered pa1 = outside_1MiB R"
      using cov less.prems(6) by (auto simp: init_seen_def outside_1MiB_def)
    then show ?thesis using pa1(1) unf True by simp
  next
    case False
    note r = page_range_rest[OF less.prems(1) j False] and s = addr_range_split[OF less.prems(1) j False]
    have "unat (size' - 2 ^ j) < unat size'" using r(3,4) by simp
    moreover have "R \<subseteq> {x. unat x < unat (start + 2 ^ j) + unat (size' - 2 ^ j)}"
      using less.prems(6) r(2,3,4) by auto
    moreover have "pa_wf pa1" "length (free_lists pa1) = 8" using pa1(2) by (simp_all add: init_post_def)
    moreover have "no_1MiB_before R (start + 2 ^ j)" using no_1MiB_before_next[OF j r(2) big] by simp
    ultimately show ?thesis
      using less.hyps[OF _ r(1), of pa1] cov r(2) s(1) less.prems(7) unf pa1(1) False by auto
  qed
qed

lemma no_1MiB_before_start:
  assumes "page_range start size'"
  shows "no_1MiB_before (addr_range start size') start"
proof -
  let ?b = "start AND NOT (mask 20)"
  have "?b \<in> block_span start 20" using bit_imp_le_length[of start] by (auto simp: block_span_bits bit_and_iff bit_not_iff bit_mask_word)
  moreover have "?b \<le> start" by (simp add: word_and_le2)
  moreover have "?b = start" if "unat start \<le> unat ?b"
    using that calculation(2) by (simp add: word_le_nat_alt word_unat_eq_iff)
  moreover have "aligned ?b 20" by (auto simp: aligned_bits bit_and_iff bit_not_iff bit_mask_word)
  ultimately show ?thesis unfolding no_1MiB_before_def addr_range_def by fastforce
qed

text \<open>The initial lists.\<close>

lemma pa_init_lists:
  defines "pa \<equiv> pa_new\<lparr>free_lists := replicate 8 []\<rparr>"
  shows "pa_wf pa" and "length (free_lists pa) = 8" and "covered pa = {}"
proof -
  have "blocks pa = {}" by (auto simp: blocks_def pa_def)
  then show "pa_wf pa" and "length (free_lists pa) = 8" and "covered pa = {}"
    by (auto simp: pa_wf_def covered_def PAGE_SIZE_ORDER_def bts_ok_def pa_def)
qed

lemma init_eq:
  "init pa_new rs = rfold (\<lambda>(start, size') pa. init_loop pa start size') rs (pa_new\<lparr>free_lists := replicate 8 []\<rparr>)"
  by (simp add: init_def BLOCK_ORDER_COUNT_def pa_new_def)

fun range_disjoint :: "usize \<times> usize \<Rightarrow> usize \<times> usize \<Rightarrow> bool" where
  "range_disjoint (s, n) (s', n') \<longleftrightarrow> unat s + unat n \<le> unat s' \<or> unat s' + unat n' \<le> unat s"

fun good_ranges :: "(usize \<times> usize) list \<Rightarrow> bool" where
  "good_ranges [] \<longleftrightarrow> True"
| "good_ranges (r # rs) \<longleftrightarrow> page_range (fst r) (snd r) \<and> list_all (range_disjoint r) rs \<and> good_ranges rs"

definition range_union :: "(usize \<times> usize) list \<Rightarrow> usize set" where
  "range_union rs = (\<Union>(s, n)\<in>set rs. addr_range s n)"

lemma range_disjoint_addr: "range_disjoint (s, n) (s', n') \<Longrightarrow> addr_range s n \<inter> addr_range s' n' = {}"
  by (auto simp: addr_range_def)

lemma init_ranges_correct:
  "good_ranges rs \<Longrightarrow> pa_wf pa \<Longrightarrow> length (free_lists pa) = 8 \<Longrightarrow> covered pa \<inter> range_union rs = {} \<Longrightarrow>
   \<exists>pa'. rfold (\<lambda>(start, size') pa. init_loop pa start size') rs pa = Inr pa' \<and> init_post pa (range_union rs) pa'"
proof (induction rs arbitrary: pa)
  case Nil
  then show ?case by (auto simp: init_post_def range_union_def outside_1MiB_def)
next
  case (Cons r rs)
  obtain s n where r: "r = (s, n)" by fastforce
  have un: "range_union (r # rs) = addr_range s n \<union> range_union rs" by (simp add: range_union_def r)
  have dis: "addr_range s n \<inter> range_union rs = {}"
    using Cons.prems(1) range_disjoint_addr unfolding r range_union_def by (fastforce simp: list_all_iff)
  obtain pa1 where pa1: "init_loop pa s n = Inr pa1" "init_post pa (addr_range s n) pa1"
    using init_loop_correct[of s n pa] Cons.prems un r by auto
  moreover have "covered pa1 \<inter> range_union rs = {}" using pa1(2) dis un Cons.prems(4) unfolding init_post_def by blast
  then obtain pa' where "rfold (\<lambda>(start, size') pa. init_loop pa start size') rs pa1 = Inr pa'"
    "init_post pa1 (range_union rs) pa'"
    using Cons.IH[of pa1] Cons.prems(1) pa1(2) by (auto simp: init_post_def)
  ultimately show ?case using init_post_trans un r by auto
qed

section \<open>allocate\<close>

lemma bts_first_ok: "bts_ok l \<Longrightarrow> bts_first l = Some a \<Longrightarrow> a \<in> set l \<and> (\<forall>b\<in>set l. a \<le> b)"
  by (cases l) (auto simp: bts_ok_def less_imp_le)

lemma allocate_hit:
  assumes "12 \<le> n" and "n - 12 < length (free_lists pa)" and "bts_first (free_lists pa ! (n - 12)) = Some a"
  shows "allocate pa n =
    Inr (Some \<lparr>block_addr = a, block_order = n\<rparr>, set_list pa (n - 12) (bts_remove a (free_lists pa ! (n - 12))))"
  using assms by (subst allocate.simps) (simp add: PAGE_SIZE_ORDER_def checked_simps)

lemma allocate_miss:
  assumes "12 \<le> n" and "n < 23" and "n - 12 < length (free_lists pa)" and "free_lists pa ! (n - 12) = []"
  shows "allocate pa n = Inl ArithOverflow"
proof -
  have "\<not> 11 \<le> n - 12" using assms(2) by simp
  then have "allocate pa (n - 12 + 1) = Inl ArithOverflow"
    by (subst allocate.simps) (simp add: PAGE_SIZE_ORDER_def checked_simps)
  then show ?thesis
    using assms by (subst allocate.simps) (simp add: PAGE_SIZE_ORDER_def checked_simps)
qed

lemma allocate_hit_spec:
  assumes "pa_wf pa" and "12 \<le> n" and "n - 12 < length (free_lists pa)" and "free_lists pa ! (n - 12) \<noteq> []"
  defines "a \<equiv> hd (free_lists pa ! (n - 12))"
  defines "pa' \<equiv> set_list pa (n - 12) (bts_remove a (free_lists pa ! (n - 12)))"
  shows "allocate pa n = Inr (Some \<lparr>block_addr = a, block_order = n\<rparr>, pa')"
    and "pa_wf pa'" and "aligned a n" and "block_span a n \<subseteq> covered pa"
    and "covered pa' = covered pa - block_span a n"
    and "\<forall>b\<in>set (free_lists pa ! (n - 12)). a \<le> b"
proof -
  let ?l = "free_lists pa ! (n - 12)"
  have ok: "bts_ok ?l" using assms(1,3) by (simp add: pa_wf_def)
  have first: "bts_first ?l = Some a" using assms(4) by (cases ?l) (simp_all add: a_def)
  note m = bts_first_ok[OF ok first]
  show "allocate pa n = Inr (Some \<lparr>block_addr = a, block_order = n\<rparr>, pa')"
    unfolding pa'_def using allocate_hit[OF assms(2,3) first] .
  show "\<forall>b\<in>set ?l. a \<le> b" using m by blast
  have in_b: "(n - 12, a) \<in> blocks pa" and o: "PAGE_SIZE_ORDER + (n - 12) = n"
    using assms(2,3) m by (auto simp: blocks_def PAGE_SIZE_ORDER_def)
  show "aligned a n" using assms(1) in_b o by (auto simp: pa_wf_def)
  show "block_span a n \<subseteq> covered pa" using in_b o by (force simp: covered_def)
  show "pa_wf pa'" unfolding pa'_def using assms(1,3) by (rule pa_wf_remove)
  show "covered pa' = covered pa - block_span a n"
    unfolding pa'_def using covered_remove[OF assms(1,3)] m o by simp
qed

lemma allocate_SomeD:
  assumes "allocate pa n = Inr (Some b, pa')" and "length (free_lists pa) = 8"
  shows "12 \<le> n" and "n < 20" and "free_lists pa ! (n - 12) \<noteq> []"
  using assms allocate_miss[of n pa]
  by (auto simp: allocate.simps[of pa n] PAGE_SIZE_ORDER_def checked_simps split: if_splits)

section \<open>Properties\<close>

text \<open>Allocators with one free block, for the witnesses.\<close>

lemma one_block:
  assumes "i < 8" and "aligned a (12 + i)"
  defines "pa \<equiv> \<lparr>free_lists = (replicate 8 [])[i := [a]]\<rparr> :: page_allocator"
  shows "pa_wf pa" and "length (free_lists pa) = 8" and "covered pa = block_span a (12 + i)"
proof -
  have b: "blocks pa = {(i, a)}"
    using assms(1) by (auto simp: blocks_def pa_def nth_list_update split: if_splits)
  have "\<forall>l\<in>set (free_lists pa). bts_ok l"
    using set_update_subset_insert[of "replicate 8 []" i "[a]"] by (auto simp: pa_def bts_ok_def)
  then show "pa_wf pa" and "length (free_lists pa) = 8" and "covered pa = block_span a (12 + i)"
    using b assms by (auto simp: pa_wf_def covered_def PAGE_SIZE_ORDER_def pa_def)
qed

lemma block_span_not_subset:
  "m < n \<Longrightarrow> n \<le> 64 \<Longrightarrow> \<not> block_span a n \<subseteq> block_span b m"
proof
  assume mn: "m < n" "n \<le> 64" and sub: "block_span a n \<subseteq> block_span b m"
  have "a \<in> block_span b m" using sub by force
  moreover have "a XOR 2 ^ m \<in> block_span a n" using mn by (auto simp: block_span_bits bit_xor_iff)
  then have "a XOR 2 ^ m \<in> block_span b m" using sub by blast
  ultimately have "bit (a XOR 2 ^ m) m = bit a m" by (auto simp: block_span_bits)
  then show False using mn by (simp add: bit_xor_iff)
qed

text \<open>
  C13: \<open>PageAllocator::free\<close> of an aligned block that is not free yet returns; the lists stay
  sorted sets of aligned, disjoint blocks; nothing outside the block becomes free. The whole block
  becomes free, whatever merges with buddies happen, unless the free memory would then hold the
  whole 1 MiB block around it.
\<close>

theorem free_block_correct:
  assumes "freeable pa a n" and "length (free_lists pa) = 8"
  shows "\<exists>pa'. free pa \<lparr>block_addr = a, block_order = n\<rparr> = Inr pa' \<and> pa_wf pa' \<and>
    covered pa' \<subseteq> covered pa \<union> block_span a n \<and>
    (block_span a 20 \<subseteq> covered pa \<union> block_span a n \<or> covered pa' = covered pa \<union> block_span a n)"
  using free_correct[OF assms(1)] assms(2) by (auto simp: free_post_def PAGE_SIZE_ORDER_def)

lemma one_block_freeable:
  assumes "i < 8" and "aligned a (12 + i)"
  shows "freeable \<lparr>free_lists = (replicate 8 [])[i := [a XOR 2 ^ (12 + i)]]\<rparr> a (12 + i)"
proof -
  have al: "aligned (a XOR 2 ^ (12 + i)) (12 + i)" using assms by (simp add: aligned_buddy)
  have "a \<noteq> a XOR 2 ^ (12 + i)" using assms(1) buddy_neq[of "12 + i" a] by (simp add: eq_commute)
  then have "block_span a (12 + i) \<inter> block_span (a XOR 2 ^ (12 + i)) (12 + i) = {}"
    using block_span_disjoint[OF assms(2) al] by simp
  then show ?thesis
    using one_block[OF assms(1) al] assms by (simp add: freeable_def PAGE_SIZE_ORDER_def)
qed

theorem free_block_correct_witness:
  "\<exists>pa'. free \<lparr>free_lists = (replicate 8 [])[0 := [0x1000]]\<rparr> \<lparr>block_addr = 0, block_order = 12\<rparr> = Inr pa' \<and>
     covered pa' = block_span 0x1000 12 \<union> block_span 0 12"
proof -
  let ?pa = "\<lparr>free_lists = (replicate 8 [])[0 := [0x1000]]\<rparr> :: page_allocator"
  have "aligned 0 12" and al: "aligned 0x1000 12" by (simp_all add: aligned_def)
  then have fr: "freeable ?pa 0 12" using one_block_freeable[of 0 0] by simp
  have cov: "covered ?pa = block_span 0x1000 12" "length (free_lists ?pa) = 8"
    using one_block[of 0 "0x1000"] al by simp_all
  have "block_span 0 13 = block_span 0 12 \<union> block_span 0x1000 12" using block_span_buddy[of 12 0] by simp
  then have "\<not> block_span 0 20 \<subseteq> covered ?pa \<union> block_span 0 12"
    using block_span_not_subset[of 13 20 0 0] cov by (simp add: Un_commute)
  then show ?thesis using free_block_correct[OF fr cov(2)] cov by metis
qed

text \<open>
  Property: what \<open>PageAllocator::allocate\<close> does for every order, on the eight lists of a running
  kernel. A non-empty list yields its lowest block. An order above the largest one is answered with
  \<open>None\<close>. Everything else panics: the order below 12, and every order whose own list is empty, since
  the search for a larger block goes on with the list index in place of the order.
\<close>

theorem allocate_outcomes:
  assumes "pa_wf pa" and "length (free_lists pa) = 8"
  shows "allocate pa n =
    (if n < 12 \<or> (n < 20 \<and> free_lists pa ! (n - 12) = []) then Inl ArithOverflow
     else if 20 \<le> n then Inr (None, pa)
     else Inr (Some \<lparr>block_addr = hd (free_lists pa ! (n - 12)), block_order = n\<rparr>,
               set_list pa (n - 12) (tl (free_lists pa ! (n - 12)))))"
proof -
  have "bts_remove (hd l) l = tl l" if "bts_ok l" "l \<noteq> []" for l :: "usize list"
    using that by (cases l) (auto simp: bts_ok_def bts_remove_def intro!: filter_True)
  then show ?thesis
    using allocate_miss[of n pa] allocate_hit_spec(1)[OF assms(1), of n] assms
    by (auto simp: allocate.simps[of pa n] PAGE_SIZE_ORDER_def checked_simps pa_wf_def)
qed

theorem allocate_outcomes_witness:
  "allocate \<lparr>free_lists = (replicate 8 [])[1 := [0x2000]]\<rparr> 12 = Inl ArithOverflow"
  using allocate_outcomes[of "\<lparr>free_lists = (replicate 8 [])[1 := [0x2000]]\<rparr>" 12] one_block[of 1 "0x2000"]
  by (simp add: aligned_def)

text \<open>
  C16: a block that \<open>PageAllocator::allocate\<close> hands out is aligned to its size, was free as a whole,
  has the lowest address of its list, and is what leaves the free memory; the invariant is kept.
\<close>

theorem allocate_takes_free_block:
  assumes "pa_wf pa" and "length (free_lists pa) = 8" and "allocate pa n = Inr (Some b, pa')"
  shows "block_order b = n \<and> aligned (block_addr b) n \<and> block_span (block_addr b) n \<subseteq> covered pa \<and>
    covered pa' = covered pa - block_span (block_addr b) n \<and> pa_wf pa' \<and>
    (\<forall>a\<in>set (free_lists pa ! (n - 12)). block_addr b \<le> a)"
  using allocate_SomeD[OF assms(3,2)] allocate_hit_spec[of pa n] assms by auto

theorem allocate_takes_free_block_witness:
  "\<exists>pa'. allocate \<lparr>free_lists = (replicate 8 [])[0 := [0x1000]]\<rparr> 12
       = Inr (Some \<lparr>block_addr = 0x1000, block_order = 12\<rparr>, pa') \<and> covered pa' = {}"
proof -
  let ?pa = "\<lparr>free_lists = (replicate 8 [])[0 := [0x1000]]\<rparr> :: page_allocator"
  have o: "pa_wf ?pa" "length (free_lists ?pa) = 8" "covered ?pa = block_span 0x1000 12"
    using one_block[of 0 "0x1000"] by (simp_all add: aligned_def)
  obtain pa' where "allocate ?pa 12 = Inr (Some \<lparr>block_addr = 0x1000, block_order = 12\<rparr>, pa')"
    using allocate_hit[of 12 ?pa "0x1000"] by auto
  then show ?thesis using allocate_takes_free_block[OF o(1,2)] o(3) by fastforce
qed

text \<open>
  Property: freeing the block that was just allocated gives back the free memory as it was, unless a
  whole 1 MiB block was free around it.
\<close>

theorem allocate_free_roundtrip:
  assumes "pa_wf pa" and "length (free_lists pa) = 8" and "allocate pa n = Inr (Some b, pa')"
    and "\<not> block_span (block_addr b) 20 \<subseteq> covered pa"
  shows "\<exists>pa''. free pa' b = Inr pa'' \<and> pa_wf pa'' \<and> covered pa'' = covered pa"
proof -
  note d = allocate_SomeD[OF assms(3,2)]
  note h = allocate_hit_spec[of pa n, OF assms(1) d(1) _ d(3)]
  have b: "b = \<lparr>block_addr = block_addr b, block_order = n\<rparr>" "length (free_lists pa') = 8"
    using h(1) assms(2,3) d(2) by auto
  have cov: "covered pa' = covered pa - block_span (block_addr b) n" "block_span (block_addr b) n \<subseteq> covered pa"
    "pa_wf pa'" "aligned (block_addr b) n"
    using h assms(2,3) d(2) by auto
  then have "freeable pa' (block_addr b) n"
    using d b by (auto simp: freeable_def PAGE_SIZE_ORDER_def)
  then obtain pa'' where f: "free pa' \<lparr>block_addr = block_addr b, block_order = n\<rparr> = Inr pa''"
      "free_post pa' (block_addr b) n pa''"
    using free_correct by blast
  moreover have "covered pa' \<union> block_span (block_addr b) n = covered pa" using cov by blast
  ultimately show ?thesis using b assms(4) by (auto simp: free_post_def PAGE_SIZE_ORDER_def)
qed

theorem allocate_free_roundtrip_witness:
  "\<exists>b pa' pa''. allocate \<lparr>free_lists = (replicate 8 [])[0 := [0x1000]]\<rparr> 12 = Inr (Some b, pa') \<and>
     free pa' b = Inr pa'' \<and> covered pa'' = block_span 0x1000 12"
proof -
  let ?pa = "\<lparr>free_lists = (replicate 8 [])[0 := [0x1000]]\<rparr> :: page_allocator"
  have o: "pa_wf ?pa" "length (free_lists ?pa) = 8" "covered ?pa = block_span 0x1000 12"
    using one_block[of 0 "0x1000"] by (simp_all add: aligned_def)
  obtain pa' where a: "allocate ?pa 12 = Inr (Some \<lparr>block_addr = 0x1000, block_order = 12\<rparr>, pa')"
    using allocate_hit[of 12 ?pa "0x1000"] by auto
  then show ?thesis
    using allocate_free_roundtrip[OF o(1,2) a] o(3) block_span_not_subset[of 12 20 "0x1000" "0x1000"] by force
qed

text \<open>
  C17: \<open>PageAllocator::init\<close> on page-aligned, non-empty, disjoint ranges below the top of the
  address space returns an allocator that satisfies the invariant and whose free memory lies in the
  ranges; every address of the ranges is free unless its whole 1 MiB block lies in them.
\<close>

theorem init_correct:
  assumes "good_ranges rs"
  shows "\<exists>pa. init pa_new rs = Inr pa \<and> pa_wf pa \<and> length (free_lists pa) = 8 \<and>
    covered pa \<subseteq> range_union rs \<and> outside_1MiB (range_union rs) \<subseteq> covered pa"
  using init_ranges_correct[OF assms pa_init_lists(1,2)] pa_init_lists(3)
  by (auto simp: init_eq init_post_def)

theorem init_correct_witness:
  "\<exists>pa. init pa_new [(0x1000, 0x9F000), (0x100000, 0x23000)] = Inr pa \<and> pa_wf pa \<and>
     covered pa \<subseteq> range_union [(0x1000, 0x9F000), (0x100000, 0x23000)]"
proof -
  have "good_ranges [(0x1000, 0x9F000), (0x100000, 0x23000)]"
    by (simp add: page_range_def aligned_def)
  then show ?thesis using init_correct by blast
qed

text \<open>
  Property: a single range loses every 1 MiB block it contains: after \<open>PageAllocator::init\<close> exactly
  the addresses whose 1 MiB block sticks out of the range are free.
\<close>

theorem init_single_range:
  assumes "page_range start size'"
  shows "\<exists>pa. init pa_new [(start, size')] = Inr pa \<and>
    covered pa = {x \<in> addr_range start size'. \<not> block_span x 20 \<subseteq> addr_range start size'}"
proof -
  have "covered (pa_new\<lparr>free_lists := replicate 8 []\<rparr>) = init_seen (addr_range start size') (unat start)"
    unfolding pa_init_lists(3) init_seen_def outside_1MiB_def addr_range_def by auto
  moreover have "addr_range start size' \<subseteq> {x. unat x < unat start + unat size'}" by (auto simp: addr_range_def)
  ultimately show ?thesis
    using init_loop_exact[OF assms pa_init_lists(1,2) _ no_1MiB_before_start[OF assms]]
    by (auto simp: init_eq outside_1MiB_def)
qed

theorem init_single_range_witness:
  "\<exists>pa. init pa_new [(0x800000, 0x7610000)] = Inr pa \<and> 0x800000 \<notin> covered pa"
proof -
  have pr: "page_range 0x800000 0x7610000" by (simp add: page_range_def aligned_def)
  have "block_span 0x800000 20 = addr_range 0x800000 (2 ^ 20)"
    by (rule block_span_range) (simp_all add: aligned_def)
  also have "\<dots> \<subseteq> addr_range 0x800000 0x7610000" by (auto simp: addr_range_def)
  finally show ?thesis using init_single_range[OF pr] by auto
qed

text \<open>
  Property: at the largest order the buddy is taken off its list before the check that there is a larger
  order: freeing one half of a 1 MiB block whose other half is free loses the other half.
\<close>

theorem free_largest_order_loses_buddy:
  assumes "freeable pa a 19" and "length (free_lists pa) = 8" and "a XOR 2 ^ 19 \<in> set (free_lists pa ! 7)"
  shows "\<exists>pa'. free pa \<lparr>block_addr = a, block_order = 19\<rparr> = Inr pa' \<and>
    covered pa' = (covered pa - block_span (a XOR 2 ^ 19) 19) \<union> block_span a 19 \<and>
    block_span (a XOR 2 ^ 19) 19 \<inter> covered pa' = {}"
proof -
  let ?pa1 = "set_list pa 7 (bts_remove (a XOR 2 ^ 19) (free_lists pa ! 7))"
  have o: "7 = 19 - PAGE_SIZE_ORDER" and l: "7 < length (free_lists ?pa1)" using assms(2) by (simp_all add: PAGE_SIZE_ORDER_def)
  note rb = remove_buddy[OF assms(1) o assms(3)]
  have "free pa \<lparr>block_addr = a, block_order = 19\<rparr> = Inr (set_list ?pa1 7 (bts_insert a (free_lists ?pa1 ! 7)))"
    using free_unfold[of 19 pa a] assms(2) by (simp add: PAGE_SIZE_ORDER_def Let_def)
  moreover have "covered (set_list ?pa1 7 (bts_insert a (free_lists ?pa1 ! 7))) = covered ?pa1 \<union> block_span a 19"
    using covered_insert[OF l, of a] by (simp only: PAGE_SIZE_ORDER_def) simp
  moreover have "block_span (a XOR 2 ^ 19) 19 \<inter> block_span a 19 = {}"
    using assms(1) rb(3) by (auto simp: freeable_def)
  ultimately show ?thesis using rb(2) by auto
qed

theorem free_largest_order_loses_buddy_witness:
  "\<exists>pa'. free \<lparr>free_lists = (replicate 8 [])[7 := [0x80000]]\<rparr> \<lparr>block_addr = 0, block_order = 19\<rparr> = Inr pa' \<and>
     covered pa' = block_span 0 19"
proof -
  let ?pa = "\<lparr>free_lists = (replicate 8 [])[7 := [0x80000]]\<rparr> :: page_allocator"
  have fr: "freeable ?pa 0 19" using one_block_freeable[of 7 0] by (simp add: aligned_def)
  have o: "length (free_lists ?pa) = 8" "covered ?pa = block_span 0x80000 19"
    using one_block[of 7 "0x80000"] by (simp_all add: aligned_def)
  have "0 XOR 2 ^ 19 \<in> set (free_lists ?pa ! 7)" by simp
  then show ?thesis using free_largest_order_loses_buddy[OF fr o(1)] o(2) by auto
qed

section \<open>The allocator as a source of page frames\<close>

text \<open>
  What the page table code relies on: a frame that is handed out is page aligned, was available as a
  whole, and is not available afterwards. \<open>draw\<close> takes several frames in a row.
\<close>

fun draw :: "('s \<Rightarrow> (usize option \<times> 's) res) \<Rightarrow> nat \<Rightarrow> 's \<Rightarrow> (usize list \<times> 's) res" where
  "draw f 0 s = Inr ([], s)"
| "draw f (Suc n) s = rbind (f s) (\<lambda>(a, s1).
     case a of None \<Rightarrow> Inr ([], s1)
     | Some a \<Rightarrow> rbind (draw f n s1) (\<lambda>(as, s2). Inr (a # as, s2)))"

locale frame_source =
  fixes alloc_frame :: "'s \<Rightarrow> (usize option \<times> 's) res"
    and avail :: "'s \<Rightarrow> usize set" and ok :: "'s \<Rightarrow> bool"
  assumes alloc_frame_spec: "ok s \<Longrightarrow> alloc_frame s = Inr (Some a, s') \<Longrightarrow>
    ok s' \<and> aligned a 12 \<and> block_span a 12 \<subseteq> avail s \<and> avail s' = avail s - block_span a 12"
    and alloc_frame_None: "ok s \<Longrightarrow> alloc_frame s = Inr (None, s') \<Longrightarrow> s' = s"
begin

lemma draw_spec:
  "ok s \<Longrightarrow> draw alloc_frame n s = Inr (as, s') \<Longrightarrow>
   ok s' \<and> distinct as \<and> (\<forall>a\<in>set as. aligned a 12) \<and>
   (\<Union>a\<in>set as. block_span a 12) \<subseteq> avail s \<and> avail s' = avail s - (\<Union>a\<in>set as. block_span a 12)"
proof (induction n arbitrary: s as)
  case (Suc n)
  consider "alloc_frame s = Inr (None, s')" "as = []"
    | a s1 as' where "alloc_frame s = Inr (Some a, s1)" "draw alloc_frame n s1 = Inr (as', s')" "as = a # as'"
    using Suc.prems(2) by (auto simp: res_simps split: option.splits)
  then show ?case
  proof cases
    case 1
    then show ?thesis using alloc_frame_None[OF Suc.prems(1)] Suc.prems(1) by auto
  next
    case (2 a s1 as')
    have a: "ok s1" "aligned a 12" "block_span a 12 \<subseteq> avail s" "avail s1 = avail s - block_span a 12"
      using alloc_frame_spec[OF Suc.prems(1) 2(1)] by auto
    note IH = Suc.IH[OF a(1) 2(2)]
    have "a \<notin> set as'" using IH a(4) block_span_self[of a 12] by blast
    then show ?thesis using IH a 2(3) by auto
  qed
qed simp

end

definition allocate_page :: "page_allocator \<Rightarrow> (usize option \<times> page_allocator) res" where
  "allocate_page pa = rbind (allocate pa PAGE_SIZE_ORDER) (\<lambda>(b, pa'). Inr (map_option get_addr b, pa'))"

definition pa_ok :: "page_allocator \<Rightarrow> bool" where
  "pa_ok pa \<longleftrightarrow> pa_wf pa \<and> length (free_lists pa) = 8"

interpretation pages: frame_source allocate_page covered pa_ok
proof unfold_locales
  fix pa a pa' assume ok: "pa_ok pa" and al: "allocate_page pa = Inr (Some a, pa')"
  then obtain b where b: "allocate pa 12 = Inr (Some b, pa')" "a = block_addr b"
    by (auto simp: allocate_page_def PAGE_SIZE_ORDER_def get_addr_def res_simps)
  have wf: "pa_wf pa" and len: "length (free_lists pa) = 8" using ok by (simp_all add: pa_ok_def)
  have idx: "12 - 12 < length (free_lists pa)" using len by simp
  note d = allocate_SomeD[OF b(1) len]
  note h = allocate_hit_spec[OF wf d(1) idx d(3)]
  show "pa_ok pa' \<and> aligned a 12 \<and> block_span a 12 \<subseteq> covered pa \<and> covered pa' = covered pa - block_span a 12"
    using h b len by (simp add: pa_ok_def)
next
  fix pa pa' assume "pa_ok pa" and "allocate_page pa = Inr (None, pa')"
  then show "pa' = pa"
    using allocate_miss[of 12 pa] allocate_hit_spec(1)[of pa 12]
    by (cases "free_lists pa ! 0") (auto simp: allocate_page_def PAGE_SIZE_ORDER_def pa_ok_def res_simps)
qed

text \<open>
  Property: however many page frames are allocated in a row, they are pairwise different, page aligned,
  taken from the free memory and gone from it.
\<close>

theorem allocated_pages_distinct:
  assumes "pa_ok pa" and "draw allocate_page n pa = Inr (as, pa')"
  shows "pa_ok pa' \<and> distinct as \<and> (\<forall>a\<in>set as. aligned a 12 \<and> block_span a 12 \<subseteq> covered pa) \<and>
    covered pa' = covered pa - (\<Union>a\<in>set as. block_span a 12)"
  using pages.draw_spec[OF assms] by auto

theorem allocated_pages_distinct_witness:
  "\<exists>pa'. draw allocate_page 1 \<lparr>free_lists = (replicate 8 [])[0 := [0x1000]]\<rparr> = Inr ([0x1000], pa') \<and> covered pa' = {}"
proof -
  let ?pa = "\<lparr>free_lists = (replicate 8 [])[0 := [0x1000]]\<rparr> :: page_allocator"
  have o: "pa_ok ?pa" "covered ?pa = block_span 0x1000 12"
    using one_block[of 0 "0x1000"] by (simp_all add: aligned_def pa_ok_def)
  obtain pa' where "allocate ?pa 12 = Inr (Some \<lparr>block_addr = 0x1000, block_order = 12\<rparr>, pa')"
    using allocate_hit[of 12 ?pa "0x1000"] by auto
  then have "draw allocate_page 1 ?pa = Inr ([0x1000], pa')"
    by (simp add: allocate_page_def PAGE_SIZE_ORDER_def get_addr_def)
  then show ?thesis using allocated_pages_distinct[OF o(1)] o(2) by fastforce
qed

end
