(* ===== verification/Paging_Table.thy ===== *)
theory Paging_Table
  imports Prelude
begin

text \<open>
  Paging structure entries and tables (\<open>arch/x86_64/src/paging/mod.rs\<close>, \<open>table.rs\<close>,
  \<open>error.rs\<close>): the masks and flags, the four levels, the operations on an entry, and tables of
  512 entries.
\<close>

section \<open>Model\<close>

definition MASK_51_12 :: usize where "MASK_51_12 = 0x000ffffffffff000"
definition MASK_51_30 :: usize where "MASK_51_30 = 0x000fffffffc0000000"
definition MASK_51_21 :: usize where "MASK_51_21 = 0x0000fffffffe00000"
definition MASK_47_12 :: usize where "MASK_47_12 = 0x0000fffffffff000"
definition MASK_47_39 :: usize where "MASK_47_39 = 0x0000ff8000000000"
definition MASK_47_30 :: usize where "MASK_47_30 = 0x0000fffffc0000000"
definition MASK_38_30 :: usize where "MASK_38_30 = 0x0000007fc0000000"
definition MASK_29_21 :: usize where "MASK_29_21 = 0x000000003fe00000"
definition MASK_29_0 :: usize where "MASK_29_0 = 0x000000003fffffff"
definition MASK_20_12 :: usize where "MASK_20_12 = 0x00000000001ff000"
definition MASK_20_0 :: usize where "MASK_20_0 = 0x00000000001fffff"
definition PAGING_STRUCTURE_BASE :: usize where "PAGING_STRUCTURE_BASE = 0xffffff8000000000"
definition MMIO_BASE :: usize where "MMIO_BASE = 0xffffff0000000000"

datatype page_size = Normal | Huge | Gigantic

fun page_size_into :: "page_size \<Rightarrow> usize" where
  "page_size_into Normal = 0x1000"
| "page_size_into Huge = 0x200000"
| "page_size_into Gigantic = 0x40000000"

datatype paging_error = MisalignedAddress usize page_size

definition PRESENT_FLAG :: usize where "PRESENT_FLAG = 1"
definition RW_FLAG :: usize where "RW_FLAG = push_bit 1 1"
definition US_FLAG :: usize where "US_FLAG = push_bit 2 1"
definition PWT_FLAG :: usize where "PWT_FLAG = push_bit 3 1"
definition PCD_FLAG :: usize where "PCD_FLAG = push_bit 4 1"
definition ACCESSED_FLAG :: usize where "ACCESSED_FLAG = push_bit 5 1"
definition DIRTY_FLAG :: usize where "DIRTY_FLAG = push_bit 6 1"
definition PS_FLAG :: usize where "PS_FLAG = push_bit 7 1"
definition GLOBAL_FLAG :: usize where "GLOBAL_FLAG = push_bit 8 1"
definition PAT_FLAG :: usize where "PAT_FLAG = push_bit 12 1"

definition ALL_FLAGS :: usize where
  "ALL_FLAGS = PRESENT_FLAG OR RW_FLAG OR US_FLAG OR PWT_FLAG OR PCD_FLAG OR ACCESSED_FLAG OR
     DIRTY_FLAG OR PS_FLAG OR GLOBAL_FLAG OR PAT_FLAG"

datatype paging_level = PML4 | PDPT | PD | PT

fun level_mask :: "paging_level \<Rightarrow> usize" where
  "level_mask PML4 = MASK_47_39"
| "level_mask PDPT = MASK_38_30"
| "level_mask PD = MASK_29_21"
| "level_mask PT = MASK_20_12"

fun level_shift :: "paging_level \<Rightarrow> nat" where
  "level_shift PML4 = 39"
| "level_shift PDPT = 30"
| "level_shift PD = 21"
| "level_shift PT = 12"

definition entry_idx :: "paging_level \<Rightarrow> usize \<Rightarrow> usize" where
  "entry_idx L virt_addr = drop_bit (level_shift L) (virt_addr AND level_mask L)"

record paging_struct_entry =
  bytes :: usize

definition entry_default :: paging_struct_entry where
  "entry_default = \<lparr>bytes = 0\<rparr>"

definition entry_new :: "usize \<Rightarrow> usize \<Rightarrow> paging_struct_entry" where
  "entry_new flags phys_addr = \<lparr>bytes = flags OR (phys_addr AND MASK_51_12)\<rparr>"

definition get_flags :: "paging_struct_entry \<Rightarrow> usize \<Rightarrow> usize" where
  "get_flags e flag = bytes e AND flag"

definition set_flags :: "usize \<Rightarrow> bool \<Rightarrow> paging_struct_entry \<Rightarrow> paging_struct_entry" where
  "set_flags flag value e =
     (if value then e\<lparr>bytes := bytes e OR flag\<rparr> else e\<lparr>bytes := bytes e AND NOT flag\<rparr>)"

definition entry_get_addr :: "paging_struct_entry \<Rightarrow> usize" where
  "entry_get_addr e = bytes e AND MASK_51_12"

definition get_virt_addr :: "usize \<Rightarrow> paging_struct_entry \<Rightarrow> usize res" where
  "get_virt_addr psb e = checked_add (entry_get_addr e) psb"

definition set_addr :: "usize \<Rightarrow> paging_struct_entry \<Rightarrow> paging_struct_entry" where
  "set_addr addr e = e\<lparr>bytes := (bytes e AND NOT MASK_51_12) OR (addr AND MASK_51_12)\<rparr>"

text \<open>A table is an array of 512 entries; an access beyond it panics.\<close>

type_synonym paging_struct = "nat \<Rightarrow> paging_struct_entry"

definition paging_struct_default :: paging_struct where
  "paging_struct_default = (\<lambda>_. entry_default)"

definition get_entry :: "paging_struct \<Rightarrow> usize \<Rightarrow> paging_struct_entry res" where
  "get_entry t idx = (if idx < 512 then Inr (t (unat idx)) else Inl OutOfBounds)"

definition get_entry_mut ::
  "usize \<Rightarrow> (paging_struct_entry \<Rightarrow> paging_struct_entry) \<Rightarrow> paging_struct \<Rightarrow> paging_struct res" where
  "get_entry_mut idx f t = (if idx < 512 then Inr (t(unat idx := f (t (unat idx)))) else Inl OutOfBounds)"

text \<open>The physical address of the table that \<open>ptr\<close> points to.\<close>

definition struct_phys_addr :: "usize \<Rightarrow> usize \<Rightarrow> usize res" where
  "struct_phys_addr psb ptr = checked_sub ptr psb"

section \<open>Masks and flags as bit patterns\<close>

named_theorems entry_bits \<open>the bits of masks, flags and entries\<close>

lemma mask_bits [entry_bits]:
  "bit MASK_51_12 i \<longleftrightarrow> 12 \<le> i \<and> i < 52"
  "bit MASK_51_21 i \<longleftrightarrow> 21 \<le> i \<and> i < 52"
  "bit MASK_51_30 i \<longleftrightarrow> 30 \<le> i \<and> i < 60"
  "bit MASK_47_12 i \<longleftrightarrow> 12 \<le> i \<and> i < 48"
  "bit MASK_47_30 i \<longleftrightarrow> 30 \<le> i \<and> i < 52"
proof -
  have "MASK_51_12 = push_bit 12 (mask 40)" "MASK_51_21 = push_bit 21 (mask 31)"
    "MASK_51_30 = push_bit 30 (mask 30)" "MASK_47_12 = push_bit 12 (mask 36)" "MASK_47_30 = push_bit 30 (mask 22)"
    by (simp_all add: MASK_51_12_def MASK_51_21_def MASK_51_30_def MASK_47_12_def MASK_47_30_def mask_eq_exp_minus_1)
  note eqs = this
  show "bit MASK_51_12 i \<longleftrightarrow> 12 \<le> i \<and> i < 52" "bit MASK_51_21 i \<longleftrightarrow> 21 \<le> i \<and> i < 52"
    "bit MASK_51_30 i \<longleftrightarrow> 30 \<le> i \<and> i < 60" "bit MASK_47_12 i \<longleftrightarrow> 12 \<le> i \<and> i < 48"
    "bit MASK_47_30 i \<longleftrightarrow> 30 \<le> i \<and> i < 52"
    unfolding eqs bit_push_bit_iff bit_mask_word by auto
qed

lemma level_mask_eq: "level_mask L = push_bit (level_shift L) (mask 9)"
  by (cases L) (simp_all add: MASK_47_39_def MASK_38_30_def MASK_29_21_def MASK_20_12_def mask_eq_exp_minus_1)

lemma level_shift_le: "level_shift L \<le> 39" by (cases L) simp_all

lemma flag_bits [entry_bits]:
  "bit PRESENT_FLAG i \<longleftrightarrow> i = 0" "bit RW_FLAG i \<longleftrightarrow> i = 1" "bit PS_FLAG i \<longleftrightarrow> i = 7"
  "bit ALL_FLAGS i \<longleftrightarrow> i < 9 \<or> i = 12"
proof -
  have "ALL_FLAGS = mask 9 OR 2 ^ 12"
    by (simp add: ALL_FLAGS_def PRESENT_FLAG_def RW_FLAG_def US_FLAG_def PWT_FLAG_def PCD_FLAG_def ACCESSED_FLAG_def
        DIRTY_FLAG_def PS_FLAG_def GLOBAL_FLAG_def PAT_FLAG_def mask_eq_exp_minus_1)
  note eq = this
  show "bit ALL_FLAGS i \<longleftrightarrow> i < 9 \<or> i = 12"
    unfolding eq bit_or_iff bit_mask_word bit_exp_word by auto
  have "PRESENT_FLAG = 2 ^ 0" "RW_FLAG = 2 ^ 1" "PS_FLAG = 2 ^ 7"
    by (simp_all add: PRESENT_FLAG_def RW_FLAG_def PS_FLAG_def)
  note eqs = this
  show "bit PRESENT_FLAG i \<longleftrightarrow> i = 0" "bit RW_FLAG i \<longleftrightarrow> i = 1" "bit PS_FLAG i \<longleftrightarrow> i = 7"
    unfolding eqs bit_exp_word by auto
qed

lemma entry_idx_eq: "entry_idx L v = take_bit 9 (drop_bit (level_shift L) v)"
  using level_shift_le[of L]
  by (intro bit_eqI) (auto simp: entry_idx_def level_mask_eq bit_take_bit_iff bit_drop_bit_eq bit_and_iff
      bit_push_bit_iff bit_mask_word)

lemma entry_idx_less [simp]: "entry_idx L v < 512"
proof -
  have "unat (entry_idx L v) < 2 ^ 9"
    unfolding entry_idx_eq unsigned_take_bit_eq by (rule take_bit_nat_less_exp)
  then show ?thesis by (simp add: word_less_nat_alt)
qed

lemma unat_entry_idx_less [simp]: "unat (entry_idx L v) < 512"
  using entry_idx_less[of L v] by (simp add: word_less_nat_alt del: entry_idx_less)

lemma get_entry_idx [simp]: "get_entry t (entry_idx L v) = Inr (t (unat (entry_idx L v)))"
  by (simp add: get_entry_def)

lemma get_entry_mut_idx [simp]:
  "get_entry_mut (entry_idx L v) f t = Inr (t(unat (entry_idx L v) := f (t (unat (entry_idx L v)))))"
  by (simp add: get_entry_mut_def)

lemma page_number_indices:
  "v AND MASK_47_12 =
     push_bit 39 (entry_idx PML4 v) OR push_bit 30 (entry_idx PDPT v) OR
     push_bit 21 (entry_idx PD v) OR push_bit 12 (entry_idx PT v)"
proof -
  have "bit (v AND MASK_47_12) i =
     bit (push_bit 39 (entry_idx PML4 v) OR push_bit 30 (entry_idx PDPT v) OR
     push_bit 21 (entry_idx PD v) OR push_bit 12 (entry_idx PT v)) i" if "i < 64" for i
  proof -
    consider "i < 12" | "12 \<le> i" "i < 21" | "21 \<le> i" "i < 30" | "30 \<le> i" "i < 39" | "39 \<le> i" "i < 48" | "48 \<le> i"
      by linarith
    then show ?thesis
      using that by cases (auto simp: entry_idx_eq bit_and_iff bit_or_iff entry_bits bit_push_bit_iff
          bit_take_bit_iff bit_drop_bit_eq)
  qed
  then show ?thesis by (auto intro: bit_word_eqI)
qed

lemma entry_idx_page: "entry_idx L (v AND MASK_47_12) = entry_idx L v"
  by (cases L) (rule bit_eqI, auto simp: entry_idx_eq bit_and_iff entry_bits bit_take_bit_iff bit_drop_bit_eq)+

section \<open>Entries\<close>

lemma entry_get_set_addr [simp]: "entry_get_addr (set_addr a e) = a AND MASK_51_12"
  by (rule bit_eqI) (auto simp: entry_get_addr_def set_addr_def bit_or_iff bit_and_iff bit_not_iff)

lemma entry_get_addr_mask [simp]: "entry_get_addr e AND MASK_51_12 = entry_get_addr e"
  by (simp add: entry_get_addr_def and.assoc)

lemma entry_get_addr_set_flags:
  "entry_get_addr (set_flags f b e) =
     (if b then entry_get_addr e OR (f AND MASK_51_12) else entry_get_addr e AND NOT f)"
  by (rule bit_eqI) (auto simp: entry_get_addr_def set_flags_def bit_or_iff bit_and_iff bit_not_iff)

lemma flags_no_addr [simp]:
  "(PRESENT_FLAG OR RW_FLAG) AND MASK_51_12 = 0" "RW_FLAG AND MASK_51_12 = 0"
  by (rule bit_eqI, auto simp: entry_bits bit_or_iff bit_and_iff)+

lemma get_addr_set_flags_PRW [simp]: "entry_get_addr (set_flags (PRESENT_FLAG OR RW_FLAG) True e) = entry_get_addr e"
  by (simp add: entry_get_addr_set_flags)

lemma get_addr_set_flags_RW [simp]: "entry_get_addr (set_flags RW_FLAG b e) = entry_get_addr e"
proof -
  have "entry_get_addr e AND NOT RW_FLAG = entry_get_addr e"
    by (rule bit_eqI) (auto simp: entry_get_addr_def entry_bits bit_and_iff bit_not_iff dest: bit_imp_le_length)
  then show ?thesis by (simp add: entry_get_addr_set_flags)
qed

text \<open>Present and page size, the two flags that direct a walk.\<close>

definition is_present :: "paging_struct_entry \<Rightarrow> bool" where
  "is_present e \<longleftrightarrow> bit (bytes e) 0"

definition is_leaf :: "paging_struct_entry \<Rightarrow> bool" where
  "is_leaf e \<longleftrightarrow> bit (bytes e) 7"

lemma and_single_bit: "w AND 2 ^ n = (if bit w n then 2 ^ n else 0)" for w :: "'a::len word"
  by (rule bit_eqI) (auto simp: bit_and_iff)

lemma present_iff [simp]: "get_flags e ALL_FLAGS AND PRESENT_FLAG = PRESENT_FLAG \<longleftrightarrow> is_present e"
proof -
  have "get_flags e ALL_FLAGS AND PRESENT_FLAG = (if bit (bytes e) 0 then PRESENT_FLAG else 0)"
    by (rule bit_eqI) (auto simp: get_flags_def entry_bits bit_and_iff)
  moreover have "PRESENT_FLAG \<noteq> 0" by (simp add: PRESENT_FLAG_def)
  ultimately show ?thesis by (simp add: is_present_def)
qed

lemma leaf_iff [simp]: "get_flags e ALL_FLAGS AND PS_FLAG = PS_FLAG \<longleftrightarrow> is_leaf e"
proof -
  have "get_flags e ALL_FLAGS AND PS_FLAG = (if bit (bytes e) 7 then PS_FLAG else 0)"
    by (rule bit_eqI) (auto simp: get_flags_def entry_bits bit_and_iff)
  moreover have "PS_FLAG \<noteq> 0" by (simp add: PS_FLAG_def)
  ultimately show ?thesis by (simp add: is_leaf_def)
qed

lemma entry_default_flags [simp]: "\<not> is_present entry_default" "\<not> is_leaf entry_default"
  by (simp_all add: is_present_def is_leaf_def entry_default_def)

lemma set_addr_flags [simp]: "is_present (set_addr a e) = is_present e" "is_leaf (set_addr a e) = is_leaf e"
  by (auto simp: is_present_def is_leaf_def set_addr_def bit_or_iff bit_and_iff bit_not_iff entry_bits)

lemma set_flags_flags [simp]:
  "is_present (set_flags (PRESENT_FLAG OR RW_FLAG) True e)"
  "is_leaf (set_flags (PRESENT_FLAG OR RW_FLAG) True e) = is_leaf e"
  "is_present (set_flags RW_FLAG b e) = is_present e" "is_leaf (set_flags RW_FLAG b e) = is_leaf e"
  by (auto simp: is_present_def is_leaf_def set_flags_def bit_or_iff bit_and_iff bit_not_iff entry_bits)

section \<open>Properties\<close>

text \<open>
  Property: the indices of the four levels are below 512 and together are exactly the page number: bits
  47 to 12 of the virtual address, so two addresses with the same four indices lie in the same page.
\<close>

theorem entry_idx_page_number:
  "v AND MASK_47_12 =
     push_bit 39 (entry_idx PML4 v) OR push_bit 30 (entry_idx PDPT v) OR
     push_bit 21 (entry_idx PD v) OR push_bit 12 (entry_idx PT v)
   \<and> entry_idx L v < 512"
  using page_number_indices by simp

text \<open>
  Property: writing an address or flags into an entry and reading them back. \<open>set_addr\<close> changes bits 51
  to 12 only, and stores exactly these bits of the address. \<open>set_flags\<close> sets or clears exactly the
  flags named, whatever the other bits are; the flags below bit 12 and the address do not disturb
  each other.
\<close>

theorem entry_roundtrip:
  "entry_get_addr (set_addr a e) = a AND MASK_51_12 \<and>
   get_flags (set_addr a e) (NOT MASK_51_12) = get_flags e (NOT MASK_51_12) \<and>
   get_flags (set_flags f b e) f = (if b then f else 0) \<and>
   get_flags (set_flags f b e) (NOT f) = get_flags e (NOT f) \<and>
   entry_get_addr (set_flags (f AND 0xFFF) b e) = entry_get_addr e"
proof (intro conjI)
  have m: "(0xFFF :: usize) = mask 12" by (simp add: mask_eq_exp_minus_1)
  show "entry_get_addr (set_flags (f AND 0xFFF) b e) = entry_get_addr e"
    unfolding m by (rule bit_eqI)
      (auto simp: entry_get_addr_def set_flags_def bit_and_iff bit_or_iff bit_not_iff bit_mask_word entry_bits
        dest: bit_imp_le_length)
qed (rule bit_eqI, auto simp: entry_get_addr_def get_flags_def set_addr_def set_flags_def bit_and_iff bit_or_iff
    bit_not_iff dest: bit_imp_le_length)+

text \<open>
  Property: \<open>PAT_FLAG\<close>, and with it \<open>ALL_FLAGS\<close>, overlaps the address field: copying all flags of an
  entry into another one after its address was set ORs bit 12 of the first entry's address into the
  second entry's address.
\<close>

theorem copied_flags_disturb_address:
  "entry_get_addr (set_flags (get_flags e ALL_FLAGS) True (set_addr a d))
     = (a AND MASK_51_12) OR (entry_get_addr e AND PAT_FLAG)"
proof -
  have p: "PAT_FLAG = 2 ^ 12" by (simp add: PAT_FLAG_def)
  show ?thesis
    unfolding p by (rule bit_eqI)
      (auto simp: entry_get_addr_def get_flags_def set_addr_def set_flags_def bit_and_iff bit_or_iff
        bit_not_iff entry_bits simp del: power_numeral)
qed

text \<open>
  \<open>MASK_51_30\<close> and \<open>MASK_47_30\<close> do not select the bits their names give: they are the bits 59 to
  30 and 51 to 30.
\<close>

lemma huge_masks_too_wide:
  "MASK_51_30 = push_bit 30 (mask 30) \<and> MASK_47_30 = push_bit 30 (mask 22)"
  by (simp add: MASK_51_30_def MASK_47_30_def mask_eq_exp_minus_1)

end
