(* ===== verification/Mapper.thy ===== *)
theory Mapper
  imports Physical Paging_Table "HOL-Library.Product_Lexorder"
begin

text \<open>
  The page table manager (\<open>arch/x86_64/src/paging/mapping.rs\<close>) with the environment it runs
  in (\<open>arch/interface/src/lib.rs\<close>, \<open>arch/x86_64/bare_metal/src/lib.rs\<close>): walking, mapping,
  unmapping, forking an address space and copying a page on write. The paging structures are memory
  of the model, addressed by the pointers the code computes. A pointer outside of the
  region of the mapper, or not at the start of a table, cannot be followed.
\<close>

section \<open>Model\<close>

subsection \<open>State\<close>

definition BOOT_PAGE_TABLE_COUNT :: nat where
  "BOOT_PAGE_TABLE_COUNT = 7"

record mapped_page =
  mp_phys_addr :: usize
  mp_size :: page_size
  mp_refs :: usize
  aliasing_paging_structures :: "(usize \<times> usize) btree_set"

record leaf_entry =
  leaf_table :: usize
  leaf_phys_addr :: usize
  leaf_idx :: usize
  leaf_page_size :: page_size

text \<open>
  The environment: the constant \<open>PAGING_STRUCTURE_BASE\<close> of the implementation, the register
  \<open>cr3\<close>, and how often the translation cache was flushed.
\<close>

record environment =
  psb :: usize
  cr3 :: usize
  tlb_flushes :: nat

definition paging_structure_base :: "environment \<Rightarrow> usize res" where
  "paging_structure_base env = checked_add (cr3 env) (psb env)"

definition flush_tlb :: "environment \<Rightarrow> environment" where
  "flush_tlb env = env\<lparr>tlb_flushes := Suc (tlb_flushes env)\<rparr>"

text \<open>\<open>tables\<close> is the memory behind \<open>base\<close>, \<open>memory\<close> the physical memory behind mapped pages.\<close>

record mapper =
  base :: usize
  region_length :: usize
  next_idx :: usize
  mapped_pages :: "(usize, mapped_page) btree_map"
  page_alloc :: page_allocator
  environment :: environment
  tables :: "usize \<Rightarrow> paging_struct"
  memory :: "usize \<Rightarrow> u8"

definition valid_table :: "mapper \<Rightarrow> usize \<Rightarrow> bool" where
  "valid_table m p \<longleftrightarrow>
     take_bit 12 (p - base m) = 0 \<and> drop_bit 12 (p - base m) < drop_bit 12 (region_length m)"

definition read_entry :: "mapper \<Rightarrow> usize \<Rightarrow> usize \<Rightarrow> paging_struct_entry res" where
  "read_entry m p idx = (if valid_table m p then get_entry (tables m p) idx else Inl InvalidAccess)"

definition write_entry ::
  "mapper \<Rightarrow> usize \<Rightarrow> usize \<Rightarrow> (paging_struct_entry \<Rightarrow> paging_struct_entry) \<Rightarrow> mapper res" where
  "write_entry m p idx f =
     (if valid_table m p
      then rbind (get_entry_mut idx f (tables m p)) (\<lambda>t. Inr (m\<lparr>tables := (tables m)(p := t)\<rparr>))
      else Inl InvalidAccess)"

text \<open>\<open>base.add(n)\<close>\<close>

definition base_add :: "mapper \<Rightarrow> usize \<Rightarrow> usize" where
  "base_add m n = base m + n * 0x1000"

definition mapper_new ::
  "usize \<Rightarrow> usize \<Rightarrow> usize \<Rightarrow> page_allocator \<Rightarrow> environment \<Rightarrow> (usize \<Rightarrow> paging_struct) \<Rightarrow> (usize \<Rightarrow> u8) \<Rightarrow> mapper res" where
  "mapper_new base' length' next' pa env tabs mem =
     rbind (checked_sub length' (of_nat BOOT_PAGE_TABLE_COUNT * 0x1000)) (\<lambda>n.
     let ptr = base' + 7 * 0x1000 in
     Inr \<lparr>base = base', region_length = length', next_idx = next', mapped_pages = [], page_alloc = pa,
          environment = env, tables = (\<lambda>p. if p - ptr < n then paging_struct_default else tabs p), memory = mem\<rparr>)"

subsection \<open>Walking\<close>

definition new_table :: "mapper \<Rightarrow> usize \<times> mapper" where
  "new_table m = (base_add m (next_idx m), m\<lparr>next_idx := next_idx m + 1\<rparr>)"

definition table_for_phys_addr :: "mapper \<Rightarrow> usize \<Rightarrow> usize res" where
  "table_for_phys_addr m phys =
     rbind (checked_add (psb (environment m)) phys) (\<lambda>a.
     rbind (checked_sub a (base m)) (\<lambda>d.
     Inr (base_add m (d div 0x1000))))"

definition walk :: "mapper \<Rightarrow> paging_level \<Rightarrow> usize \<Rightarrow> usize \<Rightarrow> (usize \<times> usize) option res" where
  "walk m L table virt =
     rbind (read_entry m table (entry_idx L virt)) (\<lambda>e.
     let addr = entry_get_addr e; flags = get_flags e ALL_FLAGS in
     Inr (if flags AND PRESENT_FLAG = PRESENT_FLAG then Some (addr, flags) else None))"

definition walk_or_create_table ::
  "mapper \<Rightarrow> paging_level \<Rightarrow> usize \<Rightarrow> usize \<Rightarrow> ((usize \<times> usize) \<times> mapper) res" where
  "walk_or_create_table m L table virt =
     rbind (walk m L table virt) (\<lambda>w.
     case w of
       Some (next_table, flags) \<Rightarrow> rbind (table_for_phys_addr m next_table) (\<lambda>t. Inr ((t, flags), m))
     | None \<Rightarrow>
         let idx = entry_idx L virt;
             (next_table, m1) = new_table m;
             flags = PRESENT_FLAG OR RW_FLAG in
         rbind (struct_phys_addr (psb (environment m1)) next_table) (\<lambda>a.
         rbind (write_entry m1 table idx (set_addr a)) (\<lambda>m2.
         rbind (write_entry m2 table idx (set_flags flags True)) (\<lambda>m3.
         Inr ((next_table, flags), m3)))))"

definition walk_to_leaf :: "mapper \<Rightarrow> usize \<Rightarrow> usize \<Rightarrow> leaf_entry option res" where
  "walk_to_leaf m pml4 virt =
     rtry (walk m PML4 pml4 virt) (\<lambda>(pml4e_addr, _).
     rbind (table_for_phys_addr m pml4e_addr) (\<lambda>pdpt.
     rtry (walk m PDPT pdpt virt) (\<lambda>(pdpte_addr, pdpte_flags).
     if pdpte_flags AND PS_FLAG = PS_FLAG
     then Inr (Some \<lparr>leaf_table = pdpt, leaf_phys_addr = pdpte_addr, leaf_idx = entry_idx PDPT virt,
                     leaf_page_size = Gigantic\<rparr>)
     else
     rbind (table_for_phys_addr m pdpte_addr) (\<lambda>pd.
     rtry (walk m PD pd virt) (\<lambda>(pde_addr, pde_flags).
     if pde_flags AND PS_FLAG = PS_FLAG
     then Inr (Some \<lparr>leaf_table = pd, leaf_phys_addr = pde_addr, leaf_idx = entry_idx PD virt,
                     leaf_page_size = Huge\<rparr>)
     else
     rbind (table_for_phys_addr m pde_addr) (\<lambda>pt.
     rtry (walk m PT pt virt) (\<lambda>(pte_addr, _).
     Inr (Some \<lparr>leaf_table = pt, leaf_phys_addr = pte_addr, leaf_idx = entry_idx PT virt,
                leaf_page_size = Normal\<rparr>))))))))"

text \<open>The entry behind a leaf, updated in place.\<close>

definition update_leaf :: "mapper \<Rightarrow> leaf_entry \<Rightarrow> (paging_struct_entry \<Rightarrow> paging_struct_entry) \<Rightarrow> mapper res" where
  "update_leaf m leaf f = write_entry m (leaf_table leaf) (leaf_idx leaf) f"

definition phys_addr :: "mapper \<Rightarrow> usize \<Rightarrow> usize option res" where
  "phys_addr m virt =
     rbind (paging_structure_base (environment m)) (\<lambda>pml4.
     rtry (walk_to_leaf m pml4 virt) (\<lambda>leaf.
     case leaf_page_size leaf of
       Gigantic \<Rightarrow> Inr (Some (leaf_phys_addr leaf OR (virt AND (push_bit (level_shift PDPT) 1 - 1))))
     | Huge \<Rightarrow> Inr (Some (leaf_phys_addr leaf OR (virt AND (push_bit (level_shift PD) 1 - 1))))
     | Normal \<Rightarrow> Inr (Some (leaf_phys_addr leaf OR (virt AND (push_bit (level_shift PT) 1 - 1))))))"

subsection \<open>Mapping and unmapping\<close>

definition MASK_11_0 :: usize where
  "MASK_11_0 = push_bit 12 1 - 1"

text \<open>The loop of \<open>map\<close> over the aliases of a page: each loses its write permission.\<close>

definition protect_alias :: "usize \<Rightarrow> usize \<times> usize \<Rightarrow> mapper \<Rightarrow> mapper res" where
  "protect_alias virt = (\<lambda>(aliasing, _) m.
     rbind (table_for_phys_addr m aliasing) (\<lambda>aliasing_pml4.
     rbind (walk_to_leaf m aliasing_pml4 virt) (\<lambda>l.
     rbind (expect l) (\<lambda>leaf. update_leaf m leaf (set_flags RW_FLAG False)))))"

text \<open>The accounting of \<open>map\<close> for a page of the user half, after its entry was written.\<close>

definition map_account :: "mapper \<Rightarrow> usize \<Rightarrow> usize \<Rightarrow> usize \<Rightarrow> usize \<Rightarrow> mapper res" where
  "map_account m pml4 key phys virt =
     (case map_of (mapped_pages m) key of
        Some phys_page \<Rightarrow>
          rbind (struct_phys_addr (psb (environment m)) pml4) (\<lambda>root.
          let aliases = bts_insert (root, virt) (aliasing_paging_structures phys_page);
              phys_page' = phys_page\<lparr>mp_refs := mp_refs phys_page + 1, aliasing_paging_structures := aliases\<rparr> in
          rfold (protect_alias virt) aliases (m\<lparr>mapped_pages := btm_insert key phys_page' (mapped_pages m)\<rparr>))
      | None \<Rightarrow>
          rbind (struct_phys_addr (psb (environment m)) pml4) (\<lambda>root.
          Inr (m\<lparr>mapped_pages := btm_insert phys
                   \<lparr>mp_phys_addr = phys, mp_size = Normal, mp_refs = 1,
                    aliasing_paging_structures = bts_insert (root, virt) []\<rparr> (mapped_pages m)\<rparr>)))"

definition mapper_map :: "mapper \<Rightarrow> usize \<Rightarrow> usize \<Rightarrow> ((unit, paging_error) rust_result \<times> mapper) res" where
  "mapper_map m phys virt =
     (if phys AND MASK_11_0 \<noteq> 0 then Inr (Err (MisalignedAddress phys Normal), m)
      else if virt AND MASK_11_0 \<noteq> 0 then Inr (Err (MisalignedAddress virt Normal), m)
      else
      rbind (paging_structure_base (environment m)) (\<lambda>pml4.
      rbind (walk_or_create_table m PML4 pml4 virt) (\<lambda>((pdpt, _), m1).
      rbind (walk_or_create_table m1 PDPT pdpt virt) (\<lambda>((pd, _), m2).
      rbind (walk_or_create_table m2 PD pd virt) (\<lambda>((pt, _), m3).
      let idx = drop_bit (level_shift PT) (virt AND level_mask PT) in
      rbind (write_entry m3 pt idx (set_addr (phys AND MASK_51_12))) (\<lambda>m4.
      rbind (write_entry m4 pt idx (set_flags (PRESENT_FLAG OR RW_FLAG) True)) (\<lambda>m5.
      rbind (if drop_bit 51 virt = 0
             then rbind (read_entry m5 pt idx) (\<lambda>pte. map_account m5 pml4 (entry_get_addr pte) phys virt)
             else Inr m5) (\<lambda>m6.
      Inr (Ok (), m6\<lparr>environment := flush_tlb (environment m6)\<rparr>)))))))))"

fun page_align_mask :: "page_size \<Rightarrow> usize" where
  "page_align_mask Gigantic = push_bit 30 1 - 1"
| "page_align_mask Huge = push_bit 21 1 - 1"
| "page_align_mask Normal = push_bit 12 1 - 1"

definition unmap_account :: "mapper \<Rightarrow> usize \<Rightarrow> usize \<Rightarrow> mapper res" where
  "unmap_account m key virt =
     rbind (expect (map_of (mapped_pages m) key)) (\<lambda>phys_page.
     rbind (paging_structure_base (environment m)) (\<lambda>table.
     rbind (struct_phys_addr (psb (environment m)) table) (\<lambda>root.
     if mp_refs phys_page > 1
     then
       rbind (rassert ((root, virt) \<in> set (aliasing_paging_structures phys_page))) (\<lambda>_.
       let aliases = bts_remove (root, virt) (aliasing_paging_structures phys_page);
           phys_page' = phys_page\<lparr>mp_refs := mp_refs phys_page - 1, aliasing_paging_structures := aliases\<rparr>;
           m1 = m\<lparr>mapped_pages := btm_insert key phys_page' (mapped_pages m)\<rparr> in
       if mp_refs phys_page' = 1
       then
         rbind (rassert (length aliases = 1)) (\<lambda>_.
         rbind (expect (bts_first aliases)) (\<lambda>(alias_root, _).
         rbind (table_for_phys_addr m1 alias_root) (\<lambda>pml4.
         rbind (walk_to_leaf m1 pml4 virt) (\<lambda>l.
         rbind (expect l) (\<lambda>leaf. update_leaf m1 leaf (set_flags RW_FLAG True))))))
       else Inr m1)
     else Inr (m\<lparr>mapped_pages := btm_remove key (mapped_pages m)\<rparr>))))"

definition unmap :: "mapper \<Rightarrow> usize \<Rightarrow> ((unit, paging_error) rust_result \<times> mapper) res" where
  "unmap m virt =
     rbind (paging_structure_base (environment m)) (\<lambda>pml4.
     rbind (walk_to_leaf m pml4 virt) (\<lambda>l.
     rbind (expect l) (\<lambda>leaf.
     if virt AND page_align_mask (leaf_page_size leaf) \<noteq> 0
     then Inr (Err (MisalignedAddress virt (leaf_page_size leaf)), m)
     else
     rbind (update_leaf m leaf (\<lambda>_. entry_default)) (\<lambda>m1.
     rbind (if drop_bit 51 virt = 0 then unmap_account m1 (leaf_phys_addr leaf) virt else Inr m1) (\<lambda>m2.
     Inr (Ok (), m2))))))"

definition alloc_page_at :: "mapper \<Rightarrow> usize \<Rightarrow> ((unit, paging_error) rust_result \<times> mapper) res" where
  "alloc_page_at m virt =
     rbind (allocate (page_alloc m) 12) (\<lambda>(b, pa).
     let m1 = m\<lparr>page_alloc := pa\<rparr> in
     case b of
       Some b \<Rightarrow> mapper_map m1 (get_addr b) virt
     | None \<Rightarrow> Inl ExplicitPanic)"

definition map_mmio :: "mapper \<Rightarrow> usize \<Rightarrow> mapper res" where
  "map_mmio m phys =
     rbind (checked_add phys MMIO_BASE) (\<lambda>virt.
     rbind (mapper_map m phys virt) (\<lambda>(_, m1). Inr m1))"

subsection \<open>Forking an address space\<close>

fun clone_shift :: "nat \<Rightarrow> nat res" where
  "clone_shift level =
     (if level = 3 then Inr 30 else if level = 2 then Inr 21 else if level = 1 then Inr 12 else Inl ExplicitPanic)"

function recursively_clone :: "nat \<Rightarrow> mapper \<Rightarrow> usize \<Rightarrow> usize \<Rightarrow> usize \<Rightarrow> usize \<Rightarrow> mapper res" where
  "recursively_clone level m src dst dst_cr3 virt =
     rfold (\<lambda>i m.
       rbind (read_entry m src i) (\<lambda>src_entry.
       let src_addr = entry_get_addr src_entry; src_flags = get_flags src_entry ALL_FLAGS in
       rbind (clone_shift level) (\<lambda>shift.
       let virt' = virt OR push_bit shift i in
       if level = 1 \<or> src_flags AND PS_FLAG = PS_FLAG
       then
         if src_flags AND PRESENT_FLAG \<noteq> PRESENT_FLAG then Inr m
         else
           rbind (write_entry m dst i (set_addr src_addr)) (\<lambda>m.
           rbind (write_entry m dst i (set_flags src_flags True)) (\<lambda>m.
           rbind (write_entry m dst i (set_flags RW_FLAG False)) (\<lambda>m.
           rbind (write_entry m src i (set_flags RW_FLAG False)) (\<lambda>m.
           rbind (expect (map_of (mapped_pages m) src_addr)) (\<lambda>mp.
           Inr (m\<lparr>mapped_pages := btm_insert src_addr
                    (mp\<lparr>mp_refs := mp_refs mp + 1,
                        aliasing_paging_structures := bts_insert (dst_cr3, virt') (aliasing_paging_structures mp)\<rparr>)
                    (mapped_pages m)\<rparr>))))))
       else
         if src_flags AND PRESENT_FLAG \<noteq> PRESENT_FLAG then Inr m
         else
           let (dst_table, m) = new_table m in
           rbind (struct_phys_addr (psb (environment m)) dst_table) (\<lambda>dst_table_addr.
           rbind (write_entry m dst i (set_addr dst_table_addr)) (\<lambda>m.
           rbind (write_entry m dst i (set_flags src_flags True)) (\<lambda>m.
           rbind (write_entry m dst i (set_flags RW_FLAG True)) (\<lambda>m.
           rbind (table_for_phys_addr m src_addr) (\<lambda>src_table.
           recursively_clone (level - 1) m src_table dst_table dst_cr3 virt'))))))))
     (map of_nat [0..<512]) m"
  by pat_completeness auto
termination
  by (relation "measure (\<lambda>(level, _). level)") (auto split: if_splits)

declare recursively_clone.simps [simp del]

text \<open>The two loops of \<open>fork\<close>: the kernel half is shared, the user half is cloned.\<close>

definition fork_kernel_entry :: "usize \<Rightarrow> usize \<Rightarrow> usize \<Rightarrow> mapper \<Rightarrow> mapper res" where
  "fork_kernel_entry src_pml4 dst_pml4 i m =
     rbind (read_entry m src_pml4 i) (\<lambda>entry.
     let entry_addr = entry_get_addr entry; flags = get_flags entry ALL_FLAGS in
     if flags AND PRESENT_FLAG \<noteq> PRESENT_FLAG then Inr m
     else
       rbind (write_entry m dst_pml4 i (set_addr entry_addr)) (\<lambda>m1.
       write_entry m1 dst_pml4 i (set_flags flags True)))"

definition fork_user_entry :: "usize \<Rightarrow> usize \<Rightarrow> usize \<Rightarrow> mapper \<Rightarrow> mapper res" where
  "fork_user_entry src_pml4 dst_pml4 i m =
     rbind (read_entry m src_pml4 i) (\<lambda>entry.
     let flags = get_flags entry ALL_FLAGS in
     if flags AND PRESENT_FLAG \<noteq> PRESENT_FLAG then Inr m
     else
       let (dst_pdpt, m1) = new_table m in
       rbind (write_entry m1 dst_pml4 i (set_flags flags True)) (\<lambda>m2.
       rbind (struct_phys_addr (psb (environment m2)) dst_pdpt) (\<lambda>dst_table_addr.
       rbind (write_entry m2 dst_pml4 i (set_addr dst_table_addr)) (\<lambda>m3.
       rbind (struct_phys_addr (psb (environment m3)) dst_pml4) (\<lambda>dst_cr3.
       rbind (read_entry m3 src_pml4 i) (\<lambda>entry.
       rbind (table_for_phys_addr m3 (entry_get_addr entry)) (\<lambda>src_pdpt.
       recursively_clone 3 m3 src_pdpt dst_pdpt dst_cr3 (push_bit 39 i))))))))"

definition fork :: "mapper \<Rightarrow> usize \<Rightarrow> (usize \<times> mapper) res" where
  "fork m src_pml4 =
     (let (dst_pml4, m1) = new_table m in
      rbind (rfold (fork_kernel_entry src_pml4 dst_pml4) (map of_nat [256..<512]) m1) (\<lambda>m2.
      rbind (rfold (fork_user_entry src_pml4 dst_pml4) (map of_nat [0..<256]) m2) (\<lambda>m3.
      rbind (struct_phys_addr (psb (environment m3)) dst_pml4) (\<lambda>a. Inr (a, m3)))))"

subsection \<open>Copy on write\<close>

definition cow_tmp_map :: "mapper \<Rightarrow> usize \<Rightarrow> (block \<times> mapper) res" where
  "cow_tmp_map m scratch =
     rbind (allocate (page_alloc m) 12) (\<lambda>(b, pa).
     rbind (expect b) (\<lambda>new_page.
     rbind (mapper_map (m\<lparr>page_alloc := pa\<rparr>) (get_addr new_page) scratch) (\<lambda>(_, m1).
     Inr (new_page, m1))))"

text \<open>
  \<open>ptr::copy_nonoverlapping(src, dest, 0x1000)\<close>, byte by byte. The processor finds the physical
  address of a byte by walking the same tables as \<open>phys_addr\<close>; a byte without translation faults.
\<close>

definition copy_byte :: "usize \<Rightarrow> usize \<Rightarrow> usize \<Rightarrow> mapper \<Rightarrow> mapper res" where
  "copy_byte src dest i m =
     rbind (phys_addr m (src + i)) (\<lambda>s.
     rbind (phys_addr m (dest + i)) (\<lambda>d.
     case (s, d) of
       (Some s, Some d) \<Rightarrow> Inr (m\<lparr>memory := (memory m)(d := memory m s)\<rparr>)
     | _ \<Rightarrow> Inl InvalidAccess))"

definition cow_copy :: "mapper \<Rightarrow> usize \<Rightarrow> usize \<Rightarrow> mapper res" where
  "cow_copy m src dest = rfold (copy_byte src dest) (map of_nat [0..<0x1000]) m"

definition cow :: "mapper \<Rightarrow> usize \<Rightarrow> usize \<Rightarrow> ((unit, paging_error) rust_result \<times> mapper) res" where
  "cow m virt scratch =
     rbind (paging_structure_base (environment m)) (\<lambda>pml4.
     rbind (walk_to_leaf m pml4 virt) (\<lambda>l.
     rbind (expect l) (\<lambda>leaf.
     rbind (case leaf_page_size leaf of
              Gigantic \<Rightarrow> Inl ExplicitPanic
            | Huge \<Rightarrow> Inl ExplicitPanic
            | Normal \<Rightarrow>
                rbind (expect (map_of (mapped_pages m) (leaf_phys_addr leaf))) (\<lambda>src_phys_page.
                rassert (mp_refs src_phys_page > 1))) (\<lambda>_.
     rbind (cow_tmp_map m scratch) (\<lambda>(new_page, m1).
     rbind (cow_copy m1 virt scratch) (\<lambda>m2.
     rbind (unmap m2 virt) (\<lambda>(r, m3).
     case r of Err e \<Rightarrow> Inr (Err e, m3) | Ok _ \<Rightarrow>
     rbind (unmap m3 scratch) (\<lambda>(r, m4).
     case r of Err e \<Rightarrow> Inr (Err e, m4) | Ok _ \<Rightarrow>
     mapper_map m4 (get_addr new_page) virt))))))))"

end
