(* ===== verification/Mapper_Walk.thy ===== *)
theory Mapper_Walk
  imports Mapper
begin

text \<open>
  What a walk of the page tables does: the region the tables lie in, the reference walk along a list
  of indices that the unrolled \<open>walk_to_leaf\<close> is equal to, the invariant that gives every table the
  path of indices that leads to it, and how single writes to entries change the walks.
\<close>

section \<open>The region of the tables\<close>

definition table_count :: "mapper \<Rightarrow> nat" where
  "table_count m = unat (region_length m) div 2 ^ 12"

definition region_ok :: "mapper \<Rightarrow> bool" where
  "region_ok m \<longleftrightarrow>
     psb (environment m) \<le> base m \<and> aligned (base m - psb (environment m)) 12 \<and>
     unat (base m) + unat (region_length m) < 2 ^ 64 \<and>
     unat (base m - psb (environment m)) + unat (region_length m) < 2 ^ 52"

lemma valid_table_iff:
  assumes "unat (base m) + unat (region_length m) < 2 ^ 64"
  shows "valid_table m p \<longleftrightarrow> (\<exists>i<table_count m. p = base_add m (of_nat i))"
proof
  assume v: "valid_table m p"
  define i where "i = unat (drop_bit 12 (p - base m))"
  have "i < table_count m"
    using v unfolding valid_table_def i_def table_count_def word_less_nat_alt unat_drop_bit_eq
    by (simp add: drop_bit_eq_div)
  moreover have "push_bit 12 (drop_bit 12 (p - base m)) + take_bit 12 (p - base m) = p - base m"
    by (metis add.commute bits_ident)
  then have "p - base m = drop_bit 12 (p - base m) * 2 ^ 12" 
    using v by (simp add: valid_table_def push_bit_eq_mult)
  then have "p - base m = of_nat i * 0x1000" by (simp add: i_def)
  then have "p = base_add m (of_nat i)" by (simp add: base_add_def algebra_simps)
  ultimately show "\<exists>i<table_count m. p = base_add m (of_nat i)" by blast
next
  assume "\<exists>i<table_count m. p = base_add m (of_nat i)"
  then obtain i where i: "i < table_count m" "p - base m = of_nat i * 2 ^ 12" by (auto simp: base_add_def)
  have le: "Suc i * 2 ^ 12 \<le> unat (region_length m)"
    using i(1) unfolding table_count_def by (simp add: less_eq_div_iff_mult_less_eq Suc_le_eq[symmetric] del: mult_Suc)
  then have u: "unat (p - base m) = i * 2 ^ 12"
    using i(2) assms by (simp add: unat_word_ariths unat_of_nat)
  have "take_bit 12 (p - base m) = 0" 
    unfolding i(2) push_bit_eq_mult[symmetric] by (rule bit_eqI) (auto simp: bit_take_bit_iff bit_push_bit_iff)
  moreover have "unat (drop_bit 12 (p - base m)) = i"
    unfolding unat_drop_bit_eq u by (simp add: drop_bit_eq_div)
  moreover have "unat (drop_bit 12 (region_length m)) = table_count m"
    unfolding drop_bit_eq_div table_count_def unat_div by simp
  ultimately show "valid_table m p" using i(1) by (simp add: valid_table_def word_less_nat_alt)
qed


lemma table_count_le: "i < table_count m \<Longrightarrow> Suc i * 2 ^ 12 \<le> unat (region_length m)"
  unfolding table_count_def by (simp add: less_eq_div_iff_mult_less_eq Suc_le_eq[symmetric] del: mult_Suc)

lemma table_unat:
  assumes "region_ok m" and "i < table_count m"
  shows "unat (base_add m (of_nat i)) = unat (base m) + i * 2 ^ 12"
proof -
  have "Suc i * 2 ^ 12 \<le> unat (region_length m)" using table_count_le[OF assms(2)] .
  then have le: "unat (base m) + i * 2 ^ 12 < 2 ^ 64" "i * 2 ^ 12 < 2 ^ 64" "i < 2 ^ 64"
    using assms(1) unfolding region_ok_def by simp_all
  have "unat (of_nat i * 0x1000 :: usize) = i * 2 ^ 12"
    using le(2,3) by (simp add: unat_word_ariths unat_of_nat)
  then show ?thesis using le(1) by (simp add: base_add_def unat_add_usize)
qed

lemma base_add_inj:
  assumes "region_ok m" and "i < table_count m" and "j < table_count m"
  shows "base_add m (of_nat i) = base_add m (of_nat j) \<longleftrightarrow> i = j"
proof
  assume "base_add m (of_nat i) = base_add m (of_nat j)"
  then have "unat (base m) + i * 2 ^ 12 = unat (base m) + j * 2 ^ 12"
    using table_unat[OF assms(1,2)] table_unat[OF assms(1,3)] by metis
  then show "i = j" by simp
qed simp

text \<open>A table's physical address survives being stored in an entry, and leads back to the table.\<close>

lemma table_phys_roundtrip:
  assumes "region_ok m" and "valid_table m p"
  obtains a where "struct_phys_addr (psb (environment m)) p = Inr a" and "a AND MASK_51_12 = a"
    and "table_for_phys_addr m a = Inr p"
proof -
  let ?psb = "psb (environment m)"
  have r: "unat ?psb \<le> unat (base m)" "2 ^ 12 dvd unat (base m - ?psb)"
    "unat (base m) + unat (region_length m) < 2 ^ 64" "unat (base m - ?psb) + unat (region_length m) < 2 ^ 52"
    using assms(1) unfolding region_ok_def aligned_unat word_le_nat_alt by auto
  have bp: "unat (base m - ?psb) = unat (base m) - unat ?psb" using r(1) by (simp add: unat_sub word_le_nat_alt)
  obtain i where i: "i < table_count m" "p = base_add m (of_nat i)" using assms valid_table_iff r(3) by blast
  have up: "unat p = unat (base m) + i * 2 ^ 12" using table_unat[OF assms(1) i(1)] i(2) by simp
  have le: "Suc i * 2 ^ 12 \<le> unat (region_length m)" using table_count_le[OF i(1)] .
  define a where "a = p - ?psb"
  have pp: "?psb \<le> p" using r(1) up by (simp add: word_le_nat_alt)
  then have ua: "unat a = unat (base m - ?psb) + i * 2 ^ 12" unfolding a_def using up bp r(1) by (simp add: unat_sub)
  have al: "aligned a 12" using r(2) unfolding aligned_unat ua by (intro dvd_add) simp_all
  have "unat a < 2 ^ 52" using ua le r(4) by simp
  then have small: "take_bit 52 a = a" by (simp add: word_unat_eq_iff unsigned_take_bit_eq take_bit_nat_eq_self)
  have "bit a j \<Longrightarrow> 12 \<le> j \<and> j < 52" for j
    using al small bit_take_bit_iff[of 52 a j] unfolding aligned_bits by (metis not_le)
  then have mask: "a AND MASK_51_12 = a" by (intro bit_eqI) (auto simp: bit_and_iff entry_bits)
  have sp: "struct_phys_addr ?psb p = Inr a" using pp by (simp add: struct_phys_addr_def checked_sub_def a_def)
  have "unat ?psb + unat a = unat p" unfolding a_def using pp by (simp add: unat_sub word_le_nat_alt)
  moreover have "unat p < 2 ^ 64" using unat_less_exp[of p] by simp
  ultimately have add: "checked_add ?psb a = Inr p" by (simp add: a_def)
  have bl: "base m \<le> p" using up by (simp add: word_le_nat_alt)
  have "unat (p - base m) = i * 2 ^ 12" using up bl by (simp add: unat_sub)
  then have "unat ((p - base m) div 0x1000) = i" by (simp add: unat_div)
  then have "(p - base m) div 0x1000 = of_nat i" by (auto simp flip: word_unat_eq_iff)
  then have "table_for_phys_addr m a = Inr p"
    using add bl i(2) by (simp add: table_for_phys_addr_def checked_sub_def)
  then show ?thesis using that sp mask by blast
qed

section \<open>The reference walk\<close>

text \<open>
  \<open>descend m d p js\<close> follows the indices \<open>js\<close> from the table \<open>p\<close> at depth \<open>d\<close>. It ends at an entry that
  is not present, at an entry below the root that maps a large page, or at the last index.
\<close>

fun descend :: "mapper \<Rightarrow> nat \<Rightarrow> usize \<Rightarrow> nat list \<Rightarrow> (usize \<times> nat \<times> nat \<times> usize) option res" where
  "descend m d p [] = Inl Diverges"
| "descend m d p (i # js) =
     (if \<not> valid_table m p then Inl InvalidAccess
      else let e = tables m p i in
        if \<not> is_present e then Inr None
        else if js = [] \<or> (0 < d \<and> is_leaf e) then Inr (Some (p, i, d, entry_get_addr e))
        else rbind (table_for_phys_addr m (entry_get_addr e)) (\<lambda>q. descend m (Suc d) q js))"

definition path_of :: "usize \<Rightarrow> nat list" where
  "path_of v = map (\<lambda>L. unat (entry_idx L v)) [PML4, PDPT, PD, PT]"

fun depth_size :: "nat \<Rightarrow> page_size" where
  "depth_size d = (if d = 1 then Gigantic else if d = 2 then Huge else Normal)"

fun leaf_at :: "usize \<times> nat \<times> nat \<times> usize \<Rightarrow> leaf_entry" where
  "leaf_at (p, i, d, a) = \<lparr>leaf_table = p, leaf_phys_addr = a, leaf_idx = of_nat i, leaf_page_size = depth_size d\<rparr>"

lemma walk_eq:
  "walk m L p v =
     (if \<not> valid_table m p then Inl InvalidAccess
      else let e = tables m p (unat (entry_idx L v)) in
        Inr (if is_present e then Some (entry_get_addr e, get_flags e ALL_FLAGS) else None))"
  by (simp add: walk_def read_entry_def Let_def)

lemma rbind_if: "rbind (if c then a else b) f = (if c then rbind a f else rbind b f)" by simp
lemma rtry_if: "rtry (if c then a else b) f = (if c then rtry a f else rtry b f)" by simp

lemma walk_to_leaf_descend:
  "walk_to_leaf m pml4 v = rbind (descend m 0 pml4 (path_of v)) (\<lambda>r. Inr (map_option leaf_at r))"
  unfolding walk_to_leaf_def walk_eq path_of_def
  by (auto simp: Let_def rbind_assoc rtry_if rbind_if intro!: rbind_cong)

definition fresh_table :: "mapper \<Rightarrow> usize \<Rightarrow> bool" where
  "fresh_table m p \<longleftrightarrow> (\<exists>i. unat (next_idx m) \<le> i \<and> i < table_count m \<and> p = base_add m (of_nat i))"

definition tables_ok :: "mapper \<Rightarrow> (usize \<rightharpoonup> nat list) \<Rightarrow> bool" where
  "tables_ok m ty \<longleftrightarrow>
     region_ok m \<and>
     (\<forall>p w. ty p = Some w \<longrightarrow> valid_table m p \<and> \<not> fresh_table m p \<and> length w \<le> 3) \<and>
     (\<forall>p w i. ty p = Some w \<and> length w < 3 \<and> i < 512 \<and> is_present (tables m p i) \<and>
        (w = [] \<or> \<not> is_leaf (tables m p i)) \<longrightarrow>
        (\<exists>q. table_for_phys_addr m (entry_get_addr (tables m p i)) = Inr q \<and> ty q = Some (w @ [i]))) \<and>
     (\<forall>p w i. ty p = Some w \<and> length w < 3 \<and> i < 512 \<and> is_leaf (tables m p i) \<longrightarrow> is_present (tables m p i)) \<and>
     (\<forall>p. fresh_table m p \<longrightarrow> tables m p = paging_struct_default)"

lemma tables_okD:
  assumes "tables_ok m ty"
  shows "region_ok m" and "ty p = Some w \<Longrightarrow> valid_table m p" and "ty p = Some w \<Longrightarrow> \<not> fresh_table m p"
    and "ty p = Some w \<Longrightarrow> length w \<le> 3"
    and "fresh_table m p \<Longrightarrow> tables m p = paging_struct_default"
    and "ty p = Some w \<Longrightarrow> length w < 3 \<Longrightarrow> i < 512 \<Longrightarrow> is_present (tables m p i) \<Longrightarrow>
      w = [] \<or> \<not> is_leaf (tables m p i) \<Longrightarrow>
      \<exists>q. table_for_phys_addr m (entry_get_addr (tables m p i)) = Inr q \<and> ty q = Some (w @ [i])"
    and "ty p = Some w \<Longrightarrow> length w < 3 \<Longrightarrow> i < 512 \<Longrightarrow> is_leaf (tables m p i) \<Longrightarrow> is_present (tables m p i)"
  using assms unfolding tables_ok_def by blast+

lemma descend_total:
  "tables_ok m ty \<Longrightarrow> ty p = Some w \<Longrightarrow> length w + length js = 4 \<Longrightarrow> js \<noteq> [] \<Longrightarrow> \<forall>i\<in>set js. i < 512 \<Longrightarrow>
   \<exists>r. descend m (length w) p js = Inr r \<and>
     (\<forall>q j d a. r = Some (q, j, d, a) \<longrightarrow> (\<exists>w'. ty q = Some w' \<and> d = length w' \<and>
        (\<exists>u. w' @ [j] @ u = w @ js) \<and> is_present (tables m q j) \<and> a = entry_get_addr (tables m q j)))"
proof (induction js arbitrary: p w)
  case (Cons i js)
  let ?e = "tables m p i"
  show ?case
  proof (cases "is_present ?e \<and> js \<noteq> [] \<and> (w = [] \<or> \<not> is_leaf ?e)")
    case True
    then have len: "length w < 3" using Cons.prems(3) by (cases js) auto
    obtain q where q: "table_for_phys_addr m (entry_get_addr ?e) = Inr q" "ty q = Some (w @ [i])"
      using tables_okD(6)[OF Cons.prems(1,2) len, of i] True Cons.prems(5) by auto
    show ?thesis
      using Cons.IH[OF Cons.prems(1) q(2)] Cons.prems(3,5) True q(1) tables_okD(2)[OF Cons.prems(1,2)]
      by auto
  next
    case False
    then show ?thesis using Cons.prems tables_okD(2)[OF Cons.prems(1,2)] by (auto simp: Let_def)
  qed
qed simp

section \<open>Writes to entries\<close>

definition upd :: "mapper \<Rightarrow> usize \<Rightarrow> nat \<Rightarrow> paging_struct_entry \<Rightarrow> mapper" where
  "upd m p i e = m\<lparr>tables := (tables m)(p := (tables m p)(i := e))\<rparr>"

lemma upd_simps [simp]:
  "base (upd m p i e) = base m" "region_length (upd m p i e) = region_length m"
  "next_idx (upd m p i e) = next_idx m" "mapped_pages (upd m p i e) = mapped_pages m"
  "page_alloc (upd m p i e) = page_alloc m" "environment (upd m p i e) = environment m"
  "memory (upd m p i e) = memory m"
  "tables (upd m p i e) = (tables m)(p := (tables m p)(i := e))"
  by (simp_all add: upd_def)

lemma upd_upd [simp]: "upd (upd m p i e) p i e' = upd m p i e'"
  by (simp add: upd_def)

text \<open>What the walk functions use of a mapper besides its tables.\<close>

definition same_region :: "mapper \<Rightarrow> mapper \<Rightarrow> bool" where
  "same_region m m' \<longleftrightarrow>
     base m' = base m \<and> region_length m' = region_length m \<and> psb (environment m') = psb (environment m)"

lemma same_region_simps:
  assumes "same_region m m'"
  shows "valid_table m' p = valid_table m p" "table_for_phys_addr m' a = table_for_phys_addr m a"
    "region_ok m' = region_ok m" "base_add m' n = base_add m n" "table_count m' = table_count m"
  using assms by (simp_all add: same_region_def valid_table_def table_for_phys_addr_def region_ok_def
      base_add_def table_count_def)

lemma same_region_refl [simp]: "same_region m m" by (simp add: same_region_def)

lemma same_region_trans: "same_region m m' \<Longrightarrow> same_region m' m'' \<Longrightarrow> same_region m m''"
  by (simp add: same_region_def)

lemma same_region_upd [simp]: "same_region m (upd m p i e)" by (simp add: same_region_def)

lemma upd_region [simp]:
  "valid_table (upd m p i e) q = valid_table m q" "table_for_phys_addr (upd m p i e) a = table_for_phys_addr m a"
  "region_ok (upd m p i e) = region_ok m" "base_add (upd m p i e) n = base_add m n"
  "table_count (upd m p i e) = table_count m"
  by (simp_all add: same_region_simps[OF same_region_upd])

lemma fresh_table_upd [simp]: "fresh_table (upd m p i e) q = fresh_table m q"
  by (simp add: fresh_table_def)

lemma write_entry_upd:
  "valid_table m p \<Longrightarrow> idx < 512 \<Longrightarrow> write_entry m p idx f = Inr (upd m p (unat idx) (f (tables m p (unat idx))))"
  by (simp add: write_entry_def get_entry_mut_def upd_def)

text \<open>A write does not change a walk that does not go through the entry written.\<close>

lemma descend_upd_other:
  "tables_ok m ty \<Longrightarrow> ty q = Some w' \<Longrightarrow> ty p = Some w \<Longrightarrow> length w + length js = 4 \<Longrightarrow>
   \<forall>i\<in>set js. i < 512 \<Longrightarrow> \<nexists>u. w' @ [j] @ u = w @ js \<Longrightarrow>
   descend (upd m q j e) (length w) p js = descend m (length w) p js"
proof (induction js arbitrary: p w)
  case (Cons i js)
  have ne: "\<not> (p = q \<and> i = j)" using Cons.prems(2,3,6) by auto
  let ?e = "tables m p i"
  have same: "tables (upd m q j e) p i = ?e" using ne by auto
  show ?case
  proof (cases "is_present ?e \<and> js \<noteq> [] \<and> (w = [] \<or> \<not> is_leaf ?e)")
    case True
    then have len: "length w < 3" using Cons.prems(4) by (cases js) auto
    obtain t where t: "table_for_phys_addr m (entry_get_addr ?e) = Inr t" "ty t = Some (w @ [i])"
      using tables_okD(6)[OF Cons.prems(1,3) len, of i] True Cons.prems(5) by auto
    have "descend (upd m q j e) (length (w @ [i])) t js = descend m (length (w @ [i])) t js"
      using Cons.prems by (intro Cons.IH t(2)) auto
    then show ?thesis using t(1) same by (auto simp: Let_def)
  next
    case False
    then show ?thesis using same by (auto simp: Let_def)
  qed
qed simp

text \<open>Following present entries from table to table.\<close>

fun reach :: "mapper \<Rightarrow> nat \<Rightarrow> usize \<Rightarrow> nat list \<Rightarrow> usize \<Rightarrow> bool" where
  "reach m d p [] q \<longleftrightarrow> p = q"
| "reach m d p (i # js) q \<longleftrightarrow>
     valid_table m p \<and> is_present (tables m p i) \<and> (d = 0 \<or> \<not> is_leaf (tables m p i)) \<and>
     (\<exists>t. table_for_phys_addr m (entry_get_addr (tables m p i)) = Inr t \<and> reach m (Suc d) t js q)"

lemma reach_append: "reach m d p (js @ ks) q \<longleftrightarrow> (\<exists>t. reach m d p js t \<and> reach m (d + length js) t ks q)"
  by (induction js arbitrary: d p) auto

lemma descend_reach:
  "reach m d p js q \<Longrightarrow> ks \<noteq> [] \<Longrightarrow> descend m d p (js @ ks) = descend m (d + length js) q ks"
  by (induction js arbitrary: d p) (auto simp: Let_def)

lemma reach_typed:
  "tables_ok m ty \<Longrightarrow> ty p = Some w \<Longrightarrow> reach m (length w) p js q \<Longrightarrow> length w + length js \<le> 3 \<Longrightarrow>
   \<forall>i\<in>set js. i < 512 \<Longrightarrow> ty q = Some (w @ js)"
proof (induction js arbitrary: p w)
  case (Cons i js)
  obtain t where t: "table_for_phys_addr m (entry_get_addr (tables m p i)) = Inr t" "reach m (Suc (length w)) t js q"
    "is_present (tables m p i)" "w = [] \<or> \<not> is_leaf (tables m p i)"
    using Cons.prems(3) by auto
  then have "ty t = Some (w @ [i])" using tables_okD(6)[OF Cons.prems(1,2), of i] Cons.prems(4,5) by auto
  then show ?case using Cons.IH[of t "w @ [i]"] Cons.prems t(2) by auto
qed simp

text \<open>Entries that are present and unchanged keep the tables reached.\<close>

lemma reach_mono:
  assumes "same_region m m'" and "\<And>p i. is_present (tables m p i) \<Longrightarrow> tables m' p i = tables m p i"
  shows "reach m d p js q \<Longrightarrow> reach m' d p js q"
  by (induction js arbitrary: d p) (auto simp: assms same_region_simps[OF assms(1)])

lemma reach_upd:
  "tables_ok m ty \<Longrightarrow> ty p = Some w \<Longrightarrow> ty q = Some w' \<Longrightarrow> length w + length js \<le> length w' \<Longrightarrow>
   \<forall>i\<in>set js. i < 512 \<Longrightarrow> reach m (length w) p js t \<Longrightarrow> reach (upd m q j e) (length w) p js t"
proof (induction js arbitrary: p w)
  case (Cons i js)
  then have "p \<noteq> q" by auto
  then have same: "tables (upd m q j e) p i = tables m p i" by simp
  obtain s where s: "table_for_phys_addr m (entry_get_addr (tables m p i)) = Inr s" "reach m (Suc (length w)) s js t"
    "is_present (tables m p i)" "w = [] \<or> \<not> is_leaf (tables m p i)" "valid_table m p"
    using Cons.prems(6) by auto
  have "length w < 3" using Cons.prems(4) tables_okD(4)[OF Cons.prems(1,3)] by auto
  then have "ty s = Some (w @ [i])" using tables_okD(6)[OF Cons.prems(1,2), of i] Cons.prems(5) s by auto
  then show ?case using Cons.IH[of s "w @ [i]"] Cons.prems s same by auto
qed simp

lemma tables_ok_upd:
  assumes ok: "tables_ok m ty" and p: "ty p = Some w"
    and e: "length w < 3 \<Longrightarrow> i < 512 \<Longrightarrow> is_leaf e \<longrightarrow> is_present e"
    and q: "length w < 3 \<Longrightarrow> i < 512 \<Longrightarrow> is_present e \<Longrightarrow> w = [] \<or> \<not> is_leaf e \<Longrightarrow>
      \<exists>q. table_for_phys_addr m (entry_get_addr e) = Inr q \<and> ty q = Some (w @ [i])"
  shows "tables_ok (upd m p i e) ty"
  unfolding tables_ok_def
proof (intro conjI allI impI)
  fix p' assume "fresh_table (upd m p i e) p'"
  then have "fresh_table m p'" "p' \<noteq> p" using tables_okD(3)[OF ok p] by auto
  then show "tables (upd m p i e) p' = paging_struct_default" using tables_okD(5)[OF ok] by simp
next
  fix p' w' i' assume h: "ty p' = Some w' \<and> length w' < 3 \<and> i' < 512 \<and> is_leaf (tables (upd m p i e) p' i')"
  then show "is_present (tables (upd m p i e) p' i')"
    using tables_okD(7)[OF ok, of p' w' i'] e p by (auto split: if_splits)
next
  fix p' w' i' assume h: "ty p' = Some w' \<and> length w' < 3 \<and> i' < 512 \<and> is_present (tables (upd m p i e) p' i') \<and>
     (w' = [] \<or> \<not> is_leaf (tables (upd m p i e) p' i'))"
  show "\<exists>q. table_for_phys_addr (upd m p i e) (entry_get_addr (tables (upd m p i e) p' i')) = Inr q \<and> ty q = Some (w' @ [i'])"
  proof (cases "p' = p \<and> i' = i")
    case True
    then show ?thesis using h q p by auto
  next
    case False
    then have "tables (upd m p i e) p' i' = tables m p' i'" by auto
    then show ?thesis using tables_okD(6)[OF ok, of p' w' i'] h by simp
  qed
qed (use tables_okD[OF ok] in auto)

lemma fresh_next:
  assumes "region_ok m" and "unat (next_idx m) < table_count m"
  shows "fresh_table m (base_add m (next_idx m))"
    and "fresh_table (m\<lparr>next_idx := next_idx m + 1\<rparr>) p \<longleftrightarrow> fresh_table m p \<and> p \<noteq> base_add m (next_idx m)"
proof -
  let ?n = "unat (next_idx m)"
  have n: "of_nat ?n = next_idx m" by simp
  show f: "fresh_table m (base_add m (next_idx m))" unfolding fresh_table_def using assms(2) n by (metis order_refl)
  have "table_count m < 2 ^ 64"
    using assms(1) div_le_dividend[of "unat (region_length m)" "2 ^ 12"] unfolding region_ok_def table_count_def by linarith
  then have suc: "unat (next_idx m + 1) = Suc ?n" using assms(2) by (simp add: unat_word_ariths)
  have sr: "same_region m (m\<lparr>next_idx := next_idx m + 1\<rparr>)" by (simp add: same_region_def)
  show "fresh_table (m\<lparr>next_idx := next_idx m + 1\<rparr>) p \<longleftrightarrow> fresh_table m p \<and> p \<noteq> base_add m (next_idx m)" (is "?l = ?r")
  proof
    assume ?l
    then obtain i where i: "Suc ?n \<le> i" "i < table_count m" "p = base_add m (of_nat i)"
      unfolding fresh_table_def by (auto simp: suc same_region_simps[OF sr])
    then have "p \<noteq> base_add m (next_idx m)" using base_add_inj[OF assms(1) i(2) assms(2)] n by auto
    then show ?r using i Suc_leD[OF i(1)] unfolding fresh_table_def by blast
  next
    assume ?r
    then obtain i where i: "?n \<le> i" "i < table_count m" "p = base_add m (of_nat i)" "i \<noteq> ?n"
      unfolding fresh_table_def by (metis n)
    then show ?l unfolding fresh_table_def by (intro exI[of _ i]) (simp add: suc same_region_simps[OF sr])
  qed
qed

lemma fresh_valid: "region_ok m \<Longrightarrow> fresh_table m p \<Longrightarrow> valid_table m p"
  using valid_table_iff[of m p] unfolding fresh_table_def region_ok_def by auto

text \<open>Taking the next table gives it a path.\<close>

lemma tables_ok_new:
  assumes "tables_ok m ty" and "unat (next_idx m) < table_count m" and "length w \<le> 3"
  defines "q \<equiv> base_add m (next_idx m)"
  shows "tables_ok (m\<lparr>next_idx := next_idx m + 1\<rparr>) (ty(q \<mapsto> w))" and "ty q = None"
proof -
  let ?m = "m\<lparr>next_idx := next_idx m + 1\<rparr>"
  note reg = tables_okD(1)[OF assms(1)]
  note f = fresh_next[OF reg assms(2), folded q_def]
  have sr: "same_region m ?m" by (simp add: same_region_def)
  show q: "ty q = None" using f(1) tables_okD(3)[OF assms(1), of q] by (cases "ty q") auto
  have v: "valid_table m q" using fresh_valid[OF reg f(1)] .
  have zero: "tables m q = paging_struct_default" using tables_okD(5)[OF assms(1) f(1)] .
  show "tables_ok ?m (ty(q \<mapsto> w))"
    unfolding tables_ok_def same_region_simps[OF sr] f(2)
  proof (intro conjI allI impI)
    fix p w' i
    assume h: "(ty(q \<mapsto> w)) p = Some w' \<and> length w' < 3 \<and> i < 512 \<and> is_present (tables ?m p i) \<and> (w' = [] \<or> \<not> is_leaf (tables ?m p i))"
    then have "p \<noteq> q" using zero by (auto simp: paging_struct_default_def)
    then obtain t where t: "table_for_phys_addr m (entry_get_addr (tables m p i)) = Inr t" "ty t = Some (w' @ [i])"
      using tables_okD(6)[OF assms(1), of p w' i] h by auto
    then have "t \<noteq> q" using q by auto
    then show "\<exists>q'. table_for_phys_addr m (entry_get_addr (tables ?m p i)) = Inr q' \<and> (ty(q \<mapsto> w)) q' = Some (w' @ [i])"
      using t by auto
  qed (use tables_okD[OF assms(1)] v zero assms(3) reg in \<open>auto simp: paging_struct_default_def split: if_splits\<close>)
qed


section \<open>Walking or creating a table\<close>

text \<open>Linking an empty table into an entry that was not present changes no walk.\<close>

lemma descend_link:
  assumes ok: "tables_ok m ty" and sr: "same_region m m'" and p: "ty p = Some w" and len: "length w < 3"
    and np: "\<not> is_present (tables m p i)"
    and link: "is_present (tables m' p i)" "\<not> is_leaf (tables m' p i)"
      "table_for_phys_addr m (entry_get_addr (tables m' p i)) = Inr q"
    and q: "tables m' q = paging_struct_default" "valid_table m q"
    and same: "\<And>p' j. \<not> (p' = p \<and> j = i) \<Longrightarrow> tables m' p' j = tables m p' j"
  shows "ty p' = Some w' \<Longrightarrow> length w' + length js = 4 \<Longrightarrow> \<forall>i\<in>set js. i < 512 \<Longrightarrow>
    descend m' (length w') p' js = descend m (length w') p' js"
proof (induction js arbitrary: p' w')
  case (Cons j js)
  note vp = tables_okD(2)[OF ok Cons.prems(1)]
  consider "p' = p \<and> j = i" | "\<not> (p' = p \<and> j = i)" "is_present (tables m p' j)" "js \<noteq> []" "w' = [] \<or> \<not> is_leaf (tables m p' j)"
    | "\<not> (p' = p \<and> j = i)" "\<not> (is_present (tables m p' j) \<and> js \<noteq> [] \<and> (w' = [] \<or> \<not> is_leaf (tables m p' j)))" by blast
  then show ?case
  proof cases
    case 1
    have "js \<noteq> []" using Cons.prems(1,2) 1 p len by auto
    then obtain k ks where "js = k # ks" by (cases js) auto
    then show ?thesis
      using 1 vp link np q same_region_simps[OF sr] by (simp add: paging_struct_default_def)
  next
    case 2
    then have "length w' < 3" using Cons.prems(2) by (cases js) auto
    then obtain t where t: "table_for_phys_addr m (entry_get_addr (tables m p' j)) = Inr t" "ty t = Some (w' @ [j])"
      using tables_okD(6)[OF ok Cons.prems(1), of j] 2 Cons.prems(3) by auto
    then have "descend m' (length (w' @ [j])) t js = descend m (length (w' @ [j])) t js"
      using Cons.prems by (intro Cons.IH) auto
    then show ?thesis using t(1) same[OF 2(1)] same_region_simps[OF sr] by (auto simp: Let_def)
  next
    case 3
    then show ?thesis using same[OF 3(1)] same_region_simps[OF sr] by (auto simp: Let_def)
  qed
qed simp

text \<open>
  One step of \<open>map\<close>'s descent: a table with the next path, the entry leads to it, and no walk from a
  table that had a path gives another result.
\<close>

lemma walk_or_create_spec:
  assumes ok: "tables_ok m ty" and p: "ty p = Some w" and len: "length w < 3"
    and i: "i = unat (entry_idx L v)" and nl: "w = [] \<or> \<not> is_leaf (tables m p i)"
    and room: "unat (next_idx m) < table_count m"
  obtains q fl m' ty' where "walk_or_create_table m L p v = Inr ((q, fl), m')"
    and "tables_ok m' ty'" and "ty \<subseteq>\<^sub>m ty'" and "reach m' (length w) p [i] q"
    and "same_region m m'" and "environment m' = environment m" and "mapped_pages m' = mapped_pages m"
    and "page_alloc m' = page_alloc m" and "memory m' = memory m" and "unat (next_idx m') \<le> unat (next_idx m) + 1"
    and "\<And>p i. is_present (tables m p i) \<Longrightarrow> tables m' p i = tables m p i"
    and "\<And>p' w' js. ty p' = Some w' \<Longrightarrow> length w' + length js = 4 \<Longrightarrow> \<forall>i\<in>set js. i < 512 \<Longrightarrow>
        descend m' (length w') p' js = descend m (length w') p' js"
proof (cases "is_present (tables m p i)")
  case True
  note v = tables_okD(2)[OF ok p]
  have i512: "i < 512" by (simp add: i)
  obtain q where q: "table_for_phys_addr m (entry_get_addr (tables m p i)) = Inr q" "ty q = Some (w @ [i])"
    using tables_okD(6)[OF ok p len i512 True] nl by blast
  have "walk_or_create_table m L p v = Inr ((q, get_flags (tables m p i) ALL_FLAGS), m)"
    using v True q(1) by (simp add: walk_or_create_table_def walk_eq i Let_def)
  then show ?thesis using that ok q True nl v by auto
next
  case False
  let ?q = "base_add m (next_idx m)" and ?m1 = "m\<lparr>next_idx := next_idx m + 1\<rparr>" and ?ty = "ty(base_add m (next_idx m) \<mapsto> w @ [i])"
  note v = tables_okD(2)[OF ok p] and reg = tables_okD(1)[OF ok]
  have i512: "i < 512" by (simp add: i)
  have ok1: "tables_ok ?m1 ?ty" and none: "ty ?q = None" using tables_ok_new[OF ok room, of "w @ [i]"] len by auto
  have sr: "same_region m ?m1" by (simp add: same_region_def)
  have fr: "fresh_table m ?q" using fresh_next(1)[OF reg room] .
  obtain a where a: "struct_phys_addr (psb (environment m)) ?q = Inr a" "a AND MASK_51_12 = a"
    "table_for_phys_addr m a = Inr ?q"
    using table_phys_roundtrip[OF reg fresh_valid[OF reg fr]] by blast
  define e where "e = set_flags (PRESENT_FLAG OR RW_FLAG) True (set_addr a (tables m p i))"
  let ?m' = "upd ?m1 p i e"
  have e: "is_present e" "entry_get_addr e = a" "is_leaf e = is_leaf (tables m p i)" using a(2) by (simp_all add: e_def)
  have leaf: "\<not> is_leaf e" using tables_okD(7)[OF ok p len i512] False e(3) by blast
  have pq: "p \<noteq> ?q" using p none by auto
  have run: "walk_or_create_table m L p v = Inr ((?q, PRESENT_FLAG OR RW_FLAG), ?m')"
    using v False a(1) same_region_simps(1)[OF sr, of p]
    by (simp add: walk_or_create_table_def walk_eq i[symmetric] Let_def new_table_def write_entry_upd e_def)
  have ok': "tables_ok ?m' ?ty"
    using p pq e a(3) same_region_simps(2)[OF sr] by (intro tables_ok_upd[OF ok1, of p w]) auto
  have reach: "reach ?m' (length w) p [i] ?q"
    using v e(1,2) leaf a(3) same_region_simps[OF sr] by simp
  have keep: "tables ?m' p' i' = tables m p' i'" if "is_present (tables m p' i')" for p' i'
    using that False by auto
  have zero: "tables m ?q = paging_struct_default" using tables_okD(5)[OF ok fr] .
  have desc: "descend ?m' (length w') p' js = descend m (length w') p' js"
    if "ty p' = Some w'" "length w' + length js = 4" "\<forall>i\<in>set js. i < 512" for p' w' js
    using that pq zero v e leaf a(3) fresh_valid[OF reg fr] same_region_simps[OF sr]
    by (intro descend_link[OF ok _ p len False, of ?m' ?q]) (auto simp: same_region_def)
  have sub: "ty \<subseteq>\<^sub>m ?ty" using none by (auto simp: map_le_def)
  have nx: "unat (next_idx ?m') \<le> unat (next_idx m) + 1" by (simp add: unat_word_ariths)
  show ?thesis
    by (rule that[OF run ok' sub reach _ _ _ _ _ nx keep desc]) (simp_all add: same_region_def)
qed

section \<open>Mappers that walk alike\<close>

definition walk_same :: "mapper \<Rightarrow> mapper \<Rightarrow> bool" where
  "walk_same m m' \<longleftrightarrow>
     same_region m m' \<and> next_idx m' = next_idx m \<and>
     (\<forall>p i. is_present (tables m' p i) = is_present (tables m p i) \<and> is_leaf (tables m' p i) = is_leaf (tables m p i) \<and>
            entry_get_addr (tables m' p i) = entry_get_addr (tables m p i)) \<and>
     (\<forall>p. fresh_table m p \<longrightarrow> tables m' p = tables m p)"

lemma walk_same_refl [simp]: "walk_same m m" by (simp add: walk_same_def)

lemma walk_same_fresh: "walk_same m m' \<Longrightarrow> fresh_table m' p = fresh_table m p"
  unfolding walk_same_def fresh_table_def by (auto simp: same_region_simps)

lemma walk_same_trans: "walk_same m m' \<Longrightarrow> walk_same m' m'' \<Longrightarrow> walk_same m m''"
  using walk_same_fresh[of m m'] unfolding walk_same_def by (auto intro: same_region_trans)

lemma walk_same_descend: "walk_same m m' \<Longrightarrow> descend m' d p js = descend m d p js"
  by (induction js arbitrary: d p) (auto simp: walk_same_def same_region_simps Let_def intro!: rbind_cong)

lemma walk_same_tables_ok: "walk_same m m' \<Longrightarrow> tables_ok m ty \<Longrightarrow> tables_ok m' ty"
proof -
  assume ws: "walk_same m m'" and ok: "tables_ok m ty"
  then have sr: "same_region m m'" and e: "is_present (tables m' p i) = is_present (tables m p i)"
    "is_leaf (tables m' p i) = is_leaf (tables m p i)" "entry_get_addr (tables m' p i) = entry_get_addr (tables m p i)"
    and f: "fresh_table m p \<Longrightarrow> tables m' p = tables m p" for p i
    unfolding walk_same_def by blast+
  have d: "\<forall>p. fresh_table m p \<longrightarrow> tables m' p = paging_struct_default" using tables_okD(5)[OF ok] f by simp
  show ?thesis
    unfolding tables_ok_def same_region_simps[OF sr] walk_same_fresh[OF ws] e
    using ok[unfolded tables_ok_def] d by (elim conjE) (intro conjI; assumption)
qed

lemma descend_SomeD:
  "descend m d p js = Inr (Some (q, j, d', a)) \<Longrightarrow>
   valid_table m q \<and> is_present (tables m q j) \<and> j \<in> set js \<and> a = entry_get_addr (tables m q j) \<and>
   d' < d + length js"
proof (induction js arbitrary: d p)
  case (Cons i js)
  then show ?case by (fastforce simp: Let_def res_simps split: if_splits)
qed simp

lemma path_of_less: "\<forall>i\<in>set (path_of v). i < 512" by (simp add: path_of_def)

lemma walk_to_leaf_SomeD:
  assumes "walk_to_leaf m r v = Inr (Some leaf)"
  shows "valid_table m (leaf_table leaf)" and "leaf_idx leaf < 512"
    and "is_present (tables m (leaf_table leaf) (unat (leaf_idx leaf)))"
    and "leaf_phys_addr leaf = entry_get_addr (tables m (leaf_table leaf) (unat (leaf_idx leaf)))"
proof -
  obtain q j d a where d: "descend m 0 r (path_of v) = Inr (Some (q, j, d, a))" and leaf: "leaf = leaf_at (q, j, d, a)"
    using assms unfolding walk_to_leaf_descend by (auto simp: res_simps)
  note D = descend_SomeD[OF d]
  then have j: "j < 512" using path_of_less[of v] by blast
  have u: "unat (of_nat j :: usize) = j" using j by (simp add: unat_of_nat)
  show "valid_table m (leaf_table leaf)" and "is_present (tables m (leaf_table leaf) (unat (leaf_idx leaf)))"
    and "leaf_phys_addr leaf = entry_get_addr (tables m (leaf_table leaf) (unat (leaf_idx leaf)))"
    using D leaf u by simp_all
  show "leaf_idx leaf < 512" using leaf u j by (simp add: word_less_nat_alt)
qed

text \<open>Changing the write permission of a leaf changes no walk.\<close>

lemma update_leaf_RW:
  assumes "walk_to_leaf m r v = Inr (Some leaf)" and ok: "tables_ok m ty"
  obtains m' where "update_leaf m leaf (set_flags RW_FLAG b) = Inr m'" and "walk_same m m'"
    and "environment m' = environment m" and "mapped_pages m' = mapped_pages m" and "page_alloc m' = page_alloc m"
    and "memory m' = memory m"
proof -
  note l = walk_to_leaf_SomeD[OF assms(1)]
  let ?p = "leaf_table leaf" and ?i = "unat (leaf_idx leaf)"
  let ?m' = "upd m ?p ?i (set_flags RW_FLAG b (tables m ?p ?i))"
  have "update_leaf m leaf (set_flags RW_FLAG b) = Inr ?m'"
    unfolding update_leaf_def by (rule write_entry_upd[OF l(1,2)])
  moreover have "\<not> fresh_table m ?p"
    using l(3) tables_okD(5)[OF ok, of ?p] by (auto simp: paging_struct_default_def)
  then have "walk_same m ?m'" unfolding walk_same_def by auto
  ultimately show ?thesis using that by simp
qed

definition walk_only :: "mapper \<Rightarrow> mapper \<Rightarrow> bool" where
  "walk_only m m' \<longleftrightarrow> walk_same m m' \<and> environment m' = environment m \<and> mapped_pages m' = mapped_pages m \<and>
     page_alloc m' = page_alloc m \<and> memory m' = memory m"

lemma protect_aliases_same:
  assumes "rfold (protect_alias virt) xs m = Inr m'" and "tables_ok m ty"
  shows "walk_only m m'"
proof (rule rfold_invariant[OF assms(1)])
  fix x s t assume h: "walk_only m s" "protect_alias virt x s = Inr t"
  then have ok: "tables_ok s ty" using walk_same_tables_ok assms(2) unfolding walk_only_def by blast
  from h(2) obtain r leaf where "walk_to_leaf s r virt = Inr (Some leaf)" "update_leaf s leaf (set_flags RW_FLAG False) = Inr t"
    by (cases x) (auto simp: protect_alias_def res_simps)
  then show "walk_only m t"
    using update_leaf_RW[OF _ ok, of r virt leaf False] h(1) walk_same_trans unfolding walk_only_def by (metis Inr_inject)
qed (simp add: walk_only_def)

end
