(* ===== verification/Mapper_Map.thy ===== *)
theory Mapper_Map
  imports Mapper_Walk
begin

text \<open>
  Mapping and unmapping pages: what \<open>map\<close>, \<open>unmap\<close>, \<open>alloc_page_at\<close> and \<open>map_mmio\<close> do to the
  translation of every address and to the accounting of the mapped pages.
\<close>

section \<open>The tables on the way to a page\<close>

definition ready :: "mapper \<Rightarrow> (usize \<rightharpoonup> nat list) \<Rightarrow> usize \<Rightarrow> bool" where
  "ready m ty root \<longleftrightarrow> tables_ok m ty \<and> paging_structure_base (environment m) = Inr root \<and> ty root = Some []"

definition no_huge_page :: "mapper \<Rightarrow> usize \<Rightarrow> usize \<Rightarrow> bool" where
  "no_huge_page m root v \<longleftrightarrow>
     (case walk_to_leaf m root v of Inr (Some leaf) \<Rightarrow> leaf_page_size leaf = Normal | _ \<Rightarrow> True)"

text \<open>What the three steps of the descent leave alone.\<close>

definition extends :: "mapper \<Rightarrow> (usize \<rightharpoonup> nat list) \<Rightarrow> mapper \<Rightarrow> (usize \<rightharpoonup> nat list) \<Rightarrow> nat \<Rightarrow> bool" where
  "extends m ty m' ty' n \<longleftrightarrow>
     tables_ok m' ty' \<and> ty \<subseteq>\<^sub>m ty' \<and> same_region m m' \<and> environment m' = environment m \<and>
     mapped_pages m' = mapped_pages m \<and> page_alloc m' = page_alloc m \<and> memory m' = memory m \<and>
     unat (next_idx m') \<le> unat (next_idx m) + n \<and>
     (\<forall>p i. is_present (tables m p i) \<longrightarrow> tables m' p i = tables m p i) \<and>
     (\<forall>p w js. ty p = Some w \<and> length w + length js = 4 \<and> (\<forall>i\<in>set js. i < 512) \<longrightarrow>
        descend m' (length w) p js = descend m (length w) p js)"

lemma extends_trans:
  assumes "extends m ty m' ty' n" and "extends m' ty' m'' ty'' k"
  shows "extends m ty m'' ty'' (n + k)"
proof -
  have "ty' p = Some w" if "ty p = Some w" for p w using assms(1) that by (auto simp: extends_def map_le_def dom_def)
  then show ?thesis
    using assms unfolding extends_def by (auto intro: map_le_trans same_region_trans)
qed

lemma extends_refl: "tables_ok m ty \<Longrightarrow> extends m ty m ty 0" by (simp add: extends_def)

lemma extends_typed: "extends m ty m' ty' n \<Longrightarrow> ty p = Some w \<Longrightarrow> ty' p = Some w"
  by (auto simp: extends_def map_le_def dom_def)

lemma extends_reach: "extends m ty m' ty' n \<Longrightarrow> reach m d p js q \<Longrightarrow> reach m' d p js q"
  by (rule reach_mono) (auto simp: extends_def)

text \<open>One more table on the path from the root.\<close>

lemma descent_step:
  assumes ex: "extends m ty m1 ty1 n" and root: "ty root = Some []" and r: "reach m1 0 root js p"
    and path: "path_of v = js @ [unat (entry_idx L v)] @ ks" "ks \<noteq> []" and nh: "no_huge_page m root v"
    and room: "unat (next_idx m) + n < table_count m"
  obtains q fl m2 ty2 where "walk_or_create_table m1 L p v = Inr ((q, fl), m2)"
    and "extends m ty m2 ty2 (n + 1)" and "reach m2 0 root (js @ [unat (entry_idx L v)]) q"
proof -
  let ?i = "unat (entry_idx L v)"
  have ok1: "tables_ok m1 ty1" using ex by (simp add: extends_def)
  have root1: "ty1 root = Some []" using extends_typed[OF ex root] .
  have len4: "length (path_of v) = 4" by (simp add: path_of_def)
  have len: "length js < 3" using arg_cong[OF path(1), of length] len4 path(2) by (cases ks) auto
  have js: "\<forall>i\<in>set js. i < 512" using path_of_less[of v] path(1) by auto
  have p: "ty1 p = Some js" using reach_typed[OF ok1 root1, of js p] r len js by simp
  have "\<not> is_leaf (tables m1 p ?i)" if "js \<noteq> []"
  proof
    assume leaf: "is_leaf (tables m1 p ?i)"
    then have pr: "is_present (tables m1 p ?i)" using tables_okD(7)[OF ok1 p len] by simp
    have "descend m1 0 root (path_of v) = descend m1 (length js) p (?i # ks)"
      using descend_reach[OF r, of "?i # ks"] path(1) by simp
    also have "\<dots> = Inr (Some (p, ?i, length js, entry_get_addr (tables m1 p ?i)))"
      using leaf pr that tables_okD(2)[OF ok1 p] by (simp add: Let_def)
    finally have "descend m 0 root (path_of v) = Inr (Some (p, ?i, length js, entry_get_addr (tables m1 p ?i)))"
      using ex root len4 path_of_less[of v] unfolding extends_def by (metis add_0 list.size(3))
    then have "depth_size (length js) = Normal" using nh by (simp add: no_huge_page_def walk_to_leaf_descend)
    then show False using len that by (cases "length js") (auto split: if_splits)
  qed
  moreover have "unat (next_idx m1) < table_count m1"
    using ex room same_region_simps(5)[of m m1] unfolding extends_def by auto
  ultimately obtain q fl m2 ty2 where s: "walk_or_create_table m1 L p v = Inr ((q, fl), m2)"
    "tables_ok m2 ty2" "ty1 \<subseteq>\<^sub>m ty2" "reach m2 (length js) p [?i] q" "same_region m1 m2" "environment m2 = environment m1"
    "mapped_pages m2 = mapped_pages m1" "page_alloc m2 = page_alloc m1" "memory m2 = memory m1"
    "unat (next_idx m2) \<le> unat (next_idx m1) + 1"
    "\<And>p i. is_present (tables m1 p i) \<Longrightarrow> tables m2 p i = tables m1 p i"
    "\<And>p' w' js. ty1 p' = Some w' \<Longrightarrow> length w' + length js = 4 \<Longrightarrow> \<forall>i\<in>set js. i < 512 \<Longrightarrow>
        descend m2 (length w') p' js = descend m1 (length w') p' js"
    using walk_or_create_spec[OF ok1 p len refl, of L v] by (metis (no_types, lifting))
  then have e2: "extends m1 ty1 m2 ty2 1" by (simp add: extends_def)
  have "reach m2 0 root (js @ [?i]) q" using extends_reach[OF e2 r] s(4) by (auto simp: reach_append)
  then show ?thesis using that s(1) extends_trans[OF ex e2] by blast
qed

lemma map_descent:
  assumes "ready m ty root" and "no_huge_page m root v" and "unat (next_idx m) + 2 < table_count m"
  obtains pdpt pd pt f1 f2 f3 m1 m2 m3 ty3 where
    "walk_or_create_table m PML4 root v = Inr ((pdpt, f1), m1)"
    and "walk_or_create_table m1 PDPT pdpt v = Inr ((pd, f2), m2)"
    and "walk_or_create_table m2 PD pd v = Inr ((pt, f3), m3)"
    and "extends m ty m3 ty3 3"
    and "reach m3 0 root (map (\<lambda>L. unat (entry_idx L v)) [PML4, PDPT, PD]) pt"
proof -
  have ok: "tables_ok m ty" and root: "ty root = Some []" using assms(1) by (simp_all add: ready_def)
  have p1: "path_of v = [] @ [unat (entry_idx PML4 v)] @ map (\<lambda>L. unat (entry_idx L v)) [PDPT, PD, PT]"
    and p2: "path_of v = map (\<lambda>L. unat (entry_idx L v)) [PML4] @ [unat (entry_idx PDPT v)] @ map (\<lambda>L. unat (entry_idx L v)) [PD, PT]"
    and p3: "path_of v = map (\<lambda>L. unat (entry_idx L v)) [PML4, PDPT] @ [unat (entry_idx PD v)] @ map (\<lambda>L. unat (entry_idx L v)) [PT]"
    by (simp_all add: path_of_def)
  obtain pdpt f1 m1 ty1 where s1: "walk_or_create_table m PML4 root v = Inr ((pdpt, f1), m1)" "extends m ty m1 ty1 (0 + 1)"
    "reach m1 0 root ([] @ [unat (entry_idx PML4 v)]) pdpt"
    by (rule descent_step[OF extends_refl[OF ok] root _ p1 _ assms(2)]) (use assms(3) in simp_all)
  have r1: "reach m1 0 root (map (\<lambda>L. unat (entry_idx L v)) [PML4]) pdpt" using s1(3) by simp
  obtain pd f2 m2 ty2 where s2: "walk_or_create_table m1 PDPT pdpt v = Inr ((pd, f2), m2)" "extends m ty m2 ty2 (0 + 1 + 1)"
    "reach m2 0 root (map (\<lambda>L. unat (entry_idx L v)) [PML4] @ [unat (entry_idx PDPT v)]) pd"
    by (rule descent_step[OF s1(2) root r1 p2 _ assms(2)]) (use assms(3) in simp_all)
  have r2: "reach m2 0 root (map (\<lambda>L. unat (entry_idx L v)) [PML4, PDPT]) pd" using s2(3) by simp
  obtain pt f3 m3 ty3 where s3: "walk_or_create_table m2 PD pd v = Inr ((pt, f3), m3)" "extends m ty m3 ty3 (0 + 1 + 1 + 1)"
    "reach m3 0 root (map (\<lambda>L. unat (entry_idx L v)) [PML4, PDPT] @ [unat (entry_idx PD v)]) pt"
    by (rule descent_step[OF s2(2) root r2 p3 _ assms(2)]) (use assms(3) in simp_all)
  have "extends m ty m3 ty3 3" using s3(2) by (simp add: eval_nat_numeral)
  then show ?thesis using that s1(1) s2(1) s3 by simp
qed

section \<open>Translation\<close>

fun offset_mask :: "nat \<Rightarrow> usize" where
  "offset_mask d = (if d = 1 then push_bit 30 1 - 1 else if d = 2 then push_bit 21 1 - 1 else push_bit 12 1 - 1)"

definition translate :: "mapper \<Rightarrow> usize \<Rightarrow> usize \<Rightarrow> usize option res" where
  "translate m root v =
     rbind (descend m 0 root (path_of v)) (\<lambda>r. Inr (map_option (\<lambda>(q, j, d, a). a OR (v AND offset_mask d)) r))"

lemma phys_addr_translate:
  "paging_structure_base (environment m) = Inr root \<Longrightarrow> phys_addr m v = translate m root v"
  unfolding phys_addr_def translate_def walk_to_leaf_descend
  by (cases "descend m 0 root (path_of v)") (auto simp: rtry_def split: option.splits)

lemma walk_same_translate: "walk_same m m' \<Longrightarrow> translate m' root v = translate m root v"
  by (simp add: translate_def walk_same_descend)

lemma path_of_page: "path_of v = path_of v' \<longleftrightarrow> v AND MASK_47_12 = v' AND MASK_47_12"
proof
  assume "path_of v = path_of v'"
  then have "entry_idx L v = entry_idx L v'" for L by (cases L) (simp_all add: path_of_def word_unat_eq_iff)
  then show "v AND MASK_47_12 = v' AND MASK_47_12" by (simp add: page_number_indices)
next
  assume "v AND MASK_47_12 = v' AND MASK_47_12"
  then have "entry_idx L v = entry_idx L v'" for L using entry_idx_page by metis
  then show "path_of v = path_of v'" by (simp add: path_of_def)
qed

text \<open>Writing the entry of the last table: the page is translated by it, no other page changes.\<close>

lemma translate_upd_leaf:
  assumes ok: "tables_ok m ty" and root: "ty root = Some []"
    and r: "reach m 0 root (map (\<lambda>L. unat (entry_idx L virt)) [PML4, PDPT, PD]) pt"
  defines "i \<equiv> unat (entry_idx PT virt)"
  shows "tables_ok (upd m pt i e) ty"
    and "translate (upd m pt i e) root v =
      (if v AND MASK_47_12 = virt AND MASK_47_12
       then Inr (if is_present e then Some (entry_get_addr e OR (v AND MASK_11_0)) else None)
       else translate m root v)"
    and "is_present e \<Longrightarrow> descend (upd m pt i e) 0 root (path_of virt) = Inr (Some (pt, i, 3, entry_get_addr e))"
proof -
  let ?w = "map (\<lambda>L. unat (entry_idx L virt)) [PML4, PDPT, PD]"
  have w512: "\<forall>i\<in>set ?w. i < 512" by simp
  have pt: "ty pt = Some ?w" using reach_typed[OF ok root, of ?w pt] r w512 by simp
  note v = tables_okD(2)[OF ok pt]
  show "tables_ok (upd m pt i e) ty" by (rule tables_ok_upd[OF ok pt]) simp_all
  have r': "reach (upd m pt i e) 0 root ?w pt" using reach_upd[OF ok root pt _ w512, of pt] r by simp
  have path: "path_of virt = ?w @ [i]" by (simp add: path_of_def i_def)
  show "is_present e \<Longrightarrow> descend (upd m pt i e) 0 root (path_of virt) = Inr (Some (pt, i, 3, entry_get_addr e))"
    using descend_reach[OF r', of "[i]"] v path by simp
  show "translate (upd m pt i e) root v =
      (if v AND MASK_47_12 = virt AND MASK_47_12
       then Inr (if is_present e then Some (entry_get_addr e OR (v AND MASK_11_0)) else None)
       else translate m root v)"
  proof (cases "v AND MASK_47_12 = virt AND MASK_47_12")
    case True
    then have "path_of v = ?w @ [i]" using path path_of_page[of v virt] by simp
    then have "descend (upd m pt i e) 0 root (path_of v) =
        Inr (if is_present e then Some (pt, i, 3, entry_get_addr e) else None)"
      using descend_reach[OF r', of "[i]"] v by simp
    then show ?thesis using True by (simp add: translate_def MASK_11_0_def)
  next
    case False
    then have ne: "path_of v \<noteq> ?w @ [i]" using path path_of_page[of v virt] by simp
    have "\<nexists>u. ?w @ [i] @ u = [] @ path_of v"
    proof
      assume "\<exists>u. ?w @ [i] @ u = [] @ path_of v"
      then obtain u where u: "path_of v = ?w @ [i] @ u" by (metis append_Nil)
      then have "u = []" using arg_cong[OF u, of length] by (simp add: path_of_def)
      then show False using u ne by simp
    qed
    then have "descend (upd m pt i e) 0 root (path_of v) = descend m 0 root (path_of v)"
      using descend_upd_other[OF ok pt root _ path_of_less, of v] by (simp add: path_of_def)
    then show ?thesis using False by (simp add: translate_def)
  qed
qed

section \<open>map\<close>

lemma walk_same_record:
  assumes "base m' = base m" "region_length m' = region_length m" "next_idx m' = next_idx m"
    "psb (environment m') = psb (environment m)" "tables m' = tables m"
  shows "walk_same m m'"
  using assms by (simp add: walk_same_def same_region_def)

lemma extends_translate:
  assumes "extends m ty m' ty' n" and "ty root = Some []"
  shows "translate m' root v = translate m root v"
proof -
  have "length ([] :: nat list) + length (path_of v) = 4" by (simp add: path_of_def)
  then have "descend m' (length ([] :: nat list)) root (path_of v) = descend m (length ([] :: nat list)) root (path_of v)"
    using assms path_of_less[of v] unfolding extends_def by blast
  then show ?thesis by (simp add: translate_def)
qed

text \<open>The accounting changes no walk.\<close>

lemma map_account_same:
  assumes "map_account m pml4 key phys virt = Inr m'" and ok: "tables_ok m ty"
  shows "walk_same m m' \<and> environment m' = environment m \<and> page_alloc m' = page_alloc m \<and> memory m' = memory m"
proof (cases "map_of (mapped_pages m) key")
  case None
  then show ?thesis using assms(1) by (auto simp: map_account_def res_simps intro: walk_same_record)
next
  case (Some pp)
  then obtain xs mp where r: "rfold (protect_alias virt) xs (m\<lparr>mapped_pages := mp\<rparr>) = Inr m'"
    using assms(1) by (auto simp: map_account_def res_simps Let_def)
  have s1: "walk_same m (m\<lparr>mapped_pages := mp\<rparr>)" by (rule walk_same_record) simp_all
  show ?thesis
    using protect_aliases_same[OF r walk_same_tables_ok[OF s1 ok]] walk_same_trans[OF s1]
    unfolding walk_only_def by simp
qed

text \<open>The state right before the accounting.\<close>

definition page_written ::
  "mapper \<Rightarrow> (usize \<rightharpoonup> nat list) \<Rightarrow> usize \<Rightarrow> usize \<Rightarrow> usize \<Rightarrow> mapper \<Rightarrow> (usize \<rightharpoonup> nat list) \<Rightarrow> bool" where
  "page_written m ty root phys virt m' ty' \<longleftrightarrow>
     tables_ok m' ty' \<and> ty \<subseteq>\<^sub>m ty' \<and> environment m' = environment m \<and> mapped_pages m' = mapped_pages m \<and>
     page_alloc m' = page_alloc m \<and> memory m' = memory m \<and> unat (next_idx m') \<le> unat (next_idx m) + 3 \<and>
     same_region m m' \<and>
     (\<exists>pt i. descend m' 0 root (path_of virt) = Inr (Some (pt, i, 3, phys AND MASK_51_12))) \<and>
     (\<forall>v. translate m' root v =
        (if v AND MASK_47_12 = virt AND MASK_47_12 then Inr (Some ((phys AND MASK_51_12) OR (v AND MASK_11_0)))
         else translate m root v))"

lemma mapper_map_run:
  assumes rd: "ready m ty root" and nh: "no_huge_page m root virt" and room: "unat (next_idx m) + 2 < table_count m"
    and al: "phys AND MASK_11_0 = 0" "virt AND MASK_11_0 = 0"
  obtains m5 ty' where "page_written m ty root phys virt m5 ty'"
    and "mapper_map m phys virt =
      rbind (if drop_bit 51 virt = 0 then map_account m5 root (phys AND MASK_51_12) phys virt else Inr m5)
        (\<lambda>m6. Inr (Ok (), m6\<lparr>environment := flush_tlb (environment m6)\<rparr>))"
proof -
  obtain pdpt pd pt f1 f2 f3 m1 m2 m3 ty3 where
    w: "walk_or_create_table m PML4 root virt = Inr ((pdpt, f1), m1)"
      "walk_or_create_table m1 PDPT pdpt virt = Inr ((pd, f2), m2)"
      "walk_or_create_table m2 PD pd virt = Inr ((pt, f3), m3)"
    and ex: "extends m ty m3 ty3 3"
    and r: "reach m3 0 root (map (\<lambda>L. unat (entry_idx L virt)) [PML4, PDPT, PD]) pt"
    by (rule map_descent[OF rd nh room])
  have ok: "tables_ok m ty" and root: "paging_structure_base (environment m) = Inr root" "ty root = Some []"
    using rd by (simp_all add: ready_def)
  have ok3: "tables_ok m3 ty3" and root3: "ty3 root = Some []" using ex extends_typed[OF ex root(2)] by (simp_all add: extends_def)
  let ?i = "unat (entry_idx PT virt)"
  define e where "e = set_flags (PRESENT_FLAG OR RW_FLAG) True (set_addr (phys AND MASK_51_12) (tables m3 pt ?i))"
  define m5 where "m5 = upd m3 pt ?i e"
  have e: "is_present e" "entry_get_addr e = phys AND MASK_51_12" by (simp_all add: e_def and.assoc)
  have pt: "ty3 pt = Some (map (\<lambda>L. unat (entry_idx L virt)) [PML4, PDPT, PD])" using reach_typed[OF ok3 root3, of "map (\<lambda>L. unat (entry_idx L virt)) [PML4, PDPT, PD]" pt] r by simp
  have idx: "drop_bit (level_shift PT) (virt AND level_mask PT) = entry_idx PT virt" by (simp add: entry_idx_def)
  have v: "valid_table m3 pt" using tables_okD(2)[OF ok3 pt] .
  have "translate m3 root x = translate m root x" for x by (rule extends_translate[OF ex root(2)])
  then have "page_written m ty root phys virt m5 ty3"
    using translate_upd_leaf[OF ok3 root3 r, of e] ex e same_region_trans[OF _ same_region_upd, of m m3]
    unfolding page_written_def m5_def extends_def by auto
  moreover have "mapper_map m phys virt =
      rbind (if drop_bit 51 virt = 0 then map_account m5 root (phys AND MASK_51_12) phys virt else Inr m5)
        (\<lambda>m6. Inr (Ok (), m6\<lparr>environment := flush_tlb (environment m6)\<rparr>))"
    unfolding mapper_map_def idx using al root(1) w v e
    by (simp add: Let_def write_entry_upd read_entry_def e_def m5_def cong: if_cong)
  ultimately show ?thesis using that by blast
qed

lemma paging_base_flush [simp]: "paging_structure_base (flush_tlb env) = paging_structure_base env"
  by (simp add: paging_structure_base_def flush_tlb_def)

lemma walk_same_flush: "walk_same m (m\<lparr>environment := flush_tlb (environment m)\<rparr>)"
  by (rule walk_same_record) (simp_all add: flush_tlb_def)

lemma mapper_map_OkD:
  assumes "mapper_map m phys virt = Inr (Ok u, m')"
  shows "phys AND MASK_11_0 = 0" and "virt AND MASK_11_0 = 0"
  using assms by (auto simp: mapper_map_def split: if_splits)

lemma mapper_map_translate:
  assumes rd: "ready m ty root" and nh: "no_huge_page m root virt" and room: "unat (next_idx m) + 2 < table_count m"
    and run: "mapper_map m phys virt = Inr (Ok (), m')"
  shows "\<exists>ty'. ready m' ty' root \<and> ty \<subseteq>\<^sub>m ty' \<and> page_alloc m' = page_alloc m \<and> memory m' = memory m \<and>
      same_region m m' \<and> unat (next_idx m') \<le> unat (next_idx m) + 3 \<and>
      environment m' = flush_tlb (environment m)"
    and "phys_addr m' v =
      (if v AND MASK_47_12 = virt AND MASK_47_12 then Inr (Some ((phys AND MASK_51_12) OR (v AND MASK_11_0)))
       else phys_addr m v)"
    and "\<exists>leaf. walk_to_leaf m' root virt = Inr (Some leaf) \<and> leaf_page_size leaf = Normal \<and>
      leaf_phys_addr leaf = phys AND MASK_51_12"
proof -
  obtain m5 ty' where pw: "page_written m ty root phys virt m5 ty'"
    and eq: "mapper_map m phys virt =
      rbind (if drop_bit 51 virt = 0 then map_account m5 root (phys AND MASK_51_12) phys virt else Inr m5)
        (\<lambda>m6. Inr (Ok (), m6\<lparr>environment := flush_tlb (environment m6)\<rparr>))"
    by (rule mapper_map_run[OF rd nh room mapper_map_OkD[OF run]])
  have ok5: "tables_ok m5 ty'" and env5: "environment m5 = environment m" using pw by (simp_all add: page_written_def)
  obtain m6 where m6: "(if drop_bit 51 virt = 0 then map_account m5 root (phys AND MASK_51_12) phys virt else Inr m5) = Inr m6"
    "m' = m6\<lparr>environment := flush_tlb (environment m6)\<rparr>"
    using eq run by (auto simp: res_simps)
  have s6: "walk_same m5 m6 \<and> environment m6 = environment m5 \<and> page_alloc m6 = page_alloc m5 \<and> memory m6 = memory m5"
    using m6(1) map_account_same[OF _ ok5, of root "phys AND MASK_51_12" phys virt m6] by (cases "drop_bit 51 virt = 0") auto
  then have s: "walk_same m5 m'" using walk_same_trans[OF _ walk_same_flush] m6(2) by blast
  have "\<exists>pt i. descend m' 0 root (path_of virt) = Inr (Some (pt, i, 3, phys AND MASK_51_12))"
    using pw walk_same_descend[OF s] by (auto simp: page_written_def)
  then show "\<exists>leaf. walk_to_leaf m' root virt = Inr (Some leaf) \<and> leaf_page_size leaf = Normal \<and>
      leaf_phys_addr leaf = phys AND MASK_51_12"
    unfolding walk_to_leaf_descend by auto
  have root: "paging_structure_base (environment m) = Inr root" "ty root = Some []" using rd by (simp_all add: ready_def)
  have base': "paging_structure_base (environment m') = Inr root" using m6(2) s6 env5 root(1) by simp
  have "ty' root = Some []" using pw root(2) by (auto simp: page_written_def map_le_def dom_def)
  then show "\<exists>ty'. ready m' ty' root \<and> ty \<subseteq>\<^sub>m ty' \<and> page_alloc m' = page_alloc m \<and> memory m' = memory m \<and>
      same_region m m' \<and> unat (next_idx m') \<le> unat (next_idx m) + 3 \<and>
      environment m' = flush_tlb (environment m)"
    using walk_same_tables_ok[OF s ok5] base' pw s6 s m6(2) same_region_trans[of m m5 m']
    by (intro exI[of _ ty']) (simp add: ready_def page_written_def walk_same_def)
  show "phys_addr m' v =
      (if v AND MASK_47_12 = virt AND MASK_47_12 then Inr (Some ((phys AND MASK_51_12) OR (v AND MASK_11_0)))
       else phys_addr m v)"
    unfolding phys_addr_translate[OF base'] phys_addr_translate[OF root(1)] walk_same_translate[OF s]
    using pw by (simp add: page_written_def)
qed

text \<open>Mapping cannot fail when the page is not accounted for yet, or belongs to the kernel half.\<close>

lemma mapper_map_fresh:
  assumes rd: "ready m ty root" and nh: "no_huge_page m root virt" and room: "unat (next_idx m) + 2 < table_count m"
    and al: "phys AND MASK_11_0 = 0" "virt AND MASK_11_0 = 0"
    and new: "drop_bit 51 virt \<noteq> 0 \<or> map_of (mapped_pages m) (phys AND MASK_51_12) = None"
  shows "\<exists>m'. mapper_map m phys virt = Inr (Ok (), m')"
proof -
  obtain m5 ty' where pw: "page_written m ty root phys virt m5 ty'"
    and eq: "mapper_map m phys virt =
      rbind (if drop_bit 51 virt = 0 then map_account m5 root (phys AND MASK_51_12) phys virt else Inr m5)
        (\<lambda>m6. Inr (Ok (), m6\<lparr>environment := flush_tlb (environment m6)\<rparr>))"
    by (rule mapper_map_run[OF rd nh room al])
  have ok5: "tables_ok m5 ty'" "environment m5 = environment m" "mapped_pages m5 = mapped_pages m" "ty' root = Some []"
    using pw rd by (auto simp: page_written_def ready_def map_le_def dom_def)
  obtain a where "struct_phys_addr (psb (environment m5)) root = Inr a"
    using table_phys_roundtrip[OF tables_okD(1)[OF ok5(1)] tables_okD(2)[OF ok5(1,4)]] by blast
  then show ?thesis using eq new ok5(3) by (auto simp: map_account_def)
qed

text \<open>A mapper without any mapping.\<close>

definition sample_mapper :: mapper where
  "sample_mapper = \<lparr>base = 0xffffff8000100000, region_length = 0x100000, next_idx = 7, mapped_pages = [],
     page_alloc = \<lparr>free_lists = (replicate 8 [])[0 := [0x5000]]\<rparr>,
     environment = \<lparr>psb = PAGING_STRUCTURE_BASE, cr3 = 0x100000, tlb_flushes = 0\<rparr>,
     tables = (\<lambda>_. paging_struct_default), memory = (\<lambda>_. 0)\<rparr>"

lemma sample_ready: "ready sample_mapper [0xffffff8000100000 \<mapsto> []] 0xffffff8000100000"
proof -
  have cnt: "table_count sample_mapper = 256" by (simp add: table_count_def sample_mapper_def)
  have reg: "region_ok sample_mapper"
    by (simp add: region_ok_def sample_mapper_def PAGING_STRUCTURE_BASE_def aligned_def)
  have ba: "0xffffff8000100000 = base_add sample_mapper (of_nat 0)" by (simp add: base_add_def sample_mapper_def)
  have v: "valid_table sample_mapper 0xffffff8000100000" by (simp add: valid_table_def sample_mapper_def)
  have "\<not> fresh_table sample_mapper 0xffffff8000100000"
  proof
    assume "fresh_table sample_mapper 0xffffff8000100000"
    then obtain i where "7 \<le> i" "i < 256" "base_add sample_mapper (of_nat 0) = base_add sample_mapper (of_nat i)"
      unfolding fresh_table_def cnt ba by (auto simp: sample_mapper_def)
    then show False using base_add_inj[OF reg, of 0 i] by (simp add: cnt)
  qed
  then have "tables_ok sample_mapper [0xffffff8000100000 \<mapsto> []]"
    using reg v unfolding tables_ok_def by (auto simp: sample_mapper_def paging_struct_default_def split: if_splits)
  then show ?thesis
    by (simp add: ready_def paging_structure_base_def sample_mapper_def PAGING_STRUCTURE_BASE_def checked_add_def)
qed

section \<open>unmap\<close>

lemma descend_Some_reach:
  "descend m d p js = Inr (Some (q, j, d', a)) \<Longrightarrow>
   \<exists>ks us. js = ks @ [j] @ us \<and> reach m d p ks q \<and> d' = d + length ks"
proof (induction js arbitrary: d p)
  case (Cons i js)
  show ?case
  proof (cases "js = [] \<or> (0 < d \<and> is_leaf (tables m p i))")
    case True
    then have "q = p" "j = i" "d' = d" using Cons.prems by (auto simp: Let_def split: if_splits)
    then show ?thesis by (intro exI[of _ "[]"] exI[of _ js]) simp
  next
    case False
    then obtain t where t: "valid_table m p" "is_present (tables m p i)"
      "table_for_phys_addr m (entry_get_addr (tables m p i)) = Inr t" "descend m (Suc d) t js = Inr (Some (q, j, d', a))"
      using Cons.prems by (auto simp: Let_def res_simps split: if_splits)
    then obtain ks us where "js = ks @ [j] @ us" "reach m (Suc d) t ks q" "d' = Suc d + length ks"
      using Cons.IH by blast
    then show ?thesis using t False by (intro exI[of _ "i # ks"] exI[of _ us]) auto
  qed
qed simp

text \<open>Clearing the entry that ends a walk: the addresses behind it have no translation, the others keep theirs.\<close>

lemma translate_clear:
  assumes ok: "tables_ok m ty" and root: "ty root = Some []"
    and d: "descend m 0 root (path_of virt) = Inr (Some (q, j, d, a))"
  shows "tables_ok (upd m q j entry_default) ty"
    and "translate (upd m q j entry_default) root v =
      (if take (Suc d) (path_of v) = take (Suc d) (path_of virt) then Inr None else translate m root v)"
proof -
  obtain ks us where k: "path_of virt = ks @ [j] @ us" "reach m 0 root ks q" "d = length ks"
    using descend_Some_reach[OF d] by auto
  have l4: "length (path_of x) = 4" for x by (simp add: path_of_def)
  have lk: "length ks \<le> 3" using arg_cong[OF k(1), of length] l4 by simp
  have k512: "\<forall>i\<in>set ks. i < 512" using path_of_less[of virt] k(1) by auto
  have q: "ty q = Some ks" using reach_typed[OF ok root, of ks q] k(2) lk k512 by simp
  show "tables_ok (upd m q j entry_default) ty" by (rule tables_ok_upd[OF ok q]) simp_all
  have r: "reach (upd m q j entry_default) 0 root ks q" using reach_upd[OF ok root q _ k512] k(2) by simp
  have pre: "take (Suc d) (path_of virt) = ks @ [j]" using k by simp
  show "translate (upd m q j entry_default) root v =
      (if take (Suc d) (path_of v) = take (Suc d) (path_of virt) then Inr None else translate m root v)"
  proof (cases "take (Suc d) (path_of v) = ks @ [j]")
    case True
    then obtain us' where "path_of v = ks @ [j] @ us'" by (metis append_assoc append_take_drop_id)
    then have "descend (upd m q j entry_default) 0 root (path_of v) = Inr None"
      using descend_reach[OF r, of "[j] @ us'"] tables_okD(2)[OF ok q] by simp
    then show ?thesis using True pre by (simp add: translate_def)
  next
    case False
    have "\<nexists>u. ks @ [j] @ u = [] @ path_of v"
    proof
      assume "\<exists>u. ks @ [j] @ u = [] @ path_of v"
      then obtain u where "path_of v = (ks @ [j]) @ u" by (metis append_Nil append_assoc)
      then have "take (Suc d) (path_of v) = ks @ [j]" using k(3) by (metis append_eq_conv_conj length_append_singleton)
      then show False using False by simp
    qed
    then have "descend (upd m q j entry_default) 0 root (path_of v) = descend m 0 root (path_of v)"
      using descend_upd_other[OF ok q root _ path_of_less, of v] l4 by simp
    then show ?thesis using False pre by (simp add: translate_def)
  qed
qed

lemma unmap_account_same:
  assumes "unmap_account m key virt = Inr m'" and ok: "tables_ok m ty"
  shows "walk_same m m' \<and> environment m' = environment m \<and> page_alloc m' = page_alloc m \<and> memory m' = memory m"
proof -
  have rec: "walk_same m (m\<lparr>mapped_pages := mp\<rparr>)" for mp by (rule walk_same_record) simp_all
  consider mp where "m' = m\<lparr>mapped_pages := mp\<rparr>"
    | mp r leaf where "walk_to_leaf (m\<lparr>mapped_pages := mp\<rparr>) r virt = Inr (Some leaf)"
        "update_leaf (m\<lparr>mapped_pages := mp\<rparr>) leaf (set_flags RW_FLAG True) = Inr m'"
    using assms(1) by (auto simp: unmap_account_def res_simps Let_def split: if_splits)
  then show ?thesis
  proof cases
    case 1
    then show ?thesis using rec by simp
  next
    case (2 mp r leaf)
    show ?thesis
      using update_leaf_RW[OF 2(1) walk_same_tables_ok[OF rec ok], of True] 2(2) walk_same_trans[OF rec]
      by (metis (no_types, lifting) Inr_inject mapper.ext_inject mapper.surjective mapper.update_convs(4))
  qed
qed

fun page_levels :: "page_size \<Rightarrow> paging_level list" where
  "page_levels Gigantic = [PML4, PDPT]"
| "page_levels Huge = [PML4, PDPT, PD]"
| "page_levels Normal = [PML4, PDPT, PD, PT]"

definition same_page :: "page_size \<Rightarrow> usize \<Rightarrow> usize \<Rightarrow> bool" where
  "same_page sz v v' \<longleftrightarrow> list_all (\<lambda>L. entry_idx L v = entry_idx L v') (page_levels sz)"

lemma same_page_take:
  assumes "d \<in> {1, 2, 3}"
  shows "take (Suc d) (path_of v) = take (Suc d) (path_of v') \<longleftrightarrow> same_page (depth_size d) v v'"
  using assms by (auto simp: path_of_def same_page_def word_unat_eq_iff numeral_eq_Suc)

lemma descend_depth:
  "descend m d p js = Inr (Some (q, j, d', a)) \<Longrightarrow> d = 0 \<Longrightarrow> length js = 4 \<Longrightarrow> d' \<in> {1, 2, 3}"
proof -
  assume h: "descend m d p js = Inr (Some (q, j, d', a))" "d = 0" "length js = 4"
  obtain i is' where js: "js = i # is'" "is' \<noteq> []" using h(3) by (cases js) force+
  then obtain t where "descend m 1 t is' = Inr (Some (q, j, d', a))"
    using h(1,2) by (auto simp: Let_def res_simps split: if_splits)
  then obtain ks us where "is' = ks @ [j] @ us" "d' = 1 + length ks" using descend_Some_reach by fastforce
  moreover from this have "length ks \<in> {0, 1, 2}" using h(3) js by (cases ks; cases us) auto
  ultimately show ?thesis by auto
qed

lemma unmap_translate:
  assumes rd: "ready m ty root" and run: "unmap m virt = Inr (Ok (), m')"
  obtains leaf where "walk_to_leaf m root virt = Inr (Some leaf)" and "ready m' ty root"
    and "\<And>v. phys_addr m' v = (if same_page (leaf_page_size leaf) v virt then Inr None else phys_addr m v)"
    and "page_alloc m' = page_alloc m" and "memory m' = memory m" and "environment m' = environment m"
    and "same_region m m'" and "next_idx m' = next_idx m"
proof -
  have ok: "tables_ok m ty" and root: "paging_structure_base (environment m) = Inr root" "ty root = Some []"
    using rd by (simp_all add: ready_def)
  obtain leaf m1 where leaf: "walk_to_leaf m root virt = Inr (Some leaf)"
    and m1: "update_leaf m leaf (\<lambda>_. entry_default) = Inr m1"
    and m2: "(if drop_bit 51 virt = 0 then unmap_account m1 (leaf_phys_addr leaf) virt else Inr m1) = Inr m'"
    using run root(1) by (auto simp: unmap_def res_simps split: if_splits)
  obtain q j d a where d: "descend m 0 root (path_of virt) = Inr (Some (q, j, d, a))" "leaf = leaf_at (q, j, d, a)"
    using leaf unfolding walk_to_leaf_descend by (auto simp: res_simps)
  have d123: "d \<in> {1, 2, 3}" using descend_depth[OF d(1)] by (simp add: path_of_def)
  have j: "unat (of_nat j :: usize) = j" "j < 512"
    using descend_SomeD[OF d(1)] path_of_less[of virt] by (auto simp: unat_of_nat)
  have u: "m1 = upd m q j entry_default"
    using m1 write_entry_upd[OF walk_to_leaf_SomeD(1,2)[OF leaf]] d(2) j by (simp add: update_leaf_def)
  note c = translate_clear[OF ok root(2) d(1), folded u]
  have s: "walk_same m1 m' \<and> environment m' = environment m1 \<and> page_alloc m' = page_alloc m1 \<and> memory m' = memory m1"
    using m2 unmap_account_same[OF _ c(1), of "leaf_phys_addr leaf" virt m'] by (cases "drop_bit 51 virt = 0") auto
  have env: "environment m' = environment m" using s u by simp
  have "phys_addr m' v = (if same_page (leaf_page_size leaf) v virt then Inr None else phys_addr m v)" for v
    using c(2)[of v] same_page_take[OF d123, of v virt] d(2) walk_same_translate[of m1 m'] s
    unfolding phys_addr_translate[OF root(1)] phys_addr_translate[OF root(1)[folded env]] by simp
  moreover have "ready m' ty root"
    using walk_same_tables_ok[of m1 m' ty] s c(1) root env by (simp add: ready_def)
  moreover have "same_region m m'" "next_idx m' = next_idx m"
    using s u same_region_trans[of m m1 m'] by (simp_all add: walk_same_def)
  ultimately show ?thesis using that leaf s u by simp
qed

section \<open>Accounting\<close>

definition page_account_ok :: "usize \<Rightarrow> mapped_page \<Rightarrow> bool" where
  "page_account_ok k pp \<longleftrightarrow>
     mp_phys_addr pp = k \<and> bts_ok (aliasing_paging_structures pp) \<and> aliasing_paging_structures pp \<noteq> [] \<and>
     unat (mp_refs pp) = length (aliasing_paging_structures pp)"

definition accounts_ok :: "mapper \<Rightarrow> bool" where
  "accounts_ok m \<longleftrightarrow> (\<forall>k pp. map_of (mapped_pages m) k = Some pp \<longrightarrow> page_account_ok k pp)"

definition alias_added :: "usize \<times> usize \<Rightarrow> usize \<Rightarrow> mapped_page option \<Rightarrow> mapped_page" where
  "alias_added al k o' = (case o' of
     None \<Rightarrow> \<lparr>mp_phys_addr = k, mp_size = Normal, mp_refs = 1, aliasing_paging_structures = [al]\<rparr>
   | Some pp \<Rightarrow> pp\<lparr>mp_refs := mp_refs pp + 1,
       aliasing_paging_structures := bts_insert al (aliasing_paging_structures pp)\<rparr>)"

lemma map_account_pages:
  assumes "map_account m pml4 phys phys virt = Inr m'" and ok: "tables_ok m ty"
    and "struct_phys_addr (psb (environment m)) pml4 = Inr r"
  shows "map_of (mapped_pages m') = (map_of (mapped_pages m))(phys \<mapsto> alias_added (r, virt) phys (map_of (mapped_pages m) phys))"
proof (cases "map_of (mapped_pages m) phys")
  case None
  then show ?thesis using assms(1,3) by (auto simp: map_account_def alias_added_def)
next
  case (Some pp)
  let ?mp = "btm_insert phys (alias_added (r, virt) phys (Some pp)) (mapped_pages m)"
  have run: "rfold (protect_alias virt) (bts_insert (r, virt) (aliasing_paging_structures pp)) (m\<lparr>mapped_pages := ?mp\<rparr>) = Inr m'"
    using assms(1,3) Some by (simp add: map_account_def alias_added_def Let_def)
  have "walk_same m (m\<lparr>mapped_pages := ?mp\<rparr>)" by (rule walk_same_record) simp_all
  then have "mapped_pages m' = ?mp"
    using protect_aliases_same[OF run walk_same_tables_ok[OF _ ok]] unfolding walk_only_def by simp
  then show ?thesis using Some by simp
qed

lemma alias_added_ok:
  assumes "\<And>pp. o' = Some pp \<Longrightarrow> page_account_ok k pp \<and> al \<notin> set (aliasing_paging_structures pp) \<and> mp_refs pp + 1 \<noteq> 0"
  shows "page_account_ok k (alias_added al k o')"
proof (cases o')
  case None
  then show ?thesis by (simp add: alias_added_def page_account_ok_def bts_ok_def)
next
  case (Some pp)
  have h: "page_account_ok k pp" "al \<notin> set (aliasing_paging_structures pp)" "mp_refs pp + 1 \<noteq> 0" using assms Some by auto
  have "unat (mp_refs pp + 1) = Suc (unat (mp_refs pp))" using h(3) unatSuc[of "mp_refs pp"] by (simp add: add.commute)
  moreover have "bts_insert al (aliasing_paging_structures pp) \<noteq> []"
    using length_bts_insert[of "aliasing_paging_structures pp" al] h by (auto simp: page_account_ok_def)
  ultimately show ?thesis
    using h length_bts_insert[of "aliasing_paging_structures pp" al] Some
    by (simp add: alias_added_def page_account_ok_def bts.ok_ins)
qed

lemma update_leaf_pages: "update_leaf m leaf f = Inr m' \<Longrightarrow> mapped_pages m' = mapped_pages m"
  by (auto simp: update_leaf_def write_entry_def res_simps split: if_splits)

definition alias_removed :: "usize \<times> usize \<Rightarrow> mapped_page \<Rightarrow> mapped_page option" where
  "alias_removed al pp =
     (if mp_refs pp > 1
      then Some (pp\<lparr>mp_refs := mp_refs pp - 1, aliasing_paging_structures := bts_remove al (aliasing_paging_structures pp)\<rparr>)
      else None)"

lemma unmap_account_pages:
  assumes "unmap_account m key virt = Inr m'"
  obtains pp table r where "map_of (mapped_pages m) key = Some pp"
    and "paging_structure_base (environment m) = Inr table" and "struct_phys_addr (psb (environment m)) table = Inr r"
    and "mp_refs pp > 1 \<Longrightarrow> (r, virt) \<in> set (aliasing_paging_structures pp)"
    and "map_of (mapped_pages m') = (map_of (mapped_pages m))(key := alias_removed (r, virt) pp)"
proof -
  obtain pp table r where h: "map_of (mapped_pages m) key = Some pp"
    "paging_structure_base (environment m) = Inr table" "struct_phys_addr (psb (environment m)) table = Inr r"
    "mp_refs pp > 1 \<Longrightarrow> (r, virt) \<in> set (aliasing_paging_structures pp)"
    using assms by (auto simp: unmap_account_def res_simps Let_def split: if_splits)
  have "map_of (mapped_pages m') = (map_of (mapped_pages m))(key := alias_removed (r, virt) pp)"
    using assms h update_leaf_pages
    by (fastforce simp: unmap_account_def res_simps Let_def alias_removed_def split: if_splits)
  then show ?thesis using that h by blast
qed

lemma alias_removed_ok:
  assumes "page_account_ok k pp" and "mp_refs pp > 1 \<Longrightarrow> al \<in> set (aliasing_paging_structures pp)"
    and "alias_removed al pp = Some pp'"
  shows "page_account_ok k pp'"
proof -
  let ?as = "aliasing_paging_structures pp"
  have gt: "mp_refs pp > 1" and pp': "pp' = pp\<lparr>mp_refs := mp_refs pp - 1, aliasing_paging_structures := bts_remove al ?as\<rparr>"
    using assms(3) by (auto simp: alias_removed_def split: if_splits)
  have "unat (mp_refs pp) > 1" using gt by (simp add: word_less_nat_alt)
  moreover have "unat (mp_refs pp - 1) = unat (mp_refs pp) - 1" using gt by (simp add: unat_sub word_le_nat_alt word_less_nat_alt)
  moreover have "length (bts_remove al ?as) = length ?as - 1"
    using assms(1,2) gt length_bts_remove[of ?as al] by (simp add: page_account_ok_def)
  ultimately show ?thesis
    using assms(1) unfolding pp' page_account_ok_def by (auto simp: bts.ok_rem)
qed

lemma unmap_pages:
  assumes "unmap m virt = Inr (r, m')"
  shows "mapped_pages m' = mapped_pages m \<or>
    (\<exists>m1 key. mapped_pages m1 = mapped_pages m \<and> environment m1 = environment m \<and> unmap_account m1 key virt = Inr m')"
proof -
  have "update_leaf m leaf f = Inr m1 \<Longrightarrow> environment m1 = environment m \<and> mapped_pages m1 = mapped_pages m" for leaf f m1
    by (auto simp: update_leaf_def write_entry_def res_simps split: if_splits)
  then show ?thesis using assms by (fastforce simp: unmap_def res_simps split: if_splits)
qed

lemma unmap_accounts_ok:
  assumes "accounts_ok m" and "unmap m virt = Inr (r, m')"
  shows "accounts_ok m'"
  using unmap_pages[OF assms(2)]
proof (elim disjE exE conjE)
  assume "mapped_pages m' = mapped_pages m"
  then show ?thesis using assms(1) by (simp add: accounts_ok_def)
next
  fix m1 key assume m1: "mapped_pages m1 = mapped_pages m" "unmap_account m1 key virt = Inr m'"
  obtain pp table r where a: "map_of (mapped_pages m1) key = Some pp"
    "mp_refs pp > 1 \<Longrightarrow> (r, virt) \<in> set (aliasing_paging_structures pp)"
    "map_of (mapped_pages m') = (map_of (mapped_pages m1))(key := alias_removed (r, virt) pp)"
    using unmap_account_pages[OF m1(2)] by metis
  have "page_account_ok key pp" using assms(1) a(1) m1(1) by (simp add: accounts_ok_def)
  then show ?thesis
    using assms(1) a alias_removed_ok[of key pp "(r, virt)"] m1(1) unfolding accounts_ok_def by auto
qed

text \<open>Unmapping the only mapping of a page, or one of the kernel half, succeeds.\<close>

lemma unmap_total:
  assumes rd: "ready m ty root" and leaf: "walk_to_leaf m root virt = Inr (Some leaf)"
    and al: "virt AND page_align_mask (leaf_page_size leaf) = 0"
    and one: "drop_bit 51 virt \<noteq> 0 \<or> (\<exists>pp. map_of (mapped_pages m) (leaf_phys_addr leaf) = Some pp \<and> mp_refs pp \<le> 1)"
  shows "\<exists>m'. unmap m virt = Inr (Ok (), m') \<and> map_of (mapped_pages m') =
    (if drop_bit 51 virt \<noteq> 0 then map_of (mapped_pages m) else (map_of (mapped_pages m))(leaf_phys_addr leaf := None))"
proof -
  have ok: "tables_ok m ty" and root: "paging_structure_base (environment m) = Inr root" "ty root = Some []"
    using rd by (simp_all add: ready_def)
  obtain a where a: "struct_phys_addr (psb (environment m)) root = Inr a"
    using table_phys_roundtrip[OF tables_okD(1)[OF ok] tables_okD(2)[OF ok root(2)]] by blast
  have u: "update_leaf m leaf (\<lambda>_. entry_default) = Inr (upd m (leaf_table leaf) (unat (leaf_idx leaf)) entry_default)"
    unfolding update_leaf_def by (rule write_entry_upd[OF walk_to_leaf_SomeD(1,2)[OF leaf]])
  show ?thesis
  proof (cases "drop_bit 51 virt = 0")
    case True
    then obtain pp where "map_of (mapped_pages m) (leaf_phys_addr leaf) = Some pp" "\<not> mp_refs pp > 1" using one by auto
    then show ?thesis using True root(1) leaf al u a by (simp add: unmap_def unmap_account_def)
  next
    case False
    then show ?thesis using root(1) leaf al u by (simp add: unmap_def)
  qed
qed


lemma mapper_map_pages:
  assumes rd: "ready m ty root" and nh: "no_huge_page m root virt" and room: "unat (next_idx m) + 2 < table_count m"
    and run: "mapper_map m phys virt = Inr (Ok (), m')" and phys: "phys AND MASK_51_12 = phys"
  shows "map_of (mapped_pages m') =
    (if drop_bit 51 virt = 0
     then (map_of (mapped_pages m))(phys \<mapsto> alias_added (cr3 (environment m), virt) phys (map_of (mapped_pages m) phys))
     else map_of (mapped_pages m))"
proof -
  obtain m5 ty' where pw: "page_written m ty root phys virt m5 ty'"
    and eq: "mapper_map m phys virt =
      rbind (if drop_bit 51 virt = 0 then map_account m5 root (phys AND MASK_51_12) phys virt else Inr m5)
        (\<lambda>m6. Inr (Ok (), m6\<lparr>environment := flush_tlb (environment m6)\<rparr>))"
    by (rule mapper_map_run[OF rd nh room mapper_map_OkD[OF run]])
  have m5: "tables_ok m5 ty'" "environment m5 = environment m" "mapped_pages m5 = mapped_pages m"
    using pw by (simp_all add: page_written_def)
  have "root = cr3 (environment m) + psb (environment m)" "psb (environment m) \<le> root"
    using rd by (auto simp: ready_def paging_structure_base_def res_simps word_le_nat_alt unat_word_ariths)
  then have "struct_phys_addr (psb (environment m5)) root = Inr (cr3 (environment m))"
    using m5(2) by (simp add: struct_phys_addr_def checked_sub_def)
  then show ?thesis
    using map_account_pages[OF _ m5(1), of root phys virt] eq run m5(3) phys
    by (auto simp: res_simps split: if_splits)
qed

section \<open>Properties\<close>


text \<open>
  C1: after \<open>Mapper::map\<close> returned \<open>Ok\<close>, every address of the page translates to the same offset in
  the physical page, every other address translates as before, and the tables are well formed again,
  from a state in which they are well formed, no large page covers the address and three tables are left.
\<close>

theorem map_translates:
  assumes "ready m ty root" and "no_huge_page m root virt" and "unat (next_idx m) + 2 < table_count m"
    and "mapper_map m phys virt = Inr (Ok (), m')"
  shows "(\<exists>ty'. ready m' ty' root \<and> ty \<subseteq>\<^sub>m ty') \<and>
    (\<forall>v. phys_addr m' v =
      (if v AND MASK_47_12 = virt AND MASK_47_12 then Inr (Some ((phys AND MASK_51_12) OR (v AND MASK_11_0)))
       else phys_addr m v))"
  using mapper_map_translate[OF assms] by blast

lemma sample_no_huge: "no_huge_page sample_mapper 0xffffff8000100000 v"
  by (simp add: no_huge_page_def walk_to_leaf_descend path_of_def sample_mapper_def paging_struct_default_def Let_def)

lemma sample_room: "unat (next_idx sample_mapper) + 2 < table_count sample_mapper"
  by (simp add: table_count_def sample_mapper_def)

lemma sample_map:
  assumes "phys AND MASK_11_0 = 0" and "virt AND MASK_11_0 = 0"
  obtains m where "mapper_map sample_mapper phys virt = Inr (Ok (), m)"
  using mapper_map_fresh[OF sample_ready sample_no_huge sample_room assms] by (auto simp: sample_mapper_def)

theorem map_translates_witness:
  "\<exists>m. mapper_map sample_mapper 0x5000 0x400000 = Inr (Ok (), m) \<and> phys_addr m 0x400123 = Inr (Some 0x5123)"
proof -
  obtain m where m: "mapper_map sample_mapper 0x5000 0x400000 = Inr (Ok (), m)"
    by (rule sample_map[of "0x5000" "0x400000"]) (simp_all add: MASK_11_0_def)
  show ?thesis
    using map_translates[OF sample_ready sample_no_huge sample_room m] m
    by (simp add: MASK_47_12_def MASK_51_12_def MASK_11_0_def)
qed

text \<open>
  C2: after \<open>Mapper::unmap\<close> returned \<open>Ok\<close>, exactly the addresses of the page (of the size found by
  the walk) have no translation; every other address translates as before.
\<close>

theorem unmap_translates:
  assumes "ready m ty root" and "unmap m virt = Inr (Ok (), m')"
  shows "ready m' ty root \<and>
    (\<exists>leaf. walk_to_leaf m root virt = Inr (Some leaf) \<and>
      (\<forall>v. phys_addr m' v = (if same_page (leaf_page_size leaf) v virt then Inr None else phys_addr m v)))"
  using unmap_translate[OF assms] by metis

lemma same_page_Normal: "same_page Normal v virt \<longleftrightarrow> v AND MASK_47_12 = virt AND MASK_47_12"
proof -
  have "same_page Normal v virt \<longleftrightarrow> path_of v = path_of virt"
    by (simp add: same_page_def path_of_def word_unat_eq_iff)
  then show ?thesis by (simp add: path_of_page)
qed

text \<open>Mapping a fresh page and unmapping it again, with what both steps return.\<close>

lemma map_unmap:
  assumes rd: "ready m ty root" and nh: "no_huge_page m root virt" and room: "unat (next_idx m) + 2 < table_count m"
    and al: "phys AND MASK_11_0 = 0" "virt AND MASK_11_0 = 0" and phys: "phys AND MASK_51_12 = phys"
    and new: "map_of (mapped_pages m) phys = None"
  obtains m1 m2 where "mapper_map m phys virt = Inr (Ok (), m1)" and "unmap m1 virt = Inr (Ok (), m2)"
    and "\<And>v. phys_addr m2 v = (if v AND MASK_47_12 = virt AND MASK_47_12 then Inr None else phys_addr m v)"
    and "map_of (mapped_pages m2) = map_of (mapped_pages m)"
proof -
  obtain m1 where m1: "mapper_map m phys virt = Inr (Ok (), m1)"
    using mapper_map_fresh[OF rd nh room al] new phys by auto
  note t = mapper_map_translate[OF rd nh room m1]
  note pages = mapper_map_pages[OF rd nh room m1 phys]
  obtain ty' leaf where rd1: "ready m1 ty' root" and leaf: "walk_to_leaf m1 root virt = Inr (Some leaf)"
    "leaf_page_size leaf = Normal" "leaf_phys_addr leaf = phys" using t(1,3) phys by auto
  have "\<exists>m'. unmap m1 virt = Inr (Ok (), m') \<and> map_of (mapped_pages m') =
    (if drop_bit 51 virt \<noteq> 0 then map_of (mapped_pages m1) else (map_of (mapped_pages m1))(leaf_phys_addr leaf := None))"
    using al(2) leaf pages new
    by (intro unmap_total[OF rd1 leaf(1)]) (auto simp: MASK_11_0_def alias_added_def)
  then obtain m2 where m2: "unmap m1 virt = Inr (Ok (), m2)"
    "map_of (mapped_pages m2) =
      (if drop_bit 51 virt \<noteq> 0 then map_of (mapped_pages m1) else (map_of (mapped_pages m1))(phys := None))"
    using leaf(3) by auto
  obtain leaf' where "walk_to_leaf m1 root virt = Inr (Some leaf')"
    "\<And>v. phys_addr m2 v = (if same_page (leaf_page_size leaf') v virt then Inr None else phys_addr m1 v)"
    using unmap_translate[OF rd1 m2(1)] by metis
  then have "phys_addr m2 v = (if v AND MASK_47_12 = virt AND MASK_47_12 then Inr None else phys_addr m v)" for v
    using leaf(1,2) t(2)[of v] same_page_Normal[of v virt] by simp
  moreover have "map_of (mapped_pages m2) = map_of (mapped_pages m)"
    using m2(2) pages new by (auto simp: fun_eq_iff)
  ultimately show ?thesis using that m1 m2(1) by blast
qed

theorem unmap_translates_witness:
  "\<exists>m1 m2. mapper_map sample_mapper 0x5000 0x400000 = Inr (Ok (), m1) \<and> unmap m1 0x400000 = Inr (Ok (), m2) \<and>
     phys_addr m2 0x400123 = Inr None"
proof -
  obtain m1 m2 where m: "mapper_map sample_mapper 0x5000 0x400000 = Inr (Ok (), m1)" "unmap m1 0x400000 = Inr (Ok (), m2)"
    by (rule map_unmap[OF sample_ready sample_no_huge sample_room, of "0x5000" "0x400000"])
      (simp_all add: MASK_11_0_def MASK_51_12_def sample_mapper_def)
  note t = mapper_map_translate[OF sample_ready sample_no_huge sample_room m(1)]
  obtain ty' leaf where rd1: "ready m1 ty' 0xffffff8000100000"
    and l: "walk_to_leaf m1 0xffffff8000100000 0x400000 = Inr (Some leaf)" "leaf_page_size leaf = Normal"
    using t(1,3) by auto
  have "same_page Normal 0x400123 0x400000" by (simp add: same_page_Normal MASK_47_12_def)
  then show ?thesis using unmap_translates[OF rd1 m(2)] l m by auto
qed

text \<open>
  C4: mapping a page at an address that had no mapping and unmapping it again both succeed and give
  back the translation of every address and the accounting, as they were.
\<close>

theorem map_unmap_roundtrip:
  assumes "ready m ty root" and "no_huge_page m root virt" and "unat (next_idx m) + 2 < table_count m"
    and "phys AND MASK_11_0 = 0" and "virt AND MASK_11_0 = 0" and "phys AND MASK_51_12 = phys"
    and "map_of (mapped_pages m) phys = None" and "phys_addr m virt = Inr None"
  shows "\<exists>m1 m2. mapper_map m phys virt = Inr (Ok (), m1) \<and> unmap m1 virt = Inr (Ok (), m2) \<and>
    (\<forall>v. phys_addr m2 v = phys_addr m v) \<and> map_of (mapped_pages m2) = map_of (mapped_pages m)"
proof -
  obtain m1 m2 where m: "mapper_map m phys virt = Inr (Ok (), m1)" "unmap m1 virt = Inr (Ok (), m2)"
    "\<And>v. phys_addr m2 v = (if v AND MASK_47_12 = virt AND MASK_47_12 then Inr None else phys_addr m v)"
    "map_of (mapped_pages m2) = map_of (mapped_pages m)"
    by (rule map_unmap[OF assms(1-7)]) blast
  have root: "paging_structure_base (environment m) = Inr root" using assms(1) by (simp add: ready_def)
  have "phys_addr m v = Inr None" if "v AND MASK_47_12 = virt AND MASK_47_12" for v
  proof -
    have "path_of v = path_of virt" using that path_of_page by blast
    then show ?thesis using assms(8) unfolding phys_addr_translate[OF root] translate_def by (auto simp: res_simps)
  qed
  then show ?thesis using m by auto
qed

theorem map_unmap_roundtrip_witness:
  "\<exists>m1 m2. mapper_map sample_mapper 0x5000 0x400000 = Inr (Ok (), m1) \<and> unmap m1 0x400000 = Inr (Ok (), m2) \<and>
     mapped_pages m2 = [] \<and> phys_addr m2 0x400123 = Inr None"
proof -
  have none: "phys_addr sample_mapper v = Inr None" for v
    by (simp add: phys_addr_def walk_to_leaf_descend path_of_def sample_mapper_def paging_struct_default_def Let_def
        paging_structure_base_def PAGING_STRUCTURE_BASE_def checked_add_def valid_table_def)
  have "map_of (mapped_pages m) = map_of (mapped_pages sample_mapper) \<Longrightarrow> mapped_pages m = []" for m
    by (cases "mapped_pages m") (auto simp: sample_mapper_def fun_eq_iff split: if_splits)
  then show ?thesis
    using map_unmap_roundtrip[OF sample_ready sample_no_huge sample_room, of "0x5000" "0x400000"] none
    by (auto simp: MASK_11_0_def MASK_51_12_def sample_mapper_def)
qed


text \<open>
  C6: \<open>Mapper::map\<close> keeps the accounting of the pages: the count of a page is the number of its
  aliases, as long as the address space does not map the page at this address already. A page of the
  user half gains exactly this alias, a page of the kernel half is not accounted.
\<close>

theorem map_accounts:
  assumes "ready m ty root" and "no_huge_page m root virt" and "unat (next_idx m) + 2 < table_count m"
    and "mapper_map m phys virt = Inr (Ok (), m')" and "phys AND MASK_51_12 = phys" and "accounts_ok m"
    and "\<forall>pp. map_of (mapped_pages m) phys = Some pp \<longrightarrow>
      (cr3 (environment m), virt) \<notin> set (aliasing_paging_structures pp) \<and> mp_refs pp + 1 \<noteq> 0"
  shows "accounts_ok m' \<and> map_of (mapped_pages m') =
    (if drop_bit 51 virt = 0
     then (map_of (mapped_pages m))(phys \<mapsto> alias_added (cr3 (environment m), virt) phys (map_of (mapped_pages m) phys))
     else map_of (mapped_pages m))"
proof -
  note pages = mapper_map_pages[OF assms(1-5)]
  have "page_account_ok phys (alias_added (cr3 (environment m), virt) phys (map_of (mapped_pages m) phys))"
    using assms(6,7) by (intro alias_added_ok) (auto simp: accounts_ok_def)
  then show ?thesis using pages assms(6) by (auto simp: accounts_ok_def)
qed

theorem map_accounts_witness:
  "\<exists>m. mapper_map sample_mapper 0x5000 0x400000 = Inr (Ok (), m) \<and> accounts_ok m \<and>
     map_of (mapped_pages m) 0x5000 = Some \<lparr>mp_phys_addr = 0x5000, mp_size = Normal, mp_refs = 1,
       aliasing_paging_structures = [(0x100000, 0x400000)]\<rparr>"
proof -
  obtain m where m: "mapper_map sample_mapper 0x5000 0x400000 = Inr (Ok (), m)"
    by (rule sample_map[of "0x5000" "0x400000"]) (simp_all add: MASK_11_0_def)
  have "accounts_ok sample_mapper" by (simp add: accounts_ok_def sample_mapper_def)
  then show ?thesis
    using map_accounts[OF sample_ready sample_no_huge sample_room m] m
    by (simp add: MASK_51_12_def sample_mapper_def alias_added_def)
qed

text \<open>
  Property: \<open>Mapper::unmap\<close> keeps the accounting of the pages in every state, whether it returns \<open>Ok\<close> or an
  error.
\<close>

theorem unmap_accounts:
  assumes "accounts_ok m" and "unmap m virt = Inr (r, m')"
  shows "accounts_ok m'"
  by (rule unmap_accounts_ok[OF assms])

theorem unmap_accounts_witness:
  "\<exists>m1 m2. mapper_map sample_mapper 0x5000 0x400000 = Inr (Ok (), m1) \<and> unmap m1 0x400000 = Inr (Ok (), m2) \<and> accounts_ok m2"
proof -
  obtain m1 m2 where m: "mapper_map sample_mapper 0x5000 0x400000 = Inr (Ok (), m1)" "unmap m1 0x400000 = Inr (Ok (), m2)"
    by (rule map_unmap[OF sample_ready sample_no_huge sample_room, of "0x5000" "0x400000"])
      (simp_all add: MASK_11_0_def MASK_51_12_def sample_mapper_def)
  have "map_of (mapped_pages m1) = [0x5000 \<mapsto> alias_added (0x100000, 0x400000) 0x5000 None]"
    using mapper_map_pages[OF sample_ready sample_no_huge sample_room m(1)] by (simp add: MASK_51_12_def sample_mapper_def)
  then have "accounts_ok m1" using alias_added_ok[of None] by (simp add: accounts_ok_def)
  then show ?thesis using unmap_accounts[OF _ m(2)] m by blast
qed

text \<open>
  \<open>Mapper::alloc_page_at\<close> at an address that is not page aligned: the error is returned, but the page
  taken from the page allocator is neither mapped nor given back.
\<close>

lemma alloc_page_at_misaligned_leaks:
  assumes "pa_ok (page_alloc m)" and "virt AND MASK_11_0 \<noteq> 0" and "free_lists (page_alloc m) ! 0 \<noteq> []"
  shows "\<exists>a pa. alloc_page_at m virt = Inr (Err (MisalignedAddress virt Normal), m\<lparr>page_alloc := pa\<rparr>) \<and>
    block_span a 12 \<subseteq> covered (page_alloc m) \<and> covered pa = covered (page_alloc m) - block_span a 12"
proof -
  let ?pa = "page_alloc m" and ?a = "hd (free_lists (page_alloc m) ! (12 - 12))"
  have h: "pa_wf ?pa" "12 \<le> (12 :: nat)" "12 - 12 < length (free_lists ?pa)" "free_lists ?pa ! (12 - 12) \<noteq> []"
    using assms(1,3) by (simp_all add: pa_ok_def)
  note s = allocate_hit_spec[OF h]
  have "take_bit 12 ?a = 0" using s(3) by (simp add: aligned_def)
  then have "?a AND MASK_11_0 = 0" by (simp add: MASK_11_0_def take_bit_eq_mask mask_eq_exp_minus_1)
  then show ?thesis using s(1,4,5) assms(2) by (auto simp: alloc_page_at_def mapper_map_def get_addr_def)
qed

end
