(* ===== verification/Malloc.thy ===== *)
theory Malloc
  imports Prelude
begin

text \<open>
  The kernel heap (\<open>src/mm/malloc.rs\<close>): a bump allocator that never gives memory back. The
  lock around it (\<open>spin::Mutex\<close>) makes each call one step of the state.
\<close>

section \<open>Model\<close>

definition KERNEL_BASE :: usize where
  "KERNEL_BASE = 0xffff800000000000"

record kernel_allocator =
  heap_bottom :: usize
  head :: usize

record layout =
  layout_size :: usize
  layout_align :: usize

definition with_lock_new :: kernel_allocator where
  "with_lock_new = (let bottom = KERNEL_BASE + push_bit 29 1 in \<lparr>heap_bottom = bottom, head = bottom\<rparr>)"

text \<open>\<open>alloc\<close>: the null pointer is 0.\<close>

definition alloc :: "kernel_allocator \<Rightarrow> layout \<Rightarrow> (usize \<times> kernel_allocator) res" where
  "alloc a l =
     (if head a = 0 then Inr (0, a)
      else
        rbind (checked_div (head a) (layout_align l)) (\<lambda>q.
        rbind (checked_mul q (layout_align l)) (\<lambda>m.
        rbind (checked_add m (layout_align l)) (\<lambda>ptr.
        rbind (checked_add ptr (layout_size l)) (\<lambda>head'.
        Inr (ptr, a\<lparr>head := head'\<rparr>))))))"

definition dealloc :: "kernel_allocator \<Rightarrow> usize \<Rightarrow> layout \<Rightarrow> kernel_allocator" where
  "dealloc a ptr l = a"

text \<open>A run of the allocator: the requests in order, with the regions handed out.\<close>

datatype request = Alloc layout | Dealloc usize layout

fun serve :: "request list \<Rightarrow> kernel_allocator \<Rightarrow> ((usize \<times> layout) list \<times> kernel_allocator) res" where
  "serve [] a = Inr ([], a)"
| "serve (Alloc l # rs) a =
     rbind (alloc a l) (\<lambda>(ptr, a1). rbind (serve rs a1) (\<lambda>(ps, a2). Inr ((ptr, l) # ps, a2)))"
| "serve (Dealloc ptr l # rs) a = serve rs (dealloc a ptr l)"

section \<open>Specification\<close>

definition layout_ok :: "layout \<Rightarrow> bool" where
  "layout_ok l \<longleftrightarrow> (\<exists>k<64. layout_align l = 2 ^ k)"

fun region_start :: "usize \<times> layout \<Rightarrow> nat" where
  "region_start (ptr, l) = unat ptr"

fun region_end :: "usize \<times> layout \<Rightarrow> nat" where
  "region_end (ptr, l) = unat ptr + unat (layout_size l)"

text \<open>The regions lie one after the other between the two bounds, each aligned as requested.\<close>

fun regions_ok :: "nat \<Rightarrow> (usize \<times> layout) list \<Rightarrow> nat \<Rightarrow> bool" where
  "regions_ok lo [] hi \<longleftrightarrow> lo \<le> hi"
| "regions_ok lo (p # ps) hi \<longleftrightarrow>
     lo < region_start p \<and> unat (layout_align (snd p)) dvd region_start p \<and> regions_ok (region_end p) ps hi"

section \<open>Lemmas\<close>

lemma layout_ok_nonzero: "layout_ok l \<Longrightarrow> 0 < unat (layout_align l)"
  by (auto simp: layout_ok_def unat_exp_word)

text \<open>The pointer is the next multiple of the alignment strictly above the old head.\<close>

lemma alloc_spec:
  assumes "head a \<noteq> 0" and "layout_align l \<noteq> 0"
  defines "p \<equiv> (unat (head a) div unat (layout_align l) + 1) * unat (layout_align l)"
  shows "p + unat (layout_size l) < 2 ^ 64 \<Longrightarrow>
      alloc a l = Inr (of_nat p, a\<lparr>head := of_nat (p + unat (layout_size l))\<rparr>)"
    and "\<not> p + unat (layout_size l) < 2 ^ 64 \<Longrightarrow> alloc a l = Inl ArithOverflow"
proof -
  let ?al = "unat (layout_align l)" and ?q = "head a div layout_align l"
  have q: "unat ?q = unat (head a) div ?al" by (simp add: unat_div)
  have fit: "unat ?q * ?al < 2 ^ 64"
    unfolding q using unat_less_exp[of "head a"] le_less_trans[OF div_times_less_eq_dividend] by simp
  have m: "unat (?q * layout_align l) = unat ?q * ?al" using fit by (simp add: unat_word_ariths)
  have mul: "checked_mul ?q (layout_align l) = Inr (?q * layout_align l)"
    using fit by (simp add: checked_mul_eq_Inr)
  have p: "p = unat ?q * ?al + ?al" by (simp add: p_def q)
  have add: "checked_add (?q * layout_align l) (layout_align l) =
      (if p < 2 ^ 64 then Inr (of_nat p) else Inl ArithOverflow)"
    by (simp add: checked_add_def uint_add_less_iff[where 'a = 64, simplified] m p)
  have add2: "checked_add (of_nat p) (layout_size l) =
      (if p + unat (layout_size l) < 2 ^ 64 then Inr (of_nat (p + unat (layout_size l))) else Inl ArithOverflow)"
    if "p < 2 ^ 64"
    using that by (simp add: checked_add_def uint_add_less_iff[where 'a = 64, simplified] unat_of_nat)
  show "p + unat (layout_size l) < 2 ^ 64 \<Longrightarrow>
      alloc a l = Inr (of_nat p, a\<lparr>head := of_nat (p + unat (layout_size l))\<rparr>)"
    using assms(1,2) mul add add2 by (simp add: alloc_def checked_div_def)
  show "\<not> p + unat (layout_size l) < 2 ^ 64 \<Longrightarrow> alloc a l = Inl ArithOverflow"
    using assms(1,2) mul add add2 by (cases "p < 2 ^ 64") (simp_all add: alloc_def checked_div_def)
qed

lemma alloc_result:
  assumes "head a \<noteq> 0" and "layout_ok l" and "alloc a l = Inr (ptr, a')"
  shows "unat (head a) < unat ptr" and "unat (layout_align l) dvd unat ptr"
    and "unat (head a') = unat ptr + unat (layout_size l)" and "heap_bottom a' = heap_bottom a"
    and "unat ptr \<le> unat (head a) + unat (layout_align l)" and "head a' \<noteq> 0"
proof -
  let ?al = "unat (layout_align l)"
  define p where "p = (unat (head a) div ?al + 1) * ?al"
  have nz: "layout_align l \<noteq> 0" using layout_ok_nonzero[OF assms(2)] by auto
  have fit: "p + unat (layout_size l) < 2 ^ 64"
    using alloc_spec(2)[OF assms(1) nz] assms(3) unfolding p_def[symmetric] by fastforce
  have a': "ptr = of_nat p" "a' = a\<lparr>head := of_nat (p + unat (layout_size l))\<rparr>"
    using alloc_spec(1)[OF assms(1) nz] assms(3) fit unfolding p_def[symmetric] by simp_all
  have u: "unat ptr = p" and h: "unat (head a') = p + unat (layout_size l)"
    using fit unfolding a' by (simp_all add: unat_of_nat del: of_nat_add)
  show lt: "unat (head a) < unat ptr" and "unat ptr \<le> unat (head a) + ?al"
    unfolding u p_def using next_multiple[OF layout_ok_nonzero[OF assms(2)]] by blast+
  show "?al dvd unat ptr" by (simp add: u p_def)
  show "unat (head a') = unat ptr + unat (layout_size l)" using h u by simp
  then show "head a' \<noteq> 0" using lt by (auto simp: unat_eq_zero)
  show "heap_bottom a' = heap_bottom a" using a' by simp
qed

fun layouts_ok :: "request list \<Rightarrow> bool" where
  "layouts_ok [] \<longleftrightarrow> True"
| "layouts_ok (Alloc l # rs) \<longleftrightarrow> layout_ok l \<and> layouts_ok rs"
| "layouts_ok (Dealloc _ _ # rs) \<longleftrightarrow> layouts_ok rs"

lemma serve_regions:
  "head a \<noteq> 0 \<Longrightarrow> layouts_ok rs \<Longrightarrow> serve rs a = Inr (ps, a') \<Longrightarrow>
   regions_ok (unat (head a)) ps (unat (head a')) \<and> head a' \<noteq> 0"
proof (induction rs a arbitrary: ps rule: serve.induct)
  case (2 l rs a)
  obtain ptr a1 ps' where s: "alloc a l = Inr (ptr, a1)" "serve rs a1 = Inr (ps', a')" "ps = (ptr, l) # ps'"
    using "2.prems"(3) by (auto simp: res_simps)
  note r = alloc_result[OF "2.prems"(1) _ s(1)]
  show ?case using "2.IH"[OF s(1) refl _ _ s(2)] r "2.prems"(2) s(3) by auto
qed (auto simp: dealloc_def)

lemma regions_ok_le: "regions_ok lo ps hi \<Longrightarrow> lo \<le> hi"
  by (induction lo ps hi rule: regions_ok.induct) (auto simp: le_trans)

lemma regions_ok_bounds:
  "regions_ok lo ps hi \<Longrightarrow> p \<in> set ps \<Longrightarrow>
   lo < region_start p \<and> region_end p \<le> hi \<and> unat (layout_align (snd p)) dvd region_start p"
proof (induction lo ps hi rule: regions_ok.induct)
  case (2 lo q ps hi)
  then show ?case using regions_ok_le[of "region_end q" ps hi] by (cases q) auto
qed simp

lemma regions_ok_sorted:
  "regions_ok lo ps hi \<Longrightarrow> i < j \<Longrightarrow> j < length ps \<Longrightarrow> region_end (ps ! i) < region_start (ps ! j)"
proof (induction lo ps hi arbitrary: i j rule: regions_ok.induct)
  case (2 lo q ps hi)
  show ?case
  proof (cases i)
    case 0
    then have "ps ! (j - 1) \<in> set ps" using "2.prems" by simp
    then show ?thesis using regions_ok_bounds[of "region_end q" ps hi "ps ! (j - 1)"] "2.prems" 0 by simp
  next
    case (Suc i')
    then show ?thesis using "2.IH"[of i' "j - 1"] "2.prems" by simp
  qed
qed simp

section \<open>Properties\<close>

text \<open>
  C25: for every sequence of \<open>alloc\<close> and \<open>dealloc\<close> calls with alignments that are powers of two, the
  regions handed out are aligned as asked, lie above the bottom of the heap and below its final
  head, and never overlap: each ends before the next begins.
\<close>

theorem heap_regions_disjoint:
  assumes "layouts_ok rs" and "serve rs with_lock_new = Inr (ps, a')"
  shows "(\<forall>p\<in>set ps. unat (heap_bottom with_lock_new) < region_start p \<and> region_end p \<le> unat (head a') \<and>
           unat (layout_align (snd p)) dvd region_start p) \<and>
    (\<forall>j<length ps. \<forall>i<j. region_end (ps ! i) < region_start (ps ! j))"
proof -
  have "head with_lock_new \<noteq> 0" and b: "heap_bottom with_lock_new = head with_lock_new"
    by (simp_all add: with_lock_new_def KERNEL_BASE_def)
  then have "regions_ok (unat (head with_lock_new)) ps (unat (head a'))"
    using serve_regions assms by blast
  then show ?thesis unfolding b using regions_ok_bounds regions_ok_sorted by blast
qed

theorem heap_regions_disjoint_witness:
  "\<exists>ps a'. serve [Alloc \<lparr>layout_size = 24, layout_align = 8\<rparr>, Dealloc 0 \<lparr>layout_size = 24, layout_align = 8\<rparr>,
              Alloc \<lparr>layout_size = 100, layout_align = 16\<rparr>] with_lock_new = Inr (ps, a') \<and>
     length ps = 2 \<and> region_end (ps ! 0) < region_start (ps ! 1)"
proof -
  let ?rs = "[Alloc \<lparr>layout_size = 24, layout_align = 8\<rparr>, Dealloc 0 \<lparr>layout_size = 24, layout_align = 8\<rparr>,
              Alloc \<lparr>layout_size = 100, layout_align = 16\<rparr>]"
  have ok: "layouts_ok ?rs"
    using exI[of "\<lambda>k. k < 64 \<and> (8 :: usize) = 2 ^ k" 3] exI[of "\<lambda>k. k < 64 \<and> (16 :: usize) = 2 ^ k" 4]
    by (simp add: layout_ok_def)
  have s: "serve ?rs with_lock_new =
      Inr ([(0xffff800020000008, \<lparr>layout_size = 24, layout_align = 8\<rparr>),
            (0xffff800020000030, \<lparr>layout_size = 100, layout_align = 16\<rparr>)],
           \<lparr>heap_bottom = 0xffff800020000000, head = 0xffff800020000094\<rparr>)"
    by code_simp
  show ?thesis using heap_regions_disjoint[OF ok s] s by force
qed

text \<open>
  Property: one request either panics, exactly when the region does not fit below \<open>2^64\<close>, or moves the
  head by at most the size and the alignment: never a null pointer, never a failure reported to the
  caller, and at least one byte lost when the head was aligned already.
\<close>

theorem alloc_total:
  assumes "head a \<noteq> 0" and "layout_ok l"
  defines "ptr \<equiv> (unat (head a) div unat (layout_align l) + 1) * unat (layout_align l)"
  shows "alloc a l =
      (if ptr + unat (layout_size l) < 2 ^ 64
       then Inr (of_nat ptr, a\<lparr>head := of_nat (ptr + unat (layout_size l))\<rparr>) else Inl ArithOverflow) \<and>
    unat (head a) < ptr \<and> ptr \<le> unat (head a) + unat (layout_align l)"
proof -
  have nz: "0 < unat (layout_align l)" "layout_align l \<noteq> 0" using layout_ok_nonzero[OF assms(2)] by auto
  show ?thesis
    using alloc_spec[OF assms(1) nz(2)] next_multiple[OF nz(1), of "unat (head a)"] unfolding ptr_def by metis
qed

theorem alloc_total_witness:
  "alloc with_lock_new \<lparr>layout_size = 8, layout_align = 8\<rparr>
     = Inr (0xffff800020000008, with_lock_new\<lparr>head := 0xffff800020000010\<rparr>)"
proof -
  have ok: "layout_ok \<lparr>layout_size = 8, layout_align = 8\<rparr>"
    using exI[of "\<lambda>k. k < 64 \<and> (8 :: usize) = 2 ^ k" 3] by (simp add: layout_ok_def)
  show ?thesis
    using alloc_total[of with_lock_new, OF _ ok] by (simp add: with_lock_new_def KERNEL_BASE_def)
qed

end
