(* ===== verification/Mm.thy ===== *)
theory Mm
  imports Mapper_Map Malloc
begin

text \<open>
  Memory management of the kernel (\<open>src/arch/x86_64/mm.rs\<close>): turning the firmware's memory map into
  the free blocks of the page allocator, setting up the page table manager, and the page fault
  handler. The descriptors of the memory map are those of the \<open>uefi\<close> crate; only the fields the code
  reads are kept. The page tables that the boot code links into the kernel image are named by their
  link addresses, which are parameters.
\<close>

section \<open>Model\<close>

datatype memory_type =
    BOOT_SERVICES_CODE | BOOT_SERVICES_DATA | CONVENTIONAL
  | RUNTIME_SERVICES_CODE | RUNTIME_SERVICES_DATA | ACPI_RECLAIM | ACPI_NON_VOLATILE
  | LOADER_DATA | MMIO | MMIO_PORT_SPACE | RESERVED | OtherMemory

record memory_descriptor =
  ty_of :: memory_type
  phys_start :: u64
  page_count :: u64

definition SCRATCH :: usize where
  "SCRATCH = 0xffffffffc0000000"

definition in_range :: "usize \<times> usize \<Rightarrow> usize \<Rightarrow> bool" where
  "in_range r x \<longleftrightarrow> fst r \<le> x \<and> x < snd r"

definition exclude_range :: "usize \<times> usize \<Rightarrow> usize \<times> usize \<Rightarrow> (usize \<times> usize) option res" where
  "exclude_range = (\<lambda>(start, len) range.
     rbind (checked_add start len) (\<lambda>end'.
     case (in_range range start, in_range range end') of
       (True, True) \<Rightarrow> Inr None
     | (True, False) \<Rightarrow>
         rbind (checked_sub (snd range) start) (\<lambda>shift.
         rbind (checked_sub len shift) (\<lambda>len'.
         Inr (if len' = 0 then None else Some (snd range, len'))))
     | (False, True) \<Rightarrow>
         rbind (checked_sub end' (fst range)) (\<lambda>shift.
         rbind (checked_sub len shift) (\<lambda>len'.
         Inr (if len' = 0 then None else Some (start, len'))))
     | _ \<Rightarrow> Inr (Some (start, len))))"

fun exclude_ranges_from :: "(usize \<times> usize) option \<Rightarrow> (usize \<times> usize) list \<Rightarrow> (usize \<times> usize) option res" where
  "exclude_ranges_from b [] = Inr b"
| "exclude_ranges_from None (r # rs) = Inr None"
| "exclude_ranges_from (Some b) (r # rs) = rbind (exclude_range b r) (\<lambda>b'. exclude_ranges_from b' rs)"

definition exclude_ranges :: "memory_descriptor \<Rightarrow> (usize \<times> usize) list \<Rightarrow> (usize \<times> usize) option res" where
  "exclude_ranges mdesc ranges =
     rbind (checked_mul (page_count mdesc) 0x1000) (\<lambda>len.
     exclude_ranges_from (Some (phys_start mdesc, len)) ranges)"

definition is_usable :: "memory_type \<Rightarrow> bool" where
  "is_usable t \<longleftrightarrow> t \<in> {BOOT_SERVICES_CODE, BOOT_SERVICES_DATA, CONVENTIONAL}"

definition is_mapped_type :: "memory_type \<Rightarrow> bool" where
  "is_mapped_type t \<longleftrightarrow> t \<in> {RUNTIME_SERVICES_CODE, RUNTIME_SERVICES_DATA, ACPI_RECLAIM, ACPI_NON_VOLATILE,
     LOADER_DATA, MMIO, MMIO_PORT_SPACE, RESERVED}"

text \<open>The first loop of \<open>init_mm\<close>.\<close>

definition free_blocks :: "memory_descriptor list \<Rightarrow> (usize \<times> usize) list res" where
  "free_blocks memory_map =
     rfold (\<lambda>mdesc bs.
       if is_usable (ty_of mdesc)
       then rbind (exclude_ranges mdesc [(0, 0x800000)]) (\<lambda>b.
              Inr (case b of Some block \<Rightarrow> bs @ [block] | None \<Rightarrow> bs))
       else Inr bs) memory_map []"

text \<open>
  The link addresses of the boot page tables. A table linked at \<open>s\<close> is at the physical address
  \<open>s - KERNEL_BASE\<close>, which the mapper reaches at the offset \<open>PAGING_STRUCTURE_BASE\<close>.
\<close>

record boot_tables =
  KERNEL_PML4 :: usize
  BOOT_PAGING_PDPT :: usize
  BOOT_PAGING_PDT :: usize

definition static_table :: "usize \<Rightarrow> usize" where
  "static_table s = s - KERNEL_BASE + PAGING_STRUCTURE_BASE"

definition set_static ::
  "usize \<Rightarrow> usize \<Rightarrow> paging_struct_entry \<Rightarrow> (usize \<Rightarrow> paging_struct) \<Rightarrow> (usize \<Rightarrow> paging_struct) res" where
  "set_static s idx e tabs =
     (let p = static_table s in rbind (get_entry_mut idx (\<lambda>_. e) (tabs p)) (\<lambda>t. Inr (tabs(p := t))))"

text \<open>Mapping the first 2 MiB of paging structures.\<close>

definition map_paging_structures ::
  "boot_tables \<Rightarrow> usize \<Rightarrow> (usize \<Rightarrow> paging_struct) \<Rightarrow> (usize \<Rightarrow> paging_struct) res" where
  "map_paging_structures bt page_structure_base tabs =
     rbind (checked_sub (BOOT_PAGING_PDPT bt) KERNEL_BASE) (\<lambda>pdpt.
     rbind (set_static (KERNEL_PML4 bt) (drop_bit 39 (page_structure_base AND MASK_47_39)) (entry_new 0x3 pdpt) tabs) (\<lambda>tabs1.
     rbind (checked_sub (BOOT_PAGING_PDT bt) KERNEL_BASE) (\<lambda>pdt.
     rbind (set_static (BOOT_PAGING_PDPT bt) (drop_bit 30 (page_structure_base AND MASK_38_30))
              (entry_new (PRESENT_FLAG OR RW_FLAG) pdt) tabs1) (\<lambda>tabs2.
     set_static (BOOT_PAGING_PDT bt) (drop_bit 21 (page_structure_base AND MASK_29_21)) (entry_new 0x83 0x200000) tabs2))))"

definition map_descriptor :: "memory_descriptor \<Rightarrow> mapper \<Rightarrow> mapper res" where
  "map_descriptor mdesc m =
     (if is_mapped_type (ty_of mdesc)
      then rfold (\<lambda>p m.
             rbind (checked_mul p 0x1000) (\<lambda>off.
             rbind (checked_add (phys_start mdesc) off) (\<lambda>phys. map_mmio m phys)))
           (map of_nat [0..<unat (page_count mdesc)]) m
      else Inr m)"

definition init_mm ::
  "boot_tables \<Rightarrow> environment \<Rightarrow> (usize \<Rightarrow> paging_struct) \<Rightarrow> (usize \<Rightarrow> u8) \<Rightarrow> memory_descriptor list \<Rightarrow> mapper res" where
  "init_mm bt env tabs mem memory_map =
     rbind (free_blocks memory_map) (\<lambda>blocks.
     rbind (init pa_new blocks) (\<lambda>allocator.
     rbind (paging_structure_base env) (\<lambda>page_structure_base.
     rbind (map_paging_structures bt page_structure_base tabs) (\<lambda>tabs'.
     rbind (mapper_new page_structure_base 0x200000 7 allocator (flush_tlb env) tabs' mem) (\<lambda>m.
     rbind (alloc_page_at m 0xffff800000600000) (\<lambda>(_, m1).
     rbind (rfold map_descriptor memory_map m1) (\<lambda>m2.
     rbind (get_entry_mut 0 (set_flags PRESENT_FLAG False) (tables m2 (static_table (KERNEL_PML4 bt)))) (\<lambda>t.
     let m3 = m2\<lparr>tables := (tables m2)(static_table (KERNEL_PML4 bt) := t)\<rparr> in
     rbind (alloc_page_at m3 0x1000) (\<lambda>(_, m4).
     Inr (m4\<lparr>environment := flush_tlb (environment m4)\<rparr>))))))))))"

definition mm_phys_addr :: "mapper option \<Rightarrow> usize \<Rightarrow> usize option res" where
  "mm_phys_addr MAPPER linear_addr = rbind (expect MAPPER) (\<lambda>m. phys_addr m linear_addr)"

datatype fault_outcome = Halted | Returned mapper

definition page_fault_handler :: "mapper option \<Rightarrow> usize \<Rightarrow> usize \<Rightarrow> fault_outcome res" where
  "page_fault_handler MAPPER error_code virt =
     (if error_code AND PRESENT_FLAG = 0
      then if virt = 0 then Inr Halted
           else rbind (expect MAPPER) (\<lambda>m. rbind (alloc_page_at m virt) (\<lambda>(_, m'). Inr (Returned m')))
      else if error_code AND RW_FLAG = RW_FLAG
      then rbind (expect MAPPER) (\<lambda>m. rbind (cow m virt SCRATCH) (\<lambda>(_, m'). Inr (Returned m')))
      else Inr Halted)"

section \<open>The free blocks of the memory map\<close>

text \<open>What is left of a block above the first 8 MiB.\<close>

definition LOW :: usize where "LOW = 0x800000"

definition above_low :: "usize \<times> usize \<Rightarrow> (usize \<times> usize) option" where
  "above_low = (\<lambda>(s, n).
     if unat s + unat n \<le> unat LOW then None
     else if s < LOW then Some (LOW, s + n - LOW) else Some (s, n))"

lemma exclude_low:
  assumes "unat s + unat n < 2 ^ 64" and "n \<noteq> 0"
  shows "exclude_range (s, n) (0, LOW) = Inr (above_low (s, n))"
proof -
  have e: "unat (s + n) = unat s + unat n" and n: "0 < unat n"
    using assms by (simp_all add: unat_add_usize unat_gt_0)
  have add: "checked_add s n = Inr (s + n)" using assms(1) by simp
  consider "unat s + unat n < unat LOW" | "unat s + unat n = unat LOW"
    | "unat LOW < unat s + unat n" "unat s < unat LOW" | "unat LOW \<le> unat s" by linarith
  then show ?thesis
  proof cases
    case 1
    then show ?thesis
      using add e by (simp add: exclude_range_def in_range_def above_low_def word_less_nat_alt)
  next
    case 2
    then have "LOW - s = n" "s < LOW" "\<not> s + n < LOW"
      using e n by (auto simp: word_unat_eq_iff unat_sub word_le_nat_alt word_less_nat_alt)
    then show ?thesis
      using add 2 by (simp add: exclude_range_def in_range_def above_low_def checked_sub_def less_imp_le)
  next
    case 3
    then have lt: "s < LOW" "\<not> s + n < LOW" using e by (simp_all add: word_less_nat_alt)
    have sub: "unat (LOW - s) = unat LOW - unat s" using lt(1) by (simp add: unat_sub less_imp_le)
    then have le: "LOW - s \<le> n" using 3 by (simp add: word_le_nat_alt)
    have "unat (n - (LOW - s)) = unat n - (unat LOW - unat s)" using le sub by (simp add: unat_sub)
    then have "unat (n - (LOW - s)) \<noteq> unat (0 :: usize)" using 3 by simp
    then have "n - (LOW - s) \<noteq> 0" by metis
    then show ?thesis
      using add lt le 3 by (simp add: exclude_range_def in_range_def above_low_def checked_sub_def less_imp_le algebra_simps)
  next
    case 4
    then have "\<not> s < LOW" "\<not> s + n < LOW" using e by (simp_all add: word_less_nat_alt)
    then show ?thesis using add 4 n by (simp add: exclude_range_def in_range_def above_low_def)
  qed
qed

lemma above_low_range:
  assumes "page_range s n"
  shows "case above_low (s, n) of
      None \<Rightarrow> addr_range s n \<subseteq> {x. unat x < unat LOW}
    | Some (s', n') \<Rightarrow> page_range s' n' \<and> addr_range s' n' = addr_range s n - {x. unat x < unat LOW}"
proof -
  have pr: "aligned s 12" "aligned n 12" "n \<noteq> 0" "unat s + unat n < 2 ^ 64" using assms by (simp_all add: page_range_def)
  have e: "unat (s + n) = unat s + unat n" using pr(4) by (simp add: unat_add_usize)
  have low: "aligned LOW 12" by (simp add: LOW_def aligned_def)
  consider "unat s + unat n \<le> unat LOW" | "unat LOW < unat s + unat n" "unat s < unat LOW" | "unat LOW < unat s + unat n" "unat LOW \<le> unat s" by linarith
  then show ?thesis
  proof cases
    case 1
    then show ?thesis by (auto simp: above_low_def addr_range_def)
  next
    case 2
    then have u: "unat (s + n - LOW) = unat s + unat n - unat LOW" using e by (simp add: unat_sub word_le_nat_alt)
    have "2 ^ 12 dvd unat s + unat n - unat LOW"
      using pr(1,2) low unfolding aligned_unat by (intro dvd_diff_nat dvd_add)
    then have "page_range LOW (s + n - LOW)"
      using 2 u pr(4) low unfolding page_range_def aligned_unat by (auto simp: unat_eq_zero[symmetric] simp del: unat_eq_zero)
    moreover have "addr_range LOW (s + n - LOW) = addr_range s n - {x. unat x < unat LOW}"
      unfolding addr_range_def u using 2 by auto
    ultimately show ?thesis using 2 by (simp add: above_low_def word_less_nat_alt)
  next
    case 3
    then show ?thesis using assms by (auto simp: above_low_def word_less_nat_alt addr_range_def)
  qed
qed

definition desc_range :: "memory_descriptor \<Rightarrow> usize \<times> usize" where
  "desc_range d = (phys_start d, page_count d * 0x1000)"

definition usable_ranges :: "memory_descriptor list \<Rightarrow> (usize \<times> usize) list" where
  "usable_ranges mm = map desc_range (filter (\<lambda>d. is_usable (ty_of d)) mm)"

definition memory_map_ok :: "memory_descriptor list \<Rightarrow> bool" where
  "memory_map_ok mm \<longleftrightarrow>
     list_all (\<lambda>d. is_usable (ty_of d) \<longrightarrow> unat (page_count d) < 2 ^ 52) mm \<and> good_ranges (usable_ranges mm)"

lemma good_ranges_page: "good_ranges rs \<Longrightarrow> (s, n) \<in> set rs \<Longrightarrow> page_range s n"
  by (induction rs) auto

lemma exclude_ranges_low:
  assumes "page_range (phys_start d) (page_count d * 0x1000)" and "unat (page_count d) < 2 ^ 52"
  shows "exclude_ranges d [(0, 0x800000)] = Inr (above_low (desc_range d))"
proof -
  have "checked_mul (page_count d) 0x1000 = Inr (page_count d * 0x1000)"
    using assms(2) by (simp add: checked_mul_eq_Inr)
  moreover have "exclude_range (desc_range d) (0, LOW) = Inr (above_low (desc_range d))"
    using assms(1) exclude_low unfolding desc_range_def page_range_def by blast
  ultimately show ?thesis by (simp add: exclude_ranges_def desc_range_def LOW_def)
qed

lemma free_blocks_eq:
  assumes "memory_map_ok mm"
  shows "free_blocks mm = Inr (List.map_filter above_low (usable_ranges mm))"
proof -
  have pr: "is_usable (ty_of d) \<Longrightarrow> page_range (phys_start d) (page_count d * 0x1000) \<and> unat (page_count d) < 2 ^ 52"
    if "d \<in> set mm" for d
    using that assms good_ranges_page[of "usable_ranges mm" "phys_start d" "page_count d * 0x1000"]
    by (auto simp: memory_map_ok_def usable_ranges_def desc_range_def list_all_iff)
  have "rfold (\<lambda>mdesc bs.
       if is_usable (ty_of mdesc)
       then rbind (exclude_ranges mdesc [(0, 0x800000)]) (\<lambda>b.
              Inr (case b of Some block \<Rightarrow> bs @ [block] | None \<Rightarrow> bs))
       else Inr bs) ds bs = Inr (bs @ List.map_filter above_low (usable_ranges ds))" if "set ds \<subseteq> set mm" for ds bs
    using that
  proof (induction ds arbitrary: bs)
    case Nil
    then show ?case by (simp add: usable_ranges_def map_filter_simps)
  next
    case (Cons d ds)
    then show ?case
      using exclude_ranges_low[of d] pr[of d]
      by (cases "is_usable (ty_of d)"; cases "above_low (desc_range d)") (simp_all add: usable_ranges_def map_filter_simps)
  qed
  then show ?thesis by (simp add: free_blocks_def)
qed

lemma above_low_shrinks:
  assumes "above_low (s, n) = Some (s', n')" and "unat s + unat n < 2 ^ 64"
  shows "unat s \<le> unat s'" and "unat s' + unat n' = unat s + unat n"
proof -
  have e: "unat (s + n) = unat s + unat n" using assms(2) by (simp add: unat_add_usize)
  have "s < LOW \<and> unat LOW < unat s + unat n \<and> s' = LOW \<and> n' = s + n - LOW \<or> s' = s \<and> n' = n"
    using assms(1) by (auto simp: above_low_def split: if_splits)
  then show "unat s \<le> unat s'" and "unat s' + unat n' = unat s + unat n"
    using e by (auto simp: word_less_nat_alt unat_sub word_le_nat_alt)
qed

lemma above_low_good:
  "good_ranges rs \<Longrightarrow> good_ranges (List.map_filter above_low rs) \<and>
   range_union (List.map_filter above_low rs) = range_union rs - {x. unat x < unat LOW}"
proof (induction rs)
  case Nil
  then show ?case by (simp add: map_filter_simps range_union_def)
next
  case (Cons r rs)
  obtain s n where r: "r = (s, n)" by fastforce
  have pr: "page_range s n" and dis: "list_all (range_disjoint (s, n)) rs" and g: "good_ranges rs"
    using Cons.prems r by auto
  note al = above_low_range[OF pr]
  have un: "range_union (r # rs) = addr_range s n \<union> range_union rs" by (simp add: r range_union_def)
  show ?case
  proof (cases "above_low (s, n)")
    case None
    then show ?thesis using Cons.IH[OF g] al un r by (auto simp: map_filter_simps)
  next
    case (Some b)
    obtain s' n' where b: "b = (s', n')" by fastforce
    have sh: "unat s \<le> unat s'" "unat s' + unat n' = unat s + unat n"
      using above_low_shrinks[of s n s' n'] Some b pr by (auto simp: page_range_def)
    have "range_disjoint (s', n') q" if q: "q \<in> set (List.map_filter above_low rs)" for q
    proof -
      obtain p where "p \<in> set rs" "above_low p = Some q" using q by (auto simp: List.map_filter_def)
      then obtain t k t' k' where t: "(t, k) \<in> set rs" "above_low (t, k) = Some (t', k')" "q = (t', k')"
        by (metis surj_pair)
      have "page_range t k" using good_ranges_page[OF g t(1)] .
      then have "unat t \<le> unat t'" "unat t' + unat k' = unat t + unat k"
        using above_low_shrinks[OF t(2)] by (auto simp: page_range_def)
      then show ?thesis using dis t sh by (auto simp: list_all_iff)
    qed
    then show ?thesis
      using Cons.IH[OF g] al un Some b r by (auto simp: map_filter_simps list_all_iff range_union_def)
  qed
qed

section \<open>Properties\<close>

text \<open>
  C8: from the firmware's memory map to the page allocator: if the usable descriptors are page
  aligned, non-empty and disjoint, the first loop of \<open>init_mm\<close> and \<open>PageAllocator::init\<close> return, the
  free lists satisfy their invariant, and the free memory lies in usable descriptors and above the
  first 8 MiB; everything of it that is not in a whole 1 MiB block of it is free.
\<close>

theorem memory_map_to_free_memory:
  assumes "memory_map_ok mm"
  defines "F \<equiv> range_union (usable_ranges mm) - {x. unat x < 0x800000}"
  shows "\<exists>bs pa. free_blocks mm = Inr bs \<and> init pa_new bs = Inr pa \<and> pa_ok pa \<and>
    covered pa \<subseteq> F \<and> outside_1MiB F \<subseteq> covered pa"
proof -
  let ?bs = "List.map_filter above_low (usable_ranges mm)"
  have "good_ranges ?bs" and F: "range_union ?bs = F"
    using above_low_good[of "usable_ranges mm"] assms(1) unfolding F_def memory_map_ok_def by (simp_all add: LOW_def)
  then obtain pa where "init pa_new ?bs = Inr pa" "init_post (pa_new\<lparr>free_lists := replicate 8 []\<rparr>) F pa"
    using init_ranges_correct[OF _ pa_init_lists(1,2), of ?bs] pa_init_lists(3) by (auto simp: init_eq)
  then show ?thesis
    using free_blocks_eq[OF assms(1)] pa_init_lists(3) by (auto simp: init_post_def pa_ok_def)
qed

theorem memory_map_to_free_memory_witness:
  "\<exists>bs pa. free_blocks [\<lparr>ty_of = CONVENTIONAL, phys_start = 0x700000, page_count = 0x180\<rparr>,
       \<lparr>ty_of = RESERVED, phys_start = 0x880000, page_count = 1\<rparr>] = Inr bs \<and>
     init pa_new bs = Inr pa \<and> pa_ok pa \<and> 0x7ff000 \<notin> covered pa"
proof -
  let ?mm = "[\<lparr>ty_of = CONVENTIONAL, phys_start = 0x700000, page_count = 0x180\<rparr>,
       \<lparr>ty_of = RESERVED, phys_start = 0x880000, page_count = 1\<rparr>] :: memory_descriptor list"
  have "memory_map_ok ?mm"
    by (simp add: memory_map_ok_def usable_ranges_def is_usable_def desc_range_def page_range_def aligned_def)
  from memory_map_to_free_memory[OF this] show ?thesis by auto
qed

text \<open>What the page fault handler relies on: the free pages are addressable and not mapped.\<close>

definition free_pages_ok :: "mapper \<Rightarrow> bool" where
  "free_pages_ok m \<longleftrightarrow> pa_ok (page_alloc m) \<and> covered (page_alloc m) \<subseteq> {x. unat x < 2 ^ 52} \<and>
     (\<forall>k\<in>set (map fst (mapped_pages m)). k \<notin> covered (page_alloc m))"

lemma aligned_masks:
  assumes "aligned a 12"
  shows "a AND MASK_11_0 = 0" and "unat a < 2 ^ 52 \<Longrightarrow> a AND MASK_51_12 = a"
proof -
  show "a AND MASK_11_0 = 0"
    using assms by (simp add: aligned_def MASK_11_0_def take_bit_eq_mask mask_eq_exp_minus_1)
  assume "unat a < 2 ^ 52"
  then have small: "take_bit 52 a = a" by (simp add: word_unat_eq_iff unsigned_take_bit_eq take_bit_nat_eq_self)
  have "bit a j \<Longrightarrow> 12 \<le> j \<and> j < 52" for j
    using assms small bit_take_bit_iff[of 52 a j] unfolding aligned_bits by (metis not_le)
  then show "a AND MASK_51_12 = a" by (intro bit_eqI) (auto simp: bit_and_iff entry_bits)
qed

lemma ready_page_alloc: "ready (m\<lparr>page_alloc := pa\<rparr>) ty root \<longleftrightarrow> ready m ty root"
  and no_huge_page_alloc: "no_huge_page (m\<lparr>page_alloc := pa\<rparr>) root v \<longleftrightarrow> no_huge_page m root v"
  and phys_addr_page_alloc: "phys_addr (m\<lparr>page_alloc := pa\<rparr>) v = phys_addr m v"
proof -
  have s: "walk_same m (m\<lparr>page_alloc := pa\<rparr>)" "walk_same (m\<lparr>page_alloc := pa\<rparr>) m" by (rule walk_same_record; simp)+
  show "ready (m\<lparr>page_alloc := pa\<rparr>) ty root \<longleftrightarrow> ready m ty root"
    using walk_same_tables_ok[OF s(1)] walk_same_tables_ok[OF s(2)] by (auto simp: ready_def)
  have w: "walk_to_leaf (m\<lparr>page_alloc := pa\<rparr>) r v = walk_to_leaf m r v" for r v
    by (simp add: walk_to_leaf_descend walk_same_descend[OF s(1)])
  then show "no_huge_page (m\<lparr>page_alloc := pa\<rparr>) root v \<longleftrightarrow> no_huge_page m root v" by (simp add: no_huge_page_def)
  show "phys_addr (m\<lparr>page_alloc := pa\<rparr>) v = phys_addr m v" by (simp add: phys_addr_def w)
qed

text \<open>
  C9: a page fault on a page that is not present, at a page-aligned address: the handler returns, the
  address is mapped to a page that was free, the page is not free any more, and no other address
  changes its translation.
\<close>

theorem page_fault_maps_page:
  assumes "ready m ty root" and "no_huge_page m root virt" and "unat (next_idx m) + 2 < table_count m"
    and "free_pages_ok m" and "free_lists (page_alloc m) ! 0 \<noteq> []"
    and "error_code AND PRESENT_FLAG = 0" and "virt \<noteq> 0" and "virt AND MASK_11_0 = 0"
  shows "\<exists>m' a. page_fault_handler (Some m) error_code virt = Inr (Returned m') \<and>
    block_span a 12 \<subseteq> covered (page_alloc m) \<and> covered (page_alloc m') = covered (page_alloc m) - block_span a 12 \<and>
    (\<forall>v. phys_addr m' v =
      (if v AND MASK_47_12 = virt AND MASK_47_12 then Inr (Some (a OR (v AND MASK_11_0))) else phys_addr m v))"
proof -
  let ?pa = "page_alloc m" and ?a = "hd (free_lists (page_alloc m) ! (12 - 12))"
  have h: "pa_wf ?pa" "12 \<le> (12 :: nat)" "12 - 12 < length (free_lists ?pa)" "free_lists ?pa ! (12 - 12) \<noteq> []"
    using assms(4,5) by (simp_all add: free_pages_ok_def pa_ok_def)
  note s = allocate_hit_spec[OF h]
  define pa' where "pa' = set_list ?pa (12 - 12) (bts_remove ?a (free_lists ?pa ! (12 - 12)))"
  define m1 where "m1 = m\<lparr>page_alloc := pa'\<rparr>"
  have a: "?a \<in> covered ?pa" using s(4) block_span_self by blast
  then have mask: "?a AND MASK_11_0 = 0" "?a AND MASK_51_12 = ?a"
    using aligned_masks[OF s(3)] assms(4) by (auto simp: free_pages_ok_def)
  have none: "map_of (mapped_pages m1) (?a AND MASK_51_12) = None"
    using a assms(4) mask(2) by (auto simp: free_pages_ok_def m1_def map_of_eq_None_iff)
  have sr: "same_region m m1" "next_idx m1 = next_idx m" by (simp_all add: m1_def same_region_def)
  have rd: "ready m1 ty root" and nh: "no_huge_page m1 root virt" and room: "unat (next_idx m1) + 2 < table_count m1"
    using assms(1-3) same_region_simps(5)[OF sr(1)] by (simp_all add: m1_def ready_page_alloc no_huge_page_alloc)
  obtain m' where run: "mapper_map m1 ?a virt = Inr (Ok (), m')"
    using mapper_map_fresh[OF rd nh room mask(1) assms(8)] none by blast
  note t = mapper_map_translate[OF rd nh room run]
  have "page_fault_handler (Some m) error_code virt = Inr (Returned m')"
    using assms(6,7) s(1) run by (simp add: page_fault_handler_def alloc_page_at_def get_addr_def m1_def pa'_def)
  moreover have "page_alloc m' = pa'" using t(1) by (auto simp: m1_def)
  ultimately show ?thesis
    using s(4,5) t(2) mask(2) phys_addr_page_alloc[where m=m and pa=pa'] unfolding pa'_def[symmetric] m1_def[symmetric]
    by (intro exI[of _ m'] exI[of _ ?a]) simp
qed

lemma sample_free_pages: "free_pages_ok sample_mapper" "free_lists (page_alloc sample_mapper) ! 0 \<noteq> []"
proof -
  have o: "pa_wf (page_alloc sample_mapper)" "length (free_lists (page_alloc sample_mapper)) = 8"
    "covered (page_alloc sample_mapper) = block_span 0x5000 12"
    using one_block[of 0 "0x5000"] by (simp_all add: sample_mapper_def aligned_def)
  have "block_span 0x5000 12 \<subseteq> {x. unat x < 2 ^ 52}" using block_span_interval[of "0x5000" 12] by (auto simp: aligned_def)
  then show "free_pages_ok sample_mapper" using o by (simp add: free_pages_ok_def pa_ok_def) (simp add: sample_mapper_def)
  show "free_lists (page_alloc sample_mapper) ! 0 \<noteq> []" by (simp add: sample_mapper_def)
qed

theorem page_fault_maps_page_witness:
  "\<exists>m'. page_fault_handler (Some sample_mapper) 0 0x400000 = Inr (Returned m') \<and>
     (\<exists>a. phys_addr m' 0x400000 = Inr (Some a)) \<and> phys_addr m' 0x500000 = phys_addr sample_mapper 0x500000"
  using page_fault_maps_page[OF sample_ready sample_no_huge sample_room sample_free_pages, of 0 "0x400000"]
  by (auto simp: MASK_11_0_def MASK_47_12_def)

text \<open>
  C35: a page fault at an address that is not page aligned, which is what the processor reports for
  almost every access: the handler returns without mapping anything, so the access faults again, and
  each time a page of the free memory is lost.
\<close>

theorem page_fault_unaligned_no_progress:
  assumes "pa_ok (page_alloc m)" and "free_lists (page_alloc m) ! 0 \<noteq> []"
    and "error_code AND PRESENT_FLAG = 0" and "virt AND MASK_11_0 \<noteq> 0"
  shows "\<exists>m' a. page_fault_handler (Some m) error_code virt = Inr (Returned m') \<and>
    (\<forall>v. phys_addr m' v = phys_addr m v) \<and> mapped_pages m' = mapped_pages m \<and>
    block_span a 12 \<subseteq> covered (page_alloc m) \<and> covered (page_alloc m') = covered (page_alloc m) - block_span a 12"
proof -
  have "virt \<noteq> 0" using assms(4) by auto
  obtain a pa where "alloc_page_at m virt = Inr (Err (MisalignedAddress virt Normal), m\<lparr>page_alloc := pa\<rparr>)"
    "block_span a 12 \<subseteq> covered (page_alloc m)" "covered pa = covered (page_alloc m) - block_span a 12"
    using alloc_page_at_misaligned_leaks[OF assms(1,4,2)] by blast
  then show ?thesis
    using \<open>virt \<noteq> 0\<close> assms(3) phys_addr_page_alloc
    by (intro exI[of _ "m\<lparr>page_alloc := pa\<rparr>"] exI[of _ a]) (simp add: page_fault_handler_def)
qed

theorem page_fault_unaligned_no_progress_witness:
  "\<exists>m'. page_fault_handler (Some sample_mapper) 0 0x400123 = Inr (Returned m') \<and>
     phys_addr m' 0x400123 = phys_addr sample_mapper 0x400123 \<and>
     covered (page_alloc m') \<noteq> covered (page_alloc sample_mapper)"
proof -
  have "pa_ok (page_alloc sample_mapper)" using sample_free_pages(1) by (simp add: free_pages_ok_def)
  then obtain m' a where "page_fault_handler (Some sample_mapper) 0 0x400123 = Inr (Returned m')"
    "\<forall>v. phys_addr m' v = phys_addr sample_mapper v" "block_span a 12 \<subseteq> covered (page_alloc sample_mapper)"
    "covered (page_alloc m') = covered (page_alloc sample_mapper) - block_span a 12"
    using page_fault_unaligned_no_progress[of sample_mapper 0 "0x400123"] sample_free_pages(2) by (auto simp: MASK_11_0_def)
  moreover have "a \<in> block_span a 12" by (rule block_span_self)
  ultimately show ?thesis by blast
qed

end
