(* ===== verification/Task.thy ===== *)
theory Task
  imports Binary_Heap Machine Clock Mm
begin

text \<open>
  The tasks of the kernel (\<open>src/kernel/sched/task.rs\<close>). A task is an 8 KiB block of memory with its
  \<open>TaskInfo\<close> at the bottom and its stack above; the task list holds the addresses of the blocks. The
  record \<open>kernel\<close> gathers the state that the methods reach: the processor, the task list, and the
  statics they go through (the lock of the scheduler, the heap, the page table manager, the clock).
  Addresses that only the linker knows are the record \<open>code_addrs\<close>.
\<close>

section \<open>Model\<close>

definition KERNEL_STACK_SIZE :: usize where
  "KERNEL_STACK_SIZE = 0x2000"

definition TASK_STRUCT_MASK :: usize where
  "TASK_STRUCT_MASK = (KERNEL_STACK_SIZE - 1) XOR 0xffffffffffffffff"

text \<open>\<open>size_of::<TaskInfo>()\<close>: five fields of 8 bytes, two registers, a \<open>u32\<close> and a \<open>bool\<close>, padded.\<close>

definition TASK_INFO_SIZE :: usize where
  "TASK_INFO_SIZE = 56"

definition ACTUAL_STACK_SIZE :: usize where
  "ACTUAL_STACK_SIZE = KERNEL_STACK_SIZE - TASK_INFO_SIZE"

definition SCHED_LATENCY :: u64 where
  "SCHED_LATENCY = 20000000"

record task_list =
  next_task_id :: usize
  current :: "usize option"
  tasks :: "(usize, usize) btree_map"
  schedulable :: "task_info list"

definition task_list_new :: task_list where
  "task_list_new = \<lparr>next_task_id = 0, current = None, tasks = [], schedulable = []\<rparr>"

record 'l kernel =
  cpu :: machine
  sched_tasks :: task_list
  sched_mutex :: 'l
  kernel_heap :: kernel_allocator
  MAPPER :: "mapper option"
  CLOCK :: "usize clock option"

record code_addrs =
  boot_stack :: usize
  task_entry_addr :: usize
  task_entry_ret :: usize
  switch_ret :: usize
  guard_slot :: usize

subsection \<open>The order of the tasks\<close>

datatype ordering = Less | Equal | Greater

fun reverse :: "ordering \<Rightarrow> ordering" where
  "reverse Less = Greater"
| "reverse Equal = Equal"
| "reverse Greater = Less"

definition cmp_u64 :: "u64 \<Rightarrow> u64 \<Rightarrow> ordering" where
  "cmp_u64 a b = (if a < b then Less else if a = b then Equal else Greater)"

definition task_cmp :: "task_info \<Rightarrow> task_info \<Rightarrow> ordering" where
  "task_cmp a b = reverse (cmp_u64 (total_runtime a) (total_runtime b))"

definition task_partial_cmp :: "task_info \<Rightarrow> task_info \<Rightarrow> ordering option" where
  "task_partial_cmp a b = map_option reverse (Some (cmp_u64 (total_runtime a) (total_runtime b)))"

definition task_eq :: "task_info \<Rightarrow> task_info \<Rightarrow> bool" where
  "task_eq a b \<longleftrightarrow> total_runtime a = total_runtime b"

text \<open>\<open>a <= b\<close> of \<open>PartialOrd\<close>, which the heap uses.\<close>

definition task_le :: "task_info \<Rightarrow> task_info \<Rightarrow> bool" where
  "task_le a b \<longleftrightarrow> task_partial_cmp a b \<in> {Some Less, Some Equal}"

subsection \<open>Flags\<close>

definition is_runnable :: "u32 \<Rightarrow> bool" where
  "is_runnable f \<longleftrightarrow> f AND 1 \<noteq> 0"

definition set_is_runnable :: "bool \<Rightarrow> u32 \<Rightarrow> u32" where
  "set_is_runnable b f = (case b of True \<Rightarrow> f OR 1 | False \<Rightarrow> f AND NOT 1)"

subsection \<open>The running task\<close>

text \<open>\<open>_current_task\<close>: the task at the bottom of the block that the stack pointer points into.\<close>

definition current_task_ptr :: "machine \<Rightarrow> usize" where
  "current_task_ptr m = regs m RSP AND TASK_STRUCT_MASK"

definition current_task :: "machine \<Rightarrow> usize" where
  "current_task m = task_id (infos m (current_task_ptr m))"

definition set_info :: "usize \<Rightarrow> (task_info \<Rightarrow> task_info) \<Rightarrow> machine \<Rightarrow> machine" where
  "set_info p f m = m\<lparr>infos := (infos m)(p := f (infos m p))\<rparr>"

definition set_resume_interrupts :: "bool \<Rightarrow> machine \<Rightarrow> machine" where
  "set_resume_interrupts enabled m = set_info (current_task_ptr m) (\<lambda>i. i\<lparr>interrupt_enabled := enabled\<rparr>) m"

definition resume_interrupts :: "machine \<Rightarrow> bool" where
  "resume_interrupts m = interrupt_enabled (infos m (current_task_ptr m))"

subsection \<open>The task list\<close>

abbreviation upd_tasks :: "(task_list \<Rightarrow> task_list) \<Rightarrow> 'l kernel \<Rightarrow> 'l kernel" where
  "upd_tasks f k \<equiv> k\<lparr>sched_tasks := f (sched_tasks k)\<rparr>"

abbreviation upd_cpu :: "(machine \<Rightarrow> machine) \<Rightarrow> 'l kernel \<Rightarrow> 'l kernel" where
  "upd_cpu f k \<equiv> k\<lparr>cpu := f (cpu k)\<rparr>"

abbreviation push_schedulable :: "task_info \<Rightarrow> 'l kernel \<Rightarrow> 'l kernel" where
  "push_schedulable i k \<equiv> upd_tasks (\<lambda>tl. tl\<lparr>schedulable := bh_push task_le i (schedulable tl)\<rparr>) k"

definition task_get :: "usize \<Rightarrow> 'l kernel \<Rightarrow> usize option" where
  "task_get tid k = (case map_of (tasks (sched_tasks k)) tid of None \<Rightarrow> None | Some _ \<Rightarrow> Some tid)"

definition task_get_ptr :: "usize \<Rightarrow> 'l kernel \<Rightarrow> usize res" where
  "task_get_ptr tid k = expect (map_of (tasks (sched_tasks k)) tid)"

definition set_current_task :: "usize \<Rightarrow> u64 \<Rightarrow> 'l kernel \<Rightarrow> 'l kernel res" where
  "set_current_task tid now k =
     (let k1 = upd_tasks (\<lambda>tl. tl\<lparr>current := Some tid\<rparr>) k in
      rbind (expect (map_of (tasks (sched_tasks k1)) tid)) (\<lambda>p.
      Inr (upd_cpu (set_info p (\<lambda>i. i\<lparr>last_scheduled := now\<rparr>)) k1)))"

definition update_runtime :: "usize \<Rightarrow> u64 \<Rightarrow> 'l kernel \<Rightarrow> 'l kernel res" where
  "update_runtime tid timestamp k =
     (let task_count = length (tasks (sched_tasks k)) in
      rbind (expect (map_of (tasks (sched_tasks k)) tid)) (\<lambda>p.
      let i = infos (cpu k) p in
      rbind (checked_sub timestamp (last_scheduled i)) (\<lambda>delta.
      rbind (checked_mul delta (of_nat task_count)) (\<lambda>delta.
      rbind (checked_add (total_runtime i) delta) (\<lambda>total.
      let k1 = upd_cpu (set_info p (\<lambda>i. i\<lparr>total_runtime := total\<rparr>)) k in
      Inr (if is_runnable (flags (infos (cpu k1) p)) then push_schedulable (infos (cpu k1) p) k1 else k1))))))"

definition get_run_until :: "usize \<Rightarrow> 'l kernel \<Rightarrow> u64 res" where
  "get_run_until tid k =
     rbind (expect (map_of (tasks (sched_tasks k)) tid)) (\<lambda>p. Inr (run_until (infos (cpu k) p)))"

definition set_run_until :: "usize \<Rightarrow> u64 \<Rightarrow> 'l kernel \<Rightarrow> 'l kernel res" where
  "set_run_until tid begin_at k =
     (let len = of_nat (length (tasks (sched_tasks k))) in
      rbind (expect (map_of (tasks (sched_tasks k)) tid)) (\<lambda>p.
      rbind (checked_div SCHED_LATENCY len) (\<lambda>slice.
      rbind (checked_add begin_at slice) (\<lambda>t.
      Inr (upd_cpu (set_info p (\<lambda>i. i\<lparr>run_until := t\<rparr>)) k)))))"

definition set_runnable :: "usize \<Rightarrow> bool \<Rightarrow> 'l kernel \<Rightarrow> 'l kernel res" where
  "set_runnable tid runnable k =
     (let k1 = upd_tasks (\<lambda>tl. tl\<lparr>schedulable := bh_retain task_le (\<lambda>x. task_id x \<noteq> tid) (schedulable tl)\<rparr>) k in
      rbind (expect (map_of (tasks (sched_tasks k1)) tid)) (\<lambda>p.
      let k2 = upd_cpu (set_info p (\<lambda>i. i\<lparr>flags := set_is_runnable runnable (flags i)\<rparr>)) k1 in
      Inr (if runnable then push_schedulable (infos (cpu k2) p) k2 else k2)))"

definition next_task :: "'l kernel \<Rightarrow> usize option \<times> 'l kernel" where
  "next_task k =
     (case bh_pop task_le (schedulable (sched_tasks k)) of
        None \<Rightarrow> (None, k)
      | Some (i, h) \<Rightarrow> (Some (task_id i), upd_tasks (\<lambda>tl. tl\<lparr>schedulable := h\<rparr>) k))"

definition create_task :: "usize \<Rightarrow> 'l kernel \<Rightarrow> (usize \<times> 'l kernel) res" where
  "create_task kernel_stack k =
     (let tid = next_task_id (sched_tasks k);
          k1 = upd_cpu (set_info kernel_stack (\<lambda>i. i\<lparr>task_id := tid\<rparr>)) k;
          k2 = upd_tasks (\<lambda>tl. tl\<lparr>tasks := btm_insert tid kernel_stack (tasks tl)\<rparr>) k1
      in rbind (checked_add tid 1) (\<lambda>n. Inr (tid, upd_tasks (\<lambda>tl. tl\<lparr>next_task_id := n\<rparr>) k2)))"

text \<open>The address of \<open>stack[i]\<close> of the task at \<open>p\<close>, filling the stack, writing a quadword to it.\<close>

definition stack_addr :: "usize \<Rightarrow> usize \<Rightarrow> usize" where
  "stack_addr p i = p + TASK_INFO_SIZE + i"

definition zero_stack :: "usize \<Rightarrow> machine \<Rightarrow> machine" where
  "zero_stack p m =
     m\<lparr>qmem := (\<lambda>a. if p + TASK_INFO_SIZE \<le> a \<and> a < p + KERNEL_STACK_SIZE then 0 else qmem m a)\<rparr>"

definition write_stack :: "usize \<Rightarrow> usize \<Rightarrow> u64 \<Rightarrow> machine \<Rightarrow> machine" where
  "write_stack p i v m = m\<lparr>qmem := (qmem m)(stack_addr p i := v)\<rparr>"

text \<open>The part of \<open>new_task\<close> that fills the new block.\<close>

definition init_task :: "code_addrs \<Rightarrow> usize \<Rightarrow> usize \<Rightarrow> usize \<Rightarrow> machine \<Rightarrow> machine" where
  "init_task ca p cr3' entry m =
     (let m1 = set_info p (\<lambda>i. i\<lparr>registers := \<lparr>stack_top = 0, task_cr3 = cr3'\<rparr>, flags := 1, last_scheduled := 0,
                total_runtime := 0, interrupt_enabled := True\<rparr>) m;
          m2 = zero_stack p m1;
          m3 = write_stack p (ACTUAL_STACK_SIZE - 8) (task_entry_addr ca) m2
      in write_stack p (ACTUAL_STACK_SIZE - 24) entry m3)"

definition new_task :: "code_addrs \<Rightarrow> usize \<Rightarrow> 'l kernel \<Rightarrow> (usize \<times> 'l kernel) res" where
  "new_task ca entry k =
     rbind (expect (map_of (tasks (sched_tasks k)) (current_task (cpu k)))) (\<lambda>cur.
     rbind (alloc (kernel_heap k) \<lparr>layout_size = KERNEL_STACK_SIZE, layout_align = KERNEL_STACK_SIZE\<rparr>) (\<lambda>(p, h).
     rbind (expect (MAPPER k)) (\<lambda>mp.
     rbind (checked_add (task_cr3 (registers (infos (cpu k) cur))) PAGING_STRUCTURE_BASE) (\<lambda>src.
     rbind (fork mp src) (\<lambda>(cr3', mp').
     let k1 = upd_cpu (init_task ca p cr3' entry) (k\<lparr>kernel_heap := h, MAPPER := Some mp'\<rparr>) in
     rbind (create_task p k1) (\<lambda>(tid, k2).
     rbind (expect (map_of (tasks (sched_tasks k2)) tid)) (\<lambda>p.
     let k3 = upd_cpu (write_stack p (ACTUAL_STACK_SIZE - 16) tid) k2;
         k4 = upd_cpu (set_info p (\<lambda>i. i\<lparr>registers := (registers i)\<lparr>stack_top :=
                stack_addr p (ACTUAL_STACK_SIZE - 8 - 8 * 6)\<rparr>\<rparr>)) k3
     in Inr (tid, push_schedulable (infos (cpu k4) p) k4))))))))"

definition init_idle_task :: "code_addrs \<Rightarrow> u64 \<Rightarrow> 'l kernel \<Rightarrow> 'l kernel res" where
  "init_idle_task ca now k =
     (let k1 = upd_cpu (set_info (boot_stack ca) (\<lambda>_.
            \<lparr>task_id = 0, registers = \<lparr>stack_top = regs (cpu k) RSP, task_cr3 = regs (cpu k) CR3\<rparr>,
             last_scheduled = now, run_until = 0, total_runtime = 0, flags = 1,
             interrupt_enabled = interrupts_enabled (rflags (cpu k))\<rparr>)) k
      in rbind (create_task (boot_stack ca) k1) (\<lambda>(tid, k2). Inr (upd_tasks (\<lambda>tl. tl\<lparr>current := Some tid\<rparr>) k2)))"

section \<open>The queue of runnable tasks\<close>

lemma task_le_iff: "task_le a b \<longleftrightarrow> total_runtime b \<le> total_runtime a"
  by (auto simp: task_le_def task_partial_cmp_def cmp_u64_def)

interpretation task_ord: ord_trait task_le
  by unfold_locales (auto simp: task_le_iff)

interpretation run_queue: priority_queue "bh_push task_le" "bh_pop task_le" "bh_retain task_le" mset
    "\<lambda>h. heap_upto task_le (length h) h" task_le
  by (rule task_ord.heap_is_priority_queue)

end
