(* ===== verification/Sched.thy ===== *)
theory Sched
  imports Task
begin

text \<open>
  The scheduler (\<open>src/kernel/sched/mod.rs\<close>). A method of \<open>SchedulerGuard\<close> is a function on the state of
  the kernel while the lock is held. Reading the time is an argument, once per read. \<open>switch\<close> continues
  in the task it switches to: the state it returns is the one in which that task has dropped the guard.
\<close>

section \<open>Model\<close>

definition sched_lock :: "'l spin_ops \<Rightarrow> 'l kernel \<Rightarrow> 'l kernel res" where
  "sched_lock sp k =
     (let was = interrupts_enabled (rflags (cpu k));
          k1 = upd_cpu (\<lambda>m. m\<lparr>rflags := disable_interrupts (rflags m)\<rparr>) k;
          k2 = upd_cpu (set_resume_interrupts was) k1
      in rbind (sp_lock sp (sched_mutex k2)) (\<lambda>l. Inr (k2\<lparr>sched_mutex := l\<rparr>)))"

text \<open>
  Dropping the guard. After the body of \<open>drop\<close> the compiler drops the field \<open>inner\<close>, which releases the
  lock once more.
\<close>

definition sched_guard_drop :: "'l spin_ops \<Rightarrow> 'l kernel \<Rightarrow> 'l kernel" where
  "sched_guard_drop sp k =
     (let was = resume_interrupts (cpu k);
          k1 = k\<lparr>sched_mutex := sp_unlock sp (sched_mutex k)\<rparr>;
          k2 = (if was then upd_cpu (\<lambda>m. m\<lparr>rflags := enable_interrupts (rflags m)\<rparr>) k1 else k1)
      in k2\<lparr>sched_mutex := sp_unlock sp (sched_mutex k2)\<rparr>)"

text \<open>
  The call of \<open>_do_switch\<close> and the return in the other task: after its own call, or, for a task that
  runs for the first time, in \<open>_task_entry\<close>, which calls \<open>task_entry\<close>.
\<close>

definition switch_context :: "code_addrs \<Rightarrow> usize \<Rightarrow> usize \<Rightarrow> machine \<Rightarrow> machine" where
  "switch_context ca from to m =
     (let m1 = set_reg RDX (regs m RSP + guard_slot ca) (set_reg RSI to (set_reg RDI from m));
          m2 = do_switch (push (switch_ret ca) m1)
      in if regs m2 RIP = task_entry_addr ca then task_entry_stub (task_entry_ret ca) m2 else m2)"

definition switch :: "'l spin_ops \<Rightarrow> code_addrs \<Rightarrow> u64 \<Rightarrow> 'l kernel \<Rightarrow> 'l kernel res" where
  "switch sp ca now k =
     (let switch_from = current_task (cpu k) in
      rbind (update_runtime switch_from now k) (\<lambda>k1.
      let (n, k2) = next_task k1 in
      rbind (case n of Some t \<Rightarrow> Inr t | None \<Rightarrow> expect (task_get 0 k2)) (\<lambda>switch_to.
      rbind (set_current_task switch_to now k2) (\<lambda>k3.
      rbind (set_run_until switch_to now k3) (\<lambda>k4.
      rbind (task_get_ptr switch_from k4) (\<lambda>from.
      rbind (task_get_ptr switch_to k4) (\<lambda>to.
      Inr (sched_guard_drop sp (upd_cpu (switch_context ca from to) k4)))))))))"

definition sched_sleep :: "'l spin_ops \<Rightarrow> code_addrs \<Rightarrow> u64 \<Rightarrow> u64 \<Rightarrow> u64 \<Rightarrow> 'l kernel \<Rightarrow> 'l kernel res" where
  "sched_sleep sp ca tick_time now ns k =
     (case CLOCK k of
        None \<Rightarrow> Inl ExplicitPanic
      | Some clock \<Rightarrow>
          (let (t, clock1) = get_tick tick_time clock in
           rbind (checked_add t ns) (\<lambda>until.
           let task = current_task (cpu k) in
           rbind (set_runnable task False (k\<lparr>CLOCK := Some clock1\<rparr>)) (\<lambda>k1.
           switch sp ca now (k1\<lparr>CLOCK := Some (callback_at until task clock1)\<rparr>)))))"

definition wake :: "usize \<Rightarrow> 'l kernel \<Rightarrow> 'l kernel res" where
  "wake task k = set_runnable task True k"

definition sched_block :: "'l spin_ops \<Rightarrow> code_addrs \<Rightarrow> u64 \<Rightarrow> 'l kernel \<Rightarrow> 'l kernel res" where
  "sched_block sp ca now k = rbind (set_runnable (current_task (cpu k)) False k) (switch sp ca now)"

definition sched_init :: "'l spin_ops \<Rightarrow> code_addrs \<Rightarrow> u64 \<Rightarrow> u64 \<Rightarrow> 'l kernel \<Rightarrow> 'l kernel res" where
  "sched_init sp ca now1 now2 k =
     rbind (sched_lock sp k) (\<lambda>k1. rbind (init_idle_task ca now1 k1) (switch sp ca now2))"

definition check_runtime :: "'l spin_ops \<Rightarrow> code_addrs \<Rightarrow> u64 \<Rightarrow> u64 \<Rightarrow> 'l kernel \<Rightarrow> 'l kernel res" where
  "check_runtime sp ca now now2 k =
     rbind (sched_lock sp k) (\<lambda>k1.
     rbind (get_run_until (current_task (cpu k1)) k1) (\<lambda>until.
     if until \<le> now then switch sp ca now2 k1 else Inr (sched_guard_drop sp k1)))"

text \<open>
  The callback that \<open>sleep\<close> registers, which takes the lock itself without touching interrupts, and
  the tick of the static clock with it.
\<close>

definition wake_callback :: "'l spin_ops \<Rightarrow> usize \<Rightarrow> u64 \<Rightarrow> 'l kernel \<Rightarrow> 'l kernel res" where
  "wake_callback sp task now k =
     rbind (sp_lock sp (sched_mutex k)) (\<lambda>l.
     rbind (set_runnable task True (k\<lparr>sched_mutex := l\<rparr>)) (\<lambda>k1.
     Inr (k1\<lparr>sched_mutex := sp_unlock sp (sched_mutex k1)\<rparr>)))"

definition clock_tick :: "'l spin_ops \<Rightarrow> u64 \<Rightarrow> 'l kernel \<Rightarrow> 'l kernel res" where
  "clock_tick sp increment k =
     rbind (tick_fn (wake_callback sp) increment (CLOCK k) k) (\<lambda>(c, k1). Inr (k1\<lparr>CLOCK := c\<rparr>))"

section \<open>Invariant\<close>

text \<open>The header of a task as the task list sees it.\<close>

definition task_view :: "'l kernel \<Rightarrow> usize \<Rightarrow> task_info option" where
  "task_view k tid = map_option (infos (cpu k)) (map_of (tasks (sched_tasks k)) tid)"

definition wf_tasks :: "'l kernel \<Rightarrow> bool" where
  "wf_tasks k \<longleftrightarrow> btm_ok (tasks (sched_tasks k)) \<and> inj_on (the \<circ> map_of (tasks (sched_tasks k))) (dom (map_of (tasks (sched_tasks k)))) \<and>
     (\<forall>tid p. map_of (tasks (sched_tasks k)) tid = Some p \<longrightarrow>
        tid < next_task_id (sched_tasks k) \<and> task_id (infos (cpu k) p) = tid \<and> p AND TASK_STRUCT_MASK = p)"

definition runnable_tasks :: "'l kernel \<Rightarrow> usize set" where
  "runnable_tasks k = {tid. \<exists>i. task_view k tid = Some i \<and> is_runnable (flags i)}"

text \<open>
  The queue holds every runnable task but those of \<open>R\<close>, each once and with its current run time.
\<close>

definition queue_ok :: "usize set \<Rightarrow> 'l kernel \<Rightarrow> bool" where
  "queue_ok R k \<longleftrightarrow> (let q = schedulable (sched_tasks k) in
     heap_upto task_le (length q) q \<and> image_mset task_id (mset q) = mset_set (runnable_tasks k - R) \<and>
     (\<forall>i\<in>set q. map_option total_runtime (task_view k (task_id i)) = Some (total_runtime i)))"

text \<open>Only these parts of a header matter to the queue.\<close>

definition same_sched :: "'l kernel \<Rightarrow> 'l kernel \<Rightarrow> bool" where
  "same_sched k k' \<longleftrightarrow> tasks (sched_tasks k') = tasks (sched_tasks k) \<and>
     next_task_id (sched_tasks k') = next_task_id (sched_tasks k) \<and>
     (\<forall>p. task_id (infos (cpu k') p) = task_id (infos (cpu k) p) \<and>
        flags (infos (cpu k') p) = flags (infos (cpu k) p) \<and> total_runtime (infos (cpu k') p) = total_runtime (infos (cpu k) p))"

lemma same_schedD:
  assumes "same_sched k k'"
  shows "wf_tasks k' \<longleftrightarrow> wf_tasks k" and "runnable_tasks k' = runnable_tasks k"
    and "map_option total_runtime (task_view k' tid) = map_option total_runtime (task_view k tid)"
    and "schedulable (sched_tasks k') = schedulable (sched_tasks k) \<Longrightarrow> queue_ok R k' \<longleftrightarrow> queue_ok R k"
proof -
  have t: "tasks (sched_tasks k') = tasks (sched_tasks k)" "next_task_id (sched_tasks k') = next_task_id (sched_tasks k)"
    and i: "task_id (infos (cpu k') p) = task_id (infos (cpu k) p)" "flags (infos (cpu k') p) = flags (infos (cpu k) p)"
      "total_runtime (infos (cpu k') p) = total_runtime (infos (cpu k) p)" for p
    using assms by (auto simp: same_sched_def)
  show "wf_tasks k' \<longleftrightarrow> wf_tasks k" by (simp add: wf_tasks_def t i)
  show r: "runnable_tasks k' = runnable_tasks k" by (auto simp: runnable_tasks_def task_view_def t i)
  show m: "map_option total_runtime (task_view k' tid) = map_option total_runtime (task_view k tid)" for tid
    by (cases "map_of (tasks (sched_tasks k)) tid") (simp_all add: task_view_def t i)
  show "schedulable (sched_tasks k') = schedulable (sched_tasks k) \<Longrightarrow> queue_ok R k' \<longleftrightarrow> queue_ok R k"
    by (simp add: queue_ok_def r m)
qed

lemma finite_runnable: "finite (runnable_tasks k)"
proof -
  have "runnable_tasks k \<subseteq> dom (map_of (tasks (sched_tasks k)))" by (auto simp: runnable_tasks_def task_view_def)
  then show ?thesis using finite_dom_map_of finite_subset by blast
qed

text \<open>Changing the header of one task.\<close>

lemma set_info_view:
  assumes "wf_tasks k" and "map_of (tasks (sched_tasks k)) tid = Some p"
  shows "task_view (upd_cpu (set_info p f) k) = (task_view k)(tid \<mapsto> f (infos (cpu k) p))"
proof
  fix t
  have "map_of (tasks (sched_tasks k)) t \<noteq> Some p" if "t \<noteq> tid"
    using assms that unfolding wf_tasks_def inj_on_def by (metis comp_apply domI option.sel)
  then show "task_view (upd_cpu (set_info p f) k) t = ((task_view k)(tid \<mapsto> f (infos (cpu k) p))) t"
    using assms(2) by (cases "map_of (tasks (sched_tasks k)) t") (auto simp: task_view_def set_info_def)
qed

lemma set_info_wf:
  assumes "wf_tasks k" and "\<And>i. task_id (f i) = task_id i"
  shows "wf_tasks (upd_cpu (set_info p f) k)"
  using assms by (auto simp: wf_tasks_def set_info_def)

lemma queue_image:
  assumes "queue_ok R k" and "i \<in> set (schedulable (sched_tasks k))"
  shows "task_id i \<in> runnable_tasks k - R"
proof -
  have "task_id i \<in># image_mset task_id (mset (schedulable (sched_tasks k)))" using assms(2) by simp
  then show ?thesis
    using assms(1) finite_runnable[of k] unfolding queue_ok_def Let_def by (metis finite_Diff finite_set_mset_mset_set)
qed

lemma queue_ok_irrelevant: "tid \<notin> runnable_tasks k \<Longrightarrow> queue_ok (insert tid R) k \<longleftrightarrow> queue_ok R k"
  unfolding queue_ok_def by (simp add: Diff_insert0)

text \<open>A change of a header that the queue does not hold.\<close>

lemma queue_set_info:
  assumes "wf_tasks k" and "map_of (tasks (sched_tasks k)) tid = Some p" and "queue_ok R k" and "tid \<in> R"
  shows "queue_ok R (upd_cpu (set_info p f) k)"
proof -
  let ?k = "upd_cpu (set_info p f) k"
  note v = set_info_view[OF assms(1,2), of f]
  have "runnable_tasks ?k - R = runnable_tasks k - R"
    using assms(4) unfolding runnable_tasks_def v by auto
  moreover have "task_view ?k (task_id i) = task_view k (task_id i)" if "i \<in> set (schedulable (sched_tasks k))" for i
    using queue_image[OF assms(3) that] assms(4) unfolding v by auto
  ultimately show ?thesis using assms(3) unfolding queue_ok_def Let_def by simp
qed

lemma queue_push:
  assumes "wf_tasks k" and "task_view k tid = Some i" and "is_runnable (flags i)" and "queue_ok (insert tid R) k" and "tid \<notin> R"
  shows "queue_ok R (push_schedulable i k)"
proof -
  let ?k = "push_schedulable i k" and ?q = "schedulable (sched_tasks k)"
  have t: "task_id i = tid" using assms(1,2) by (auto simp: wf_tasks_def task_view_def)
  have r: "tid \<in> runnable_tasks k" using assms(2,3) by (auto simp: runnable_tasks_def)
  have s: "task_view ?k = task_view k" "runnable_tasks ?k = runnable_tasks k"
    by (auto simp: task_view_def runnable_tasks_def fun_eq_iff)
  have q: "heap_upto task_le (length ?q) ?q" "image_mset task_id (mset ?q) = mset_set (runnable_tasks k - insert tid R)"
    "\<forall>i\<in>set ?q. map_option total_runtime (task_view k (task_id i)) = Some (total_runtime i)"
    using assms(4) by (simp_all add: queue_ok_def Let_def)
  have e: "mset (bh_push task_le i ?q) = add_mset i (mset ?q)" by (rule run_queue.elems_push)
  then have m: "set (bh_push task_le i ?q) = insert i (set ?q)" by (metis set_mset_add_mset_insert set_mset_mset)
  have "runnable_tasks k - R = insert tid (runnable_tasks k - insert tid R)" using r assms(5) by auto
  then have "mset_set (runnable_tasks k - R) = add_mset tid (mset_set (runnable_tasks k - insert tid R))"
    using finite_runnable[of k] by simp
  then show ?thesis using q run_queue.ok_push[OF q(1), of i] assms(2) t
    unfolding queue_ok_def Let_def s by (simp add: e m)
qed

lemma next_task_spec:
  assumes "queue_ok {} k" and "next_task k = (n, k')"
  shows "same_sched k k' \<and> cpu k' = cpu k \<and> (case n of
      None \<Rightarrow> k' = k \<and> runnable_tasks k = {}
    | Some t \<Rightarrow> t \<in> runnable_tasks k \<and> queue_ok {t} k' \<and>
        (\<forall>u\<in>runnable_tasks k. total_runtime (the (task_view k t)) \<le> total_runtime (the (task_view k u))))"
proof -
  let ?q = "schedulable (sched_tasks k)"
  have q: "heap_upto task_le (length ?q) ?q" "image_mset task_id (mset ?q) = mset_set (runnable_tasks k)"
    "\<forall>i\<in>set ?q. map_option total_runtime (task_view k (task_id i)) = Some (total_runtime i)"
    using assms(1) by (simp_all add: queue_ok_def Let_def)
  have rt: "total_runtime (the (task_view k (task_id i))) = total_runtime i" if "i \<in> set ?q" for i using q(3) that by fastforce
  show ?thesis
  proof (cases "bh_pop task_le ?q")
    case None
    then have "?q = []" using run_queue.pop_None[of ?q] by simp
    then have "runnable_tasks k = {}" using q(2) finite_runnable[of k] by (simp add: mset_set_empty_iff)
    then show ?thesis using assms(2) None by (auto simp: next_task_def same_sched_def)
  next
    case (Some r)
    then obtain x h where p: "bh_pop task_le ?q = Some (x, h)" by fastforce
    have k': "k' = upd_tasks (\<lambda>tl. tl\<lparr>schedulable := h\<rparr>) k" "n = Some (task_id x)" using assms(2) p by (simp_all add: next_task_def)
    note s = run_queue.pop_Some[OF q(1) p]
    have x: "x \<in> set ?q" using run_queue.pop_elem[OF q(1) p] by simp
    have sub: "set h \<subseteq> set ?q" using s by (metis set_mset_add_mset_insert set_mset_mset subset_insertI)
    have ss: "same_sched k k'" by (simp add: k' same_sched_def)
    have "queue_ok {task_id x} k'"
    proof -
      have "image_mset task_id (mset h) = mset_set (runnable_tasks k) - {#task_id x#}" using s q(2) by (metis add_mset_remove_trivial image_mset_add_mset)
      also have "\<dots> = mset_set (runnable_tasks k - {task_id x})"
        using queue_image[OF assms(1) x] finite_runnable[of k] by (simp add: mset_set_Diff)
      finally have "image_mset task_id (mset h) = mset_set (runnable_tasks k' - {task_id x})" using same_schedD(2)[OF ss] by simp
      moreover have "\<forall>i\<in>set h. map_option total_runtime (task_view k' (task_id i)) = Some (total_runtime i)"
        using q(3) sub same_schedD(3)[OF ss] by auto
      ultimately show ?thesis using s k' by (simp add: queue_ok_def)
    qed
    moreover have "total_runtime (the (task_view k (task_id x))) \<le> total_runtime (the (task_view k u))" if u: "u \<in> runnable_tasks k" for u
    proof -
      have "u \<in># image_mset task_id (mset ?q)" using u q(2) finite_runnable[of k] by simp
      then obtain i where i: "i \<in> set ?q" "task_id i = u" by auto
      then have "task_le i x" using s by simp
      then show ?thesis using rt[OF i(1)] rt[OF x] i(2) by (simp add: task_le_iff)
    qed
    ultimately show ?thesis using ss k' queue_image[OF assms(1) x] by simp
  qed
qed

lemma is_runnable_set: "is_runnable (set_is_runnable b f) \<longleftrightarrow> b"
proof -
  have r: "is_runnable f \<longleftrightarrow> bit f 0" for f by (simp add: is_runnable_def and_one_eq bit_0 odd_iff_mod_2_eq_one)
  show ?thesis unfolding r set_is_runnable_def by (cases b) (simp_all add: bit_0 even_or_iff even_and_iff)
qed

lemma image_filter_mset: "image_mset f (filter_mset (\<lambda>x. f x \<noteq> t) M) = filter_mset (\<lambda>y. y \<noteq> t) (image_mset f M)"
  by (induction M) auto

lemma queue_retain:
  assumes "queue_ok R k"
  shows "queue_ok (insert tid R)
    (upd_tasks (\<lambda>tl. tl\<lparr>schedulable := bh_retain task_le (\<lambda>x. task_id x \<noteq> tid) (schedulable tl)\<rparr>) k)"
    (is "queue_ok _ ?k1")
proof -
  let ?q = "schedulable (sched_tasks k)"
  have ss: "same_sched k ?k1" by (simp add: same_sched_def)
  have q: "heap_upto task_le (length ?q) ?q" "image_mset task_id (mset ?q) = mset_set (runnable_tasks k - R)"
    "\<forall>i\<in>set ?q. map_option total_runtime (task_view k (task_id i)) = Some (total_runtime i)"
    using assms by (simp_all add: queue_ok_def Let_def)
  note rs = run_queue.retain_spec[OF q(1), of "\<lambda>x. task_id x \<noteq> tid"]
  have "set (bh_retain task_le (\<lambda>x. task_id x \<noteq> tid) ?q) \<subseteq> set ?q" using rs by (metis filter_is_subset mset_filter set_mset_mset)
  moreover have "image_mset task_id (filter_mset (\<lambda>x. task_id x \<noteq> tid) (mset ?q)) = mset_set (runnable_tasks k - insert tid R)"
  proof -
    have "{x \<in> runnable_tasks k - R. x \<noteq> tid} = runnable_tasks k - insert tid R" by auto
    then show ?thesis unfolding image_filter_mset q(2) using finite_runnable[of k] by simp
  qed
  ultimately show ?thesis
    using rs q(3) same_schedD(2,3)[OF ss] unfolding queue_ok_def Let_def by auto
qed

lemma set_runnable_spec:
  assumes "wf_tasks k" and "queue_ok R k" and "set_runnable tid b k = Inr k'" and "b \<longrightarrow> tid \<notin> R"
  obtains p where "map_of (tasks (sched_tasks k)) tid = Some p" "wf_tasks k'" "queue_ok R k'"
    "cpu k' = set_info p (\<lambda>i. i\<lparr>flags := set_is_runnable b (flags i)\<rparr>) (cpu k)"
    "tasks (sched_tasks k') = tasks (sched_tasks k)" "next_task_id (sched_tasks k') = next_task_id (sched_tasks k)"
    "sched_mutex k' = sched_mutex k" "CLOCK k' = CLOCK k" "kernel_heap k' = kernel_heap k"
proof -
  let ?f = "\<lambda>i. i\<lparr>flags := set_is_runnable b (flags i)\<rparr>" and ?q = "schedulable (sched_tasks k)"
  let ?k1 = "upd_tasks (\<lambda>tl. tl\<lparr>schedulable := bh_retain task_le (\<lambda>x. task_id x \<noteq> tid) (schedulable tl)\<rparr>) k"
  obtain p where p: "map_of (tasks (sched_tasks k)) tid = Some p" using assms(3) by (auto simp: set_runnable_def res_simps)
  let ?k2 = "upd_cpu (set_info p ?f) ?k1"
  have k': "k' = (if b then push_schedulable (infos (cpu ?k2) p) ?k2 else ?k2)"
    using assms(3) p by (simp add: set_runnable_def Let_def del: set_info_def)
  have wf1: "wf_tasks ?k1" and q1: "queue_ok (insert tid R) ?k1"
    using queue_retain[OF assms(2), of tid] same_schedD(1)[of k ?k1] assms(1) by (simp_all add: same_sched_def)
  have q2: "queue_ok (insert tid R) ?k2" using queue_set_info[OF wf1 _ q1 insertI1] p by simp
  have wf2: "wf_tasks ?k2" using set_info_wf[OF wf1] by simp
  have v2: "task_view ?k2 tid = Some (infos (cpu ?k2) p)" using p by (simp add: task_view_def)
  have fl: "is_runnable (flags (infos (cpu ?k2) p)) \<longleftrightarrow> b" by (simp add: set_info_def is_runnable_set)
  have "wf_tasks k' \<and> queue_ok R k'"
  proof (cases b)
    case True
    have k2: "k' = push_schedulable (infos (cpu ?k2) p) ?k2" using True unfolding k' by (simp only: if_True)
    have "same_sched ?k2 k'" by (simp add: k2 same_sched_def)
    then have "wf_tasks k'" using same_schedD(1) wf2 by blast
    moreover have "queue_ok R k'" unfolding k2 by (rule queue_push[OF wf2 v2 _ q2]) (use fl True assms(4) in auto)
    ultimately show ?thesis by blast
  next
    case False
    then have "tid \<notin> runnable_tasks ?k2" using v2 fl by (auto simp: runnable_tasks_def)
    then have "queue_ok R ?k2" using q2 queue_ok_irrelevant by blast
    moreover have "k' = ?k2" using False unfolding k' by (simp only: if_False)
    ultimately show ?thesis using wf2 by (simp only: simp_thms)
  qed
  then show ?thesis using p k' by (intro that[of p]) (auto split: if_splits)
qed

lemma update_runtime_spec:
  assumes "wf_tasks k" and "queue_ok {tid} k" and "update_runtime tid now k = Inr k'"
  obtains p delta where "map_of (tasks (sched_tasks k)) tid = Some p" "wf_tasks k'" "queue_ok {} k'"
    "last_scheduled (infos (cpu k) p) \<le> now"
    "delta = (now - last_scheduled (infos (cpu k) p)) * of_nat (length (tasks (sched_tasks k)))"
    "unat (total_runtime (infos (cpu k) p)) + unat delta < 2 ^ 64"
    "cpu k' = set_info p (\<lambda>i. i\<lparr>total_runtime := total_runtime i + delta\<rparr>) (cpu k)"
    "tasks (sched_tasks k') = tasks (sched_tasks k)" "next_task_id (sched_tasks k') = next_task_id (sched_tasks k)"
    "sched_mutex k' = sched_mutex k" "CLOCK k' = CLOCK k" "kernel_heap k' = kernel_heap k"
proof -
  obtain p where p: "map_of (tasks (sched_tasks k)) tid = Some p" using assms(3) by (auto simp: update_runtime_def res_simps Let_def)
  let ?i = "infos (cpu k) p"
  define delta where "delta = (now - last_scheduled ?i) * of_nat (length (tasks (sched_tasks k)))"
  define f where "f = (\<lambda>i. i\<lparr>total_runtime := total_runtime ?i + delta\<rparr> :: task_info)"
  let ?k1 = "upd_cpu (set_info p f) k"
  have d: "last_scheduled ?i \<le> now" "unat (total_runtime ?i) + unat delta < 2 ^ 64"
    and k': "k' = (if is_runnable (flags (infos (cpu ?k1) p)) then push_schedulable (infos (cpu ?k1) p) ?k1 else ?k1)"
    using assms(3) p by (auto simp: update_runtime_def Let_def res_simps delta_def f_def)
  have wf1: "wf_tasks ?k1" by (rule set_info_wf[OF assms(1)]) (simp add: f_def)
  have q1: "queue_ok {tid} ?k1" using queue_set_info[OF assms(1) p assms(2)] by simp
  have v1: "task_view ?k1 tid = Some (infos (cpu ?k1) p)" using p by (simp add: task_view_def)
  have "wf_tasks k' \<and> queue_ok {} k'"
  proof (cases "is_runnable (flags (infos (cpu ?k1) p))")
    case True
    then have e: "k' = push_schedulable (infos (cpu ?k1) p) ?k1" unfolding k' by (simp only: if_True)
    have "same_sched ?k1 k'" by (simp add: e same_sched_def)
    then have "wf_tasks k'" using same_schedD(1) wf1 by blast
    moreover have "queue_ok {} k'" unfolding e by (rule queue_push[OF wf1 v1 True q1]) simp
    ultimately show ?thesis by blast
  next
    case False
    then have "tid \<notin> runnable_tasks ?k1" using v1 by (auto simp: runnable_tasks_def)
    then have "queue_ok {} ?k1" using q1 queue_ok_irrelevant by blast
    moreover have "k' = ?k1" using False unfolding k' by (simp only: if_False)
    ultimately show ?thesis using wf1 by (simp only: simp_thms)
  qed
  then show ?thesis using p d k' by (intro that[of p delta]) (auto simp: delta_def f_def set_info_def split: if_splits)
qed

section \<open>Stacks\<close>

definition in_stack :: "usize \<Rightarrow> usize \<Rightarrow> bool" where
  "in_stack p a \<longleftrightarrow> a AND TASK_STRUCT_MASK = p \<and> p + TASK_INFO_SIZE \<le> a"

text \<open>The task at \<open>p\<close> runs, with room on its stack for a switch; it can be switched to.\<close>

definition runs :: "machine \<Rightarrow> usize \<Rightarrow> bool" where
  "runs m p \<longleftrightarrow> regs m RSP AND TASK_STRUCT_MASK = p \<and> list_all (in_stack p) (switch_frame (regs m RSP - 56))"

definition resumable :: "code_addrs \<Rightarrow> machine \<Rightarrow> usize \<Rightarrow> bool" where
  "resumable ca m p \<longleftrightarrow> (let s = stack_top (registers (infos m p)) in
     list_all (in_stack p) (switch_frame s) \<and>
     (qmem m (s + 48) = task_entry_addr ca \<and> s + 56 = p + KERNEL_STACK_SIZE \<or>
      qmem m (s + 48) = switch_ret ca \<and> (s + 56) AND TASK_STRUCT_MASK = p))"

definition code_ok :: "code_addrs \<Rightarrow> bool" where
  "code_ok ca \<longleftrightarrow> task_entry_addr ca \<noteq> switch_ret ca"

lemma TASK_STRUCT_MASK_eq: "TASK_STRUCT_MASK = NOT (mask 13)"
  by (simp add: TASK_STRUCT_MASK_def KERNEL_STACK_SIZE_def mask_eq_exp_minus_1)

lemma in_block:
  assumes "p AND TASK_STRUCT_MASK = p" and "d < 0x2000"
  shows "(p + d) AND TASK_STRUCT_MASK = p" and "unat p + unat d < 2 ^ 64" and "p \<le> p + d"
proof -
  have "unat d < 2 ^ 13" using assms(2) by (simp add: word_less_nat_alt)
  then have d: "take_bit 13 d = d" by (simp add: word_unat_eq_iff unsigned_take_bit_eq take_bit_nat_eq_self)
  have bp: "\<not> bit p n" if "n < 13" for n
    using assms(1) that unfolding TASK_STRUCT_MASK_eq by (metis bit_and_iff bit_mask_iff bit_not_iff possible_bit_def)
  have bd: "n < 13" if "bit d n" for n using d that by (metis bit_take_bit_iff)
  have o: "p + d = p OR d" by (rule disjunctive_add) (use bp bd in blast)
  show "(p + d) AND TASK_STRUCT_MASK = p"
    unfolding o TASK_STRUCT_MASK_eq by (rule bit_word_eqI) (use bp bd in \<open>auto simp: bit_and_iff bit_or_iff bit_not_iff bit_mask_iff\<close>)
  have "take_bit 13 p = 0" unfolding take_bit_eq_0_iff_bits using bp by blast
  then have "2 ^ 13 dvd unat p" by (metis dvd_eq_mod_eq_0 take_bit_eq_mod unsigned_0 unsigned_take_bit_eq)
  then have "unat p + 2 ^ 13 \<le> 2 ^ 64"
    using dvd_less_iff_add_le[of "2 ^ 13" "unat p" "2 ^ 64"] unat_less_exp[of p] by (simp add: le_imp_power_dvd)
  then show s: "unat p + unat d < 2 ^ 64" using \<open>unat d < 2 ^ 13\<close> by linarith
  show "p \<le> p + d" unfolding word_le_nat_alt unat_add_usize[OF s] by simp
qed

lemma in_stack_add: "p AND TASK_STRUCT_MASK = p \<Longrightarrow> 56 \<le> d \<Longrightarrow> d < 0x2000 \<Longrightarrow> in_stack p (p + d)"
  using in_block[of p d] in_block[of p 56]
  by (simp add: in_stack_def TASK_INFO_SIZE_def word_le_nat_alt unat_add_usize word_less_nat_alt)

lemma in_stack_other: "in_stack p a \<Longrightarrow> in_stack q b \<Longrightarrow> p \<noteq> q \<Longrightarrow> a \<noteq> b"
  by (auto simp: in_stack_def)

text \<open>The pushes of a switch, and what they leave alone.\<close>

lemma switch_pushes:
  fixes ca m pf pt
  defines "m1 \<equiv> push (switch_ret ca) (set_reg RDX (regs m RSP + guard_slot ca) (set_reg RSI pt (set_reg RDI pf m)))"
  shows "a \<notin> set (switch_frame (regs m RSP - 56)) \<Longrightarrow> qmem (push_callee_saved m1) a = qmem m a"
    and "qmem (push_callee_saved m1) (regs m RSP - 8) = switch_ret ca"
    and "infos (save_stack_top (push_callee_saved m1)) =
      (infos m)(pf := infos m pf\<lparr>registers := (registers (infos m pf))\<lparr>stack_top := regs m RSP - 56\<rparr>\<rparr>)"
    and "regs m1 RSI = pt"
  unfolding m1_def push_callee_saved_eq switch_frame_unfold save_stack_top_def
  by (simp_all add: machine_simps)

lemma resumable_cong:
  assumes "registers (infos m' q) = registers (infos m q)"
    and "in_stack q (stack_top (registers (infos m q)) + 48) \<Longrightarrow>
      qmem m' (stack_top (registers (infos m q)) + 48) = qmem m (stack_top (registers (infos m q)) + 48)"
  shows "resumable ca m' q \<longleftrightarrow> resumable ca m q"
  using assms unfolding resumable_def Let_def switch_frame_unfold by auto

lemma switch_context_spec:
  assumes "code_ok ca" and "runs m pf" and "pf \<noteq> pt \<longrightarrow> resumable ca m pt" and "pt AND TASK_STRUCT_MASK = pt"
  defines "m' \<equiv> switch_context ca pf pt m"
  shows "runs m' pt" and "rflags m' = rflags m"
    and "infos m' = (infos m)(pf := infos m pf\<lparr>registers := (registers (infos m pf))\<lparr>stack_top := regs m RSP - 56\<rparr>\<rparr>)"
    and "pf \<noteq> pt \<Longrightarrow> resumable ca m' pf"
    and "q \<noteq> pf \<Longrightarrow> q \<noteq> pt \<Longrightarrow> resumable ca m q \<Longrightarrow> resumable ca m' q"
proof -
  define m1 where "m1 = push (switch_ret ca) (set_reg RDX (regs m RSP + guard_slot ca) (set_reg RSI pt (set_reg RDI pf m)))"
  define m2 where "m2 = do_switch m1"
  note sp = switch_pushes[where ca = ca and m = m and pf = pf and pt = pt, folded m1_def] and e = do_switch_eq[OF m2_def]
  define s where "s = stack_top (registers (infos m2 pt))"
  have i2: "infos m2 = (infos m)(pf := infos m pf\<lparr>registers := (registers (infos m pf))\<lparr>stack_top := regs m RSP - 56\<rparr>\<rparr>)"
    using e(3) sp(3) by simp
  have q2: "qmem m2 a = qmem m a" if "in_stack p a" "p \<noteq> pf" for p a
    using sp(1)[of a] e(2) that assms(2) in_stack_other unfolding runs_def list_all_iff by metis
  have same: "resumable ca m2 q \<longleftrightarrow> resumable ca m q" if "q \<noteq> pf" for q
    by (rule resumable_cong) (use that q2[of q] i2 in auto)
  have rfrom: "resumable ca m2 pf" using assms(2) sp(2) e(2) unfolding resumable_def i2 runs_def by (simp add: Let_def)
  have rto: "resumable ca m2 pt" using same[of pt] rfrom assms(3) by blast
  have r2: "regs m2 RSP = s + 56" "regs m2 RIP = qmem m2 (s + 48)" using e(1,3) sp(4) by (simp_all add: s_def)
  have f2: "rflags m2 = rflags m" using e(4) by (simp add: m1_def machine_simps)
  have s: "list_all (in_stack pt) (switch_frame s)" using rto by (simp add: resumable_def s_def Let_def)
  have m': "m' = (if qmem m2 (s + 48) = task_entry_addr ca then task_entry_stub (task_entry_ret ca) m2 else m2)"
    unfolding m'_def switch_context_def by (simp add: Let_def r2(2) flip: m1_def m2_def)
  have i': "infos m' = infos m2" and f': "rflags m' = rflags m2" by (simp_all add: m' task_entry_stub_def machine_simps)
  have q': "qmem m' a = qmem m2 a" if "a \<noteq> s + 48" for a
    using that by (simp add: m' task_entry_stub_def machine_simps r2(1))
  have s48: "in_stack pt (s + 48)" using s by (simp add: switch_frame_unfold)
  show "rflags m' = rflags m" using f' f2 by simp
  show "infos m' = (infos m)(pf := infos m pf\<lparr>registers := (registers (infos m pf))\<lparr>stack_top := regs m RSP - 56\<rparr>\<rparr>)"
    using i' i2 by simp
  have keep: "resumable ca m' q" if "q \<noteq> pt" "resumable ca m2 q" for q
  proof -
    have "resumable ca m' q \<longleftrightarrow> resumable ca m2 q"
      by (rule resumable_cong) (use that(1) i' q' in_stack_other[OF s48] in metis)+
    then show ?thesis using that(2) by blast
  qed
  show "pf \<noteq> pt \<Longrightarrow> resumable ca m' pf" using keep rfrom by blast
  show "q \<noteq> pf \<Longrightarrow> q \<noteq> pt \<Longrightarrow> resumable ca m q \<Longrightarrow> resumable ca m' q" using keep same by blast
  show "runs m' pt"
  proof (cases "qmem m2 (s + 48) = task_entry_addr ca")
    case True
    then have "s + 56 = pt + 0x2000" using rto assms(1) by (auto simp: resumable_def code_ok_def s_def Let_def KERNEL_STACK_SIZE_def)
    then have "s = pt + 0x2000 - 56" by (metis add_diff_cancel)
    moreover have "regs m' RSP = s + 48" using True r2(1) by (simp add: m' task_entry_stub_def machine_simps)
    moreover have "in_stack pt (0x1fc0 + pt)" unfolding add.commute[of _ pt] by (rule in_stack_add[OF assms(4)]) simp_all
    ultimately show ?thesis using s s48 by (simp add: runs_def switch_frame_unfold in_stack_def)
  next
    case False
    then show ?thesis using rto s r2(1) by (simp add: runs_def m' resumable_def s_def Let_def)
  qed
qed

section \<open>The scheduler as a whole\<close>

text \<open>The blocks of the tasks lie below the free part of the heap.\<close>

definition above_tasks :: "'l kernel \<Rightarrow> bool" where
  "above_tasks k \<longleftrightarrow> head (kernel_heap k) \<noteq> 0 \<and>
     (\<forall>tid p. map_of (tasks (sched_tasks k)) tid = Some p \<longrightarrow> unat p + 0x2000 \<le> unat (head (kernel_heap k)))"

definition sched_inv :: "code_addrs \<Rightarrow> 'l kernel \<Rightarrow> bool" where
  "sched_inv ca k \<longleftrightarrow> wf_tasks k \<and> queue_ok {current_task (cpu k)} k \<and> task_view k 0 \<noteq> None \<and> above_tasks k \<and>
     map_of (tasks (sched_tasks k)) (current_task (cpu k)) = Some (current_task_ptr (cpu k)) \<and>
     runs (cpu k) (current_task_ptr (cpu k)) \<and>
     (\<forall>tid p. map_of (tasks (sched_tasks k)) tid = Some p \<longrightarrow> p \<noteq> current_task_ptr (cpu k) \<longrightarrow> resumable ca (cpu k) p)"

text \<open>
  The abstract scheduler: run time and runnability of each task and the running task. A switch adds to
  the run time of the running task and picks a runnable task with the least run time, or task 0 if
  there is none.
\<close>

type_synonym abstract_sched = "(usize \<rightharpoonup> u64 \<times> bool) \<times> usize"

definition abstract_tasks :: "'l kernel \<Rightarrow> usize \<rightharpoonup> u64 \<times> bool" where
  "abstract_tasks k tid = map_option (\<lambda>i. (total_runtime i, is_runnable (flags i))) (task_view k tid)"

definition picks :: "(usize \<rightharpoonup> u64 \<times> bool) \<Rightarrow> usize \<Rightarrow> bool" where
  "picks s n \<longleftrightarrow> (\<exists>r. s n = Some (r, True) \<and> (\<forall>t r'. s t = Some (r', True) \<longrightarrow> r \<le> r')) \<or>
     (\<forall>t r. s t \<noteq> Some (r, True)) \<and> n = 0"

inductive sched_step :: "abstract_sched \<Rightarrow> abstract_sched \<Rightarrow> bool" where
  step_switch: "s cur = Some (r, b) \<Longrightarrow> b' \<longrightarrow> b \<Longrightarrow> r \<le> r' \<Longrightarrow> picks (s(cur \<mapsto> (r', b'))) n \<Longrightarrow>
    sched_step (s, cur) (s(cur \<mapsto> (r', b')), n)"
| step_wake: "s t = Some (r, b) \<Longrightarrow> t \<noteq> cur \<Longrightarrow> sched_step (s, cur) (s(t \<mapsto> (r, True)), cur)"
| step_new: "s t = None \<Longrightarrow> sched_step (s, cur) (s(t \<mapsto> (0, True)), cur)"

lemma set_info_regs: "regs (set_info p f m) = regs m" "qmem (set_info p f m) = qmem m" "rflags (set_info p f m) = rflags m"
  by (simp_all add: set_info_def)

lemma runs_cong: "regs m' RSP = regs m RSP \<Longrightarrow> runs m' p \<longleftrightarrow> runs m p"
  by (simp add: runs_def)

lemma resumable_set_info:
  "(\<And>i. registers (f i) = registers i) \<Longrightarrow> resumable ca (set_info p f m) q \<longleftrightarrow> resumable ca m q"
  by (rule resumable_cong) (simp_all add: set_info_def)

lemma same_sched_trans: "same_sched a b \<Longrightarrow> same_sched b c \<Longrightarrow> same_sched a c"
  by (simp add: same_sched_def)

lemma same_sched_abs: "same_sched k k' \<Longrightarrow> abstract_tasks k' = abstract_tasks k"
  unfolding same_sched_def abstract_tasks_def task_view_def fun_eq_iff by (simp add: option.map_comp comp_def)

lemma abs_set_info:
  assumes "wf_tasks k" and "map_of (tasks (sched_tasks k)) tid = Some p" and "cpu k' = set_info p f (cpu k)"
    and "tasks (sched_tasks k') = tasks (sched_tasks k)"
  shows "abstract_tasks k' = (abstract_tasks k)(tid \<mapsto> (total_runtime (f (infos (cpu k) p)), is_runnable (flags (f (infos (cpu k) p)))))"
proof -
  have "task_view k' = task_view (upd_cpu (set_info p f) k)" using assms(3,4) by (simp add: task_view_def fun_eq_iff)
  then show ?thesis unfolding abstract_tasks_def set_info_view[OF assms(1,2)] by (auto simp: fun_eq_iff)
qed

lemma runnable_abs: "runnable_tasks k = {t. \<exists>r. abstract_tasks k t = Some (r, True)}"
  unfolding runnable_tasks_def abstract_tasks_def by (auto simp: task_view_def)

lemma picks_next:
  assumes "queue_ok {} k" and "next_task k = (n, k')" and "(case n of Some t \<Rightarrow> Inr t | None \<Rightarrow> expect (task_get 0 k')) = Inr t"
  shows "picks (abstract_tasks k) t" and "queue_ok {t} k'" and "same_sched k k'" and "cpu k' = cpu k"
proof -
  note s = next_task_spec[OF assms(1,2)]
  show "same_sched k k'" "cpu k' = cpu k" using s by blast+
  show "queue_ok {t} k'"
    using s assms queue_ok_irrelevant[of t k "{}"] by (cases n) (auto simp: task_get_def res_simps split: option.splits)
  show "picks (abstract_tasks k) t"
  proof (cases n)
    case None
    then show ?thesis using s assms(3) unfolding runnable_abs picks_def by (auto simp: task_get_def res_simps split: option.splits)
  next
    case (Some u)
    then have u: "u = t" using assms(3) by simp
    have rt: "total_runtime (the (task_view k v)) = r" if "abstract_tasks k v = Some (r, b)" for v r b
      using that by (auto simp: abstract_tasks_def)
    obtain r where r: "abstract_tasks k t = Some (r, True)" using s unfolding Some u runnable_abs by auto
    have "r \<le> r'" if "abstract_tasks k v = Some (r', True)" for v r'
      using s that rt[OF that] rt[OF r] unfolding Some u runnable_abs by auto
    then show ?thesis using r unfolding picks_def by blast
  qed
qed

text \<open>The two updates of the header of the task switched to.\<close>

lemma set_current_spec:
  assumes "set_current_task t now k2 = Inr k3" and "set_run_until t now k3 = Inr k4"
  obtains p f where "map_of (tasks (sched_tasks k2)) t = Some p" "cpu k4 = set_info p f (cpu k2)" "same_sched k2 k4"
    "schedulable (sched_tasks k4) = schedulable (sched_tasks k2)" "sched_mutex k4 = sched_mutex k2" "CLOCK k4 = CLOCK k2" "kernel_heap k4 = kernel_heap k2"
    "\<And>i. registers (f i) = registers i" "\<And>i. interrupt_enabled (f i) = interrupt_enabled i"
proof -
  obtain p where p: "map_of (tasks (sched_tasks k2)) t = Some p" using assms(1) by (auto simp: set_current_task_def res_simps Let_def)
  define u where "u = now + SCHED_LATENCY div of_nat (length (tasks (sched_tasks k2)))"
  have k3: "k3 = upd_cpu (set_info p (\<lambda>i. i\<lparr>last_scheduled := now\<rparr>)) (upd_tasks (\<lambda>tl. tl\<lparr>current := Some t\<rparr>) k2)"
    using assms(1) p by (simp add: set_current_task_def Let_def)
  have k4: "k4 = upd_cpu (set_info p (\<lambda>i. i\<lparr>run_until := u\<rparr>)) k3"
    using assms(2) p k3 by (auto simp: set_run_until_def Let_def res_simps u_def checked_div_def split: if_splits)
  let ?f = "\<lambda>i :: task_info. i\<lparr>last_scheduled := now, run_until := u\<rparr>"
  have "cpu k4 = set_info p ?f (cpu k2)" by (simp add: k3 k4 set_info_def)
  moreover have "same_sched k2 k4" by (simp add: k3 k4 same_sched_def set_info_def)
  ultimately show ?thesis using p by (intro that[of p ?f]) (simp_all add: k3 k4)
qed

text \<open>The first half of a switch: choosing the next task.\<close>

definition select :: "u64 \<Rightarrow> 'l kernel \<Rightarrow> (usize \<times> 'l kernel) res" where
  "select now k =
     rbind (update_runtime (current_task (cpu k)) now k) (\<lambda>k1.
     let (n, k2) = next_task k1 in
     rbind (case n of Some t \<Rightarrow> Inr t | None \<Rightarrow> expect (task_get 0 k2)) (\<lambda>t.
     rbind (set_current_task t now k2) (\<lambda>k3.
     rbind (set_run_until t now k3) (\<lambda>k4. Inr (t, k4)))))"

lemma switch_select:
  "switch sp ca now k =
     rbind (select now k) (\<lambda>(t, k4).
     rbind (task_get_ptr (current_task (cpu k)) k4) (\<lambda>pf.
     rbind (task_get_ptr t k4) (\<lambda>pt. Inr (sched_guard_drop sp (upd_cpu (switch_context ca pf pt) k4)))))"
  unfolding switch_def select_def Let_def by (simp add: rbind_assoc case_prod_beta cong: rbind_cong)

lemma select_spec:
  assumes "wf_tasks k" and "queue_ok {current_task (cpu k)} k" and "select now k = Inr (t, k4)"
  obtains r b delta pt where "abstract_tasks k (current_task (cpu k)) = Some (r, b)" "unat r + unat delta < 2 ^ 64"
    "abstract_tasks k4 = (abstract_tasks k)(current_task (cpu k) \<mapsto> (r + delta, b))" "picks (abstract_tasks k4) t"
    "wf_tasks k4" "queue_ok {t} k4" "tasks (sched_tasks k4) = tasks (sched_tasks k)" "map_of (tasks (sched_tasks k)) t = Some pt"
    "regs (cpu k4) = regs (cpu k)" "rflags (cpu k4) = rflags (cpu k)" "sched_mutex k4 = sched_mutex k" "CLOCK k4 = CLOCK k" "kernel_heap k4 = kernel_heap k"
    "\<And>p. interrupt_enabled (infos (cpu k4) p) = interrupt_enabled (infos (cpu k) p)"
    "\<And>p. task_id (infos (cpu k4) p) = task_id (infos (cpu k) p)"
    "\<And>p. runs (cpu k4) p = runs (cpu k) p" "\<And>ca p. resumable ca (cpu k4) p = resumable ca (cpu k) p"
proof -
  let ?cur = "current_task (cpu k)"
  obtain k1 where "update_runtime ?cur now k = Inr k1"
    using assms(3) by (cases "update_runtime ?cur now k") (auto simp: select_def)
  moreover obtain n k2 where "next_task k1 = (n, k2)" by fastforce
  moreover obtain k3 where "(case n of Some t \<Rightarrow> Inr t | None \<Rightarrow> expect (task_get 0 k2)) = Inr t"
    "set_current_task t now k2 = Inr k3" "set_run_until t now k3 = Inr k4"
    using assms(3) calculation by (auto simp: select_def res_simps)
  ultimately have st: "update_runtime ?cur now k = Inr k1" "next_task k1 = (n, k2)"
    "(case n of Some t \<Rightarrow> Inr t | None \<Rightarrow> expect (task_get 0 k2)) = Inr t" "set_current_task t now k2 = Inr k3"
    "set_run_until t now k3 = Inr k4" by blast+
  obtain p delta where u: "map_of (tasks (sched_tasks k)) ?cur = Some p" "wf_tasks k1" "queue_ok {} k1"
    "unat (total_runtime (infos (cpu k) p)) + unat delta < 2 ^ 64"
    "cpu k1 = set_info p (\<lambda>i. i\<lparr>total_runtime := total_runtime i + delta\<rparr>) (cpu k)"
    "tasks (sched_tasks k1) = tasks (sched_tasks k)" "sched_mutex k1 = sched_mutex k" "CLOCK k1 = CLOCK k" "kernel_heap k1 = kernel_heap k"
    by (rule update_runtime_spec[OF assms(1,2) st(1)])
  note nx = picks_next[OF u(3) st(2,3)]
  have k2: "sched_mutex k2 = sched_mutex k1" "CLOCK k2 = CLOCK k1" "kernel_heap k2 = kernel_heap k1" using st(2) by (auto simp: next_task_def split: option.splits)
  obtain pt f where c: "map_of (tasks (sched_tasks k2)) t = Some pt" "cpu k4 = set_info pt f (cpu k2)" "same_sched k2 k4"
    "schedulable (sched_tasks k4) = schedulable (sched_tasks k2)" "sched_mutex k4 = sched_mutex k2" "CLOCK k4 = CLOCK k2" "kernel_heap k4 = kernel_heap k2"
    "\<And>i. registers (f i) = registers i" "\<And>i. interrupt_enabled (f i) = interrupt_enabled i"
    by (rule set_current_spec[OF st(4,5)]) blast
  have ss: "same_sched k1 k4" using same_sched_trans[OF nx(3) c(3)] .
  have cpu4: "cpu k4 = set_info pt f (set_info p (\<lambda>i. i\<lparr>total_runtime := total_runtime i + delta\<rparr>) (cpu k))"
    using c(2) nx(4) u(5) by simp
  have "abstract_tasks k1 = (abstract_tasks k)(?cur \<mapsto> (total_runtime (infos (cpu k) p) + delta, is_runnable (flags (infos (cpu k) p))))"
    using abs_set_info[OF assms(1) u(1,5,6)] by simp
  moreover have "abstract_tasks k ?cur = Some (total_runtime (infos (cpu k) p), is_runnable (flags (infos (cpu k) p)))"
    using u(1) by (simp add: abstract_tasks_def task_view_def)
  moreover have "queue_ok {t} k4" using same_schedD(4)[OF c(3,4)] nx(2) by simp
  moreover have "task_id (infos (cpu k4) q) = task_id (infos (cpu k) q)" for q
    using ss u(5) by (simp add: same_sched_def set_info_def)
  ultimately show ?thesis
    using same_sched_abs[OF ss] nx(1) same_schedD(1)[OF ss] u c ss nx(3,4) k2
    by (intro that[of "total_runtime (infos (cpu k) p)" "is_runnable (flags (infos (cpu k) p))" delta pt])
      (simp_all add: cpu4 set_info_regs resumable_set_info same_sched_def runs_def, simp_all add: set_info_def)
qed

text \<open>One switch: everything about it but the effect of dropping the guard.\<close>

lemma switch_spec:
  assumes "code_ok ca" and "sched_inv ca k" and "switch sp ca now k = Inr k'"
  obtains r b delta p' where "abstract_tasks k (current_task (cpu k)) = Some (r, b)" "unat r + unat delta < 2 ^ 64"
    "abstract_tasks k' = (abstract_tasks k)(current_task (cpu k) \<mapsto> (r + delta, b))"
    "picks (abstract_tasks k') (current_task (cpu k'))" "sched_inv ca k'"
    "sched_mutex k' = sp_unlock sp (sp_unlock sp (sched_mutex k))" "CLOCK k' = CLOCK k" "kernel_heap k' = kernel_heap k"
    "current_task_ptr (cpu k') = p'" "interrupt_enabled (infos (cpu k') p') = interrupt_enabled (infos (cpu k) p')"
    "rflags (cpu k') = (if interrupt_enabled (infos (cpu k) p') then enable_interrupts (rflags (cpu k)) else rflags (cpu k))"
proof -
  let ?cur = "current_task (cpu k)" and ?pf = "current_task_ptr (cpu k)"
  have inv: "wf_tasks k" "queue_ok {?cur} k" "map_of (tasks (sched_tasks k)) ?cur = Some ?pf" "runs (cpu k) ?pf" "task_view k 0 \<noteq> None" "above_tasks k"
    and res: "\<And>tid p. map_of (tasks (sched_tasks k)) tid = Some p \<Longrightarrow> p \<noteq> ?pf \<Longrightarrow> resumable ca (cpu k) p"
    using assms(2) by (auto simp: sched_inv_def)
  obtain t k4 where sel: "select now k = Inr (t, k4)" using assms(3) by (auto simp: switch_select res_simps)
  obtain r b delta pt where s: "abstract_tasks k ?cur = Some (r, b)" "unat r + unat delta < 2 ^ 64"
    "abstract_tasks k4 = (abstract_tasks k)(?cur \<mapsto> (r + delta, b))" "picks (abstract_tasks k4) t"
    "wf_tasks k4" "queue_ok {t} k4" "tasks (sched_tasks k4) = tasks (sched_tasks k)" "map_of (tasks (sched_tasks k)) t = Some pt"
    "regs (cpu k4) = regs (cpu k)" "rflags (cpu k4) = rflags (cpu k)" "sched_mutex k4 = sched_mutex k" "CLOCK k4 = CLOCK k" "kernel_heap k4 = kernel_heap k"
    "\<And>p. interrupt_enabled (infos (cpu k4) p) = interrupt_enabled (infos (cpu k) p)"
    "\<And>p. task_id (infos (cpu k4) p) = task_id (infos (cpu k) p)"
    "\<And>p. runs (cpu k4) p = runs (cpu k) p" "\<And>ca p. resumable ca (cpu k4) p = resumable ca (cpu k) p"
    by (rule select_spec[OF inv(1,2) sel]) blast
  define k5 where "k5 = upd_cpu (switch_context ca ?pf pt) k4"
  have k': "k' = sched_guard_drop sp k5"
    using assms(3) inv(3) s(7,8) by (simp add: switch_select sel task_get_ptr_def k5_def)
  have al: "pt AND TASK_STRUCT_MASK = pt" using inv(1) s(8) by (auto simp: wf_tasks_def)
  have "runs (cpu k4) ?pf" "?pf \<noteq> pt \<longrightarrow> resumable ca (cpu k4) pt" using inv(4) s(16,17) res[OF s(8)] by auto
  note sc = switch_context_spec[OF assms(1) this al]
  have cpu5: "cpu k5 = switch_context ca ?pf pt (cpu k4)" by (simp add: k5_def)
  have ss: "same_sched k4 k5" unfolding same_sched_def cpu5 sc(3) by (simp add: k5_def)
  have ss': "same_sched k5 k'" "schedulable (sched_tasks k') = schedulable (sched_tasks k5)"
    by (simp_all add: k' sched_guard_drop_def Let_def same_sched_def)
  have cpu': "regs (cpu k') = regs (cpu k5)" "infos (cpu k') = infos (cpu k5)" "qmem (cpu k') = qmem (cpu k5)"
    "tasks (sched_tasks k') = tasks (sched_tasks k)"
    using s(7) by (simp_all add: k' sched_guard_drop_def Let_def k5_def)
  have p': "current_task_ptr (cpu k') = pt" using sc(1) cpu' by (simp add: current_task_ptr_def runs_def cpu5)
  have t: "current_task (cpu k') = t"
  proof -
    have "task_id (infos (cpu k') pt) = task_id (infos (cpu k4) pt)" using ss ss'(1) by (simp add: same_sched_def)
    then show ?thesis using s(5,7,8) by (auto simp: current_task_def p' wf_tasks_def)
  qed
  have q: "queue_ok {t} k'" "wf_tasks k'"
    using s(5,6) same_schedD(1,4)[OF ss] same_schedD(1)[OF ss'(1)] same_schedD(4)[OF ss'] by (simp_all add: k5_def)
  have rs: "resumable ca (cpu k') q" if "map_of (tasks (sched_tasks k)) tid = Some q" "q \<noteq> pt" for tid q
  proof -
    have "resumable ca (cpu k5) q" unfolding cpu5 using sc(4) sc(5) res that s(17) by (cases "q = ?pf") auto
    moreover have "resumable ca (cpu k') q = resumable ca (cpu k5) q" by (rule resumable_cong) (simp_all add: cpu')
    ultimately show ?thesis by simp
  qed
  have "runs (cpu k') pt" using sc(1) runs_cong[of "cpu k'" "cpu k5" pt] cpu' by (simp add: cpu5)
  moreover have heap: "kernel_heap k' = kernel_heap k" using s(13) by (simp add: k' sched_guard_drop_def Let_def k5_def)
  ultimately have "sched_inv ca k'"
    unfolding sched_inv_def t p' using q rs s(8) inv(5,6) cpu'(4) by (auto simp: task_view_def above_tasks_def)
  moreover have ie: "interrupt_enabled (infos (cpu k5) pt) = interrupt_enabled (infos (cpu k) pt)"
    unfolding cpu5 sc(3) using s(14) by simp
  moreover have "current_task_ptr (cpu k5) = pt" using p' cpu' by (simp add: current_task_ptr_def)
  then have "rflags (cpu k') = (if interrupt_enabled (infos (cpu k) pt) then enable_interrupts (rflags (cpu k)) else rflags (cpu k))"
    using ie sc(2) s(10) by (simp add: k' sched_guard_drop_def Let_def resume_interrupts_def flip: cpu5)
  moreover have "abstract_tasks k' = abstract_tasks k4" using same_sched_abs[OF ss] same_sched_abs[OF ss'(1)] by simp
  moreover have "sched_mutex k' = sp_unlock sp (sp_unlock sp (sched_mutex k))" "CLOCK k' = CLOCK k" "kernel_heap k' = kernel_heap k"
    using s(11,12,13) by (simp_all add: k' sched_guard_drop_def Let_def k5_def)
  ultimately show ?thesis using s(1-4) t p' cpu'(2) heap by (intro that[of r b delta pt]) simp_all
qed

text \<open>Marking a task runnable or not leaves the invariant, unless the running task is woken.\<close>

lemma set_runnable_inv:
  assumes "sched_inv ca k" and "set_runnable tid b k = Inr k'" and "b \<longrightarrow> tid \<noteq> current_task (cpu k)"
  obtains r b0 where "abstract_tasks k tid = Some (r, b0)" "abstract_tasks k' = (abstract_tasks k)(tid \<mapsto> (r, b))"
    "sched_inv ca k'" "current_task (cpu k') = current_task (cpu k)" "current_task_ptr (cpu k') = current_task_ptr (cpu k)"
    "sched_mutex k' = sched_mutex k" "CLOCK k' = CLOCK k"
    "rflags (cpu k') = rflags (cpu k)" "\<And>p. interrupt_enabled (infos (cpu k') p) = interrupt_enabled (infos (cpu k) p)"
proof -
  let ?f = "\<lambda>i :: task_info. i\<lparr>flags := set_is_runnable b (flags i)\<rparr>"
  have inv: "wf_tasks k" "queue_ok {current_task (cpu k)} k" "task_view k 0 \<noteq> None" using assms(1) by (simp_all add: sched_inv_def)
  obtain p where p: "map_of (tasks (sched_tasks k)) tid = Some p" "wf_tasks k'" "queue_ok {current_task (cpu k)} k'"
    "cpu k' = set_info p ?f (cpu k)" "tasks (sched_tasks k') = tasks (sched_tasks k)"
    "sched_mutex k' = sched_mutex k" "CLOCK k' = CLOCK k" "kernel_heap k' = kernel_heap k"
    by (rule set_runnable_spec[OF inv(1,2) assms(2)]) (use assms(3) in auto)
  have cur: "current_task_ptr (cpu k') = current_task_ptr (cpu k)" "current_task (cpu k') = current_task (cpu k)"
    by (simp_all add: p(4) current_task_def current_task_ptr_def set_info_def)
  have "resumable ca (cpu k') q \<longleftrightarrow> resumable ca (cpu k) q" "runs (cpu k') q \<longleftrightarrow> runs (cpu k) q" for q
    unfolding p(4) by (rule resumable_set_info, simp) (rule runs_cong, simp add: set_info_regs)
  then have "sched_inv ca k'" using assms(1) p cur by (simp add: sched_inv_def above_tasks_def task_view_def)
  moreover have "abstract_tasks k' = (abstract_tasks k)(tid \<mapsto> (total_runtime (infos (cpu k) p), b))"
    using abs_set_info[OF inv(1) p(1,4,5)] by (simp add: is_runnable_set)
  ultimately show ?thesis
    using p cur by (intro that[of "total_runtime (infos (cpu k) p)" "is_runnable (flags (infos (cpu k) p))"])
      (simp_all add: abstract_tasks_def task_view_def set_info_def)
qed

lemma block_then_switch:
  assumes "code_ok ca" and "sched_inv ca k" and "set_runnable (current_task (cpu k)) False k = Inr k1"
    and "switch sp ca now (k1\<lparr>CLOCK := c\<rparr>) = Inr k'"
  shows "sched_step (abstract_tasks k, current_task (cpu k)) (abstract_tasks k', current_task (cpu k')) \<and> sched_inv ca k' \<and>
    CLOCK k' = c \<and> sched_mutex k' = sp_unlock sp (sp_unlock sp (sched_mutex k))"
proof -
  let ?cur = "current_task (cpu k)" and ?k1 = "k1\<lparr>CLOCK := c\<rparr>"
  obtain r b0 where s: "abstract_tasks k ?cur = Some (r, b0)" "abstract_tasks k1 = (abstract_tasks k)(?cur \<mapsto> (r, False))"
    "sched_inv ca k1" "current_task (cpu k1) = ?cur" "sched_mutex k1 = sched_mutex k"
    by (rule set_runnable_inv[OF assms(2,3)]) simp_all
  have i: "sched_inv ca ?k1" "abstract_tasks ?k1 = abstract_tasks k1"
    using s(3) by (simp_all add: sched_inv_def wf_tasks_def queue_ok_def runnable_tasks_def task_view_def above_tasks_def
        abstract_tasks_def fun_eq_iff)
  obtain r' b' delta where w: "abstract_tasks ?k1 ?cur = Some (r', b')" "unat r' + unat delta < 2 ^ 64"
    "abstract_tasks k' = (abstract_tasks ?k1)(?cur \<mapsto> (r' + delta, b'))"
    "picks (abstract_tasks k') (current_task (cpu k'))" "sched_inv ca k'"
    "sched_mutex k' = sp_unlock sp (sp_unlock sp (sched_mutex ?k1))" "CLOCK k' = CLOCK ?k1"
    using s(4) by (auto intro: switch_spec[OF assms(1) i(1) assms(4)])
  have e: "r' = r" "b' = False" using w(1) s(2) i(2) by simp_all
  have k': "abstract_tasks k' = (abstract_tasks k)(?cur \<mapsto> (r + delta, False))" using w(3) s(2) i(2) e by simp
  have "r \<le> r + delta" using w(2) e by (simp add: word_le_nat_alt unat_add_usize)
  then have "sched_step (abstract_tasks k, ?cur) (abstract_tasks k', current_task (cpu k'))"
    using step_switch[of "abstract_tasks k" ?cur r b0 False "r + delta"] s(1) w(4) unfolding k' by simp
  then show ?thesis using w s(5) by simp
qed

lemma switch_step:
  assumes "code_ok ca" and "sched_inv ca k" and "switch sp ca now k = Inr k'"
  shows "sched_step (abstract_tasks k, current_task (cpu k)) (abstract_tasks k', current_task (cpu k'))" and "sched_inv ca k'"
proof -
  let ?cur = "current_task (cpu k)"
  obtain r b delta where w: "abstract_tasks k ?cur = Some (r, b)" "unat r + unat delta < 2 ^ 64"
    "abstract_tasks k' = (abstract_tasks k)(?cur \<mapsto> (r + delta, b))"
    "picks (abstract_tasks k') (current_task (cpu k'))" "sched_inv ca k'"
    by (rule switch_spec[OF assms])
  have "r \<le> r + delta" using w(2) by (simp add: word_le_nat_alt unat_add_usize)
  then show "sched_step (abstract_tasks k, ?cur) (abstract_tasks k', current_task (cpu k'))"
    using step_switch[of "abstract_tasks k" ?cur r b b "r + delta"] w unfolding w(3) by simp
  show "sched_inv ca k'" by (rule w)
qed

subsection \<open>New tasks\<close>

definition new_info :: "usize \<Rightarrow> usize \<Rightarrow> usize \<Rightarrow> task_info \<Rightarrow> task_info" where
  "new_info p tid cr3' i = i\<lparr>flags := 1, last_scheduled := 0, total_runtime := 0, interrupt_enabled := True,
     task_id := tid, registers := \<lparr>stack_top = p + 0x1fc8, task_cr3 = cr3'\<rparr>\<rparr>"

lemma new_task_result:
  assumes "new_task ca entry k = Inr (tid, k')"
  obtains p cr3' where
    "alloc (kernel_heap k) \<lparr>layout_size = KERNEL_STACK_SIZE, layout_align = KERNEL_STACK_SIZE\<rparr> = Inr (p, kernel_heap k')"
    "tid = next_task_id (sched_tasks k)" "unat tid + 1 < 2 ^ 64" "next_task_id (sched_tasks k') = tid + 1"
    "tasks (sched_tasks k') = btm_insert tid p (tasks (sched_tasks k))"
    "schedulable (sched_tasks k') = bh_push task_le (new_info p tid cr3' (infos (cpu k) p)) (schedulable (sched_tasks k))"
    "regs (cpu k') = regs (cpu k)" "rflags (cpu k') = rflags (cpu k)"
    "infos (cpu k') = (infos (cpu k))(p := new_info p tid cr3' (infos (cpu k) p))"
    "qmem (cpu k') = (qmem (zero_stack p (cpu k)))(p + 0x1ff8 := task_entry_addr ca, p + 0x1fe8 := entry, p + 0x1ff0 := tid)"
    "sched_mutex k' = sched_mutex k" "CLOCK k' = CLOCK k"
proof -
  obtain p h mp' cr3' where r: "alloc (kernel_heap k) \<lparr>layout_size = KERNEL_STACK_SIZE, layout_align = KERNEL_STACK_SIZE\<rparr> = Inr (p, h)"
    and n: "tid = next_task_id (sched_tasks k)" "unat tid + 1 < 2 ^ 64"
    and k': "k' = (let k1 = upd_cpu (init_task ca p cr3' entry) (k\<lparr>kernel_heap := h, MAPPER := Some mp'\<rparr>);
        k2 = upd_tasks (\<lambda>tl. tl\<lparr>next_task_id := tid + 1\<rparr>) (upd_tasks (\<lambda>tl. tl\<lparr>tasks := btm_insert tid p (tasks tl)\<rparr>)
          (upd_cpu (set_info p (\<lambda>i. i\<lparr>task_id := tid\<rparr>)) k1));
        k3 = upd_cpu (write_stack p (ACTUAL_STACK_SIZE - 16) tid) k2;
        k4 = upd_cpu (set_info p (\<lambda>i. i\<lparr>registers := (registers i)\<lparr>stack_top :=
                stack_addr p (ACTUAL_STACK_SIZE - 8 - 8 * 6)\<rparr>\<rparr>)) k3
      in push_schedulable (infos (cpu k4) p) k4)"
    using assms unfolding new_task_def create_task_def Let_def by (auto simp: res_simps split: prod.splits)
  note d = KERNEL_STACK_SIZE_def TASK_INFO_SIZE_def ACTUAL_STACK_SIZE_def stack_addr_def
  show ?thesis
    using r n by (intro that[of p cr3'])
      (simp_all add: k' Let_def set_info_def init_task_def write_stack_def zero_stack_def new_info_def d fun_upd_twist add.commute[of p] cong: if_cong)
qed

lemma block_bounds:
  assumes "a AND TASK_STRUCT_MASK = q"
  shows "unat q \<le> unat a" and "unat a < unat q + 0x2000"
proof -
  have q: "q AND TASK_STRUCT_MASK = q" using assms by (auto simp: and.assoc)
  have "unat (a AND mask 13) < 2 ^ 13" unfolding take_bit_eq_mask[symmetric] unsigned_take_bit_eq by (rule take_bit_nat_less_exp)
  then have d: "a AND mask 13 < 0x2000" by (simp add: word_less_nat_alt)
  have "(a AND mask 13) + (a AND NOT (mask 13)) = (a AND mask 13) OR (a AND NOT (mask 13))"
    by (rule disjunctive_add) (auto simp: bit_and_iff bit_not_iff)
  also have "\<dots> = a" by (rule bit_word_eqI) (auto simp: bit_and_iff bit_or_iff bit_not_iff bit_mask_iff)
  finally have a: "a = q + (a AND mask 13)" using assms unfolding TASK_STRUCT_MASK_eq by (metis add.commute)
  have "unat a = unat q + unat (a AND mask 13)" using unat_add_usize[OF in_block(2)[OF q d]] a by metis
  then show "unat q \<le> unat a" "unat a < unat q + 0x2000" using d by (auto simp: word_less_nat_alt)
qed

text \<open>The block of a new task is aligned and above the blocks of all the others.\<close>

lemma new_block:
  assumes "head h \<noteq> 0" and "alloc h \<lparr>layout_size = KERNEL_STACK_SIZE, layout_align = KERNEL_STACK_SIZE\<rparr> = Inr (p, h')"
  shows "p AND TASK_STRUCT_MASK = p" and "unat (head h) < unat p" and "unat (head h') = unat p + 0x2000" and "head h' \<noteq> 0"
proof -
  let ?l = "\<lparr>layout_size = KERNEL_STACK_SIZE, layout_align = KERNEL_STACK_SIZE\<rparr>"
  have "layout_ok ?l" unfolding layout_ok_def by (intro exI[of _ 13]) (simp add: KERNEL_STACK_SIZE_def)
  note r = alloc_result[OF assms(1) this assms(2)]
  show "unat (head h) < unat p" "unat (head h') = unat p + 0x2000" "head h' \<noteq> 0" using r by (simp_all add: KERNEL_STACK_SIZE_def)
  have "2 ^ 13 dvd unat p" using r(2) by (simp add: KERNEL_STACK_SIZE_def)
  then have "take_bit 13 p = 0" by (metis dvd_imp_mod_0 take_bit_eq_mod unat_eq_zero unsigned_take_bit_eq)
  then show "p AND TASK_STRUCT_MASK = p"
    unfolding TASK_STRUCT_MASK_eq take_bit_eq_0_iff_bits by (intro bit_word_eqI) (auto simp: bit_and_iff bit_not_iff bit_mask_iff)
qed

text \<open>What creating a task does to the state, with the facts about its block.\<close>

definition spawned :: "code_addrs \<Rightarrow> usize \<Rightarrow> 'l kernel \<Rightarrow> usize \<Rightarrow> usize \<Rightarrow> usize \<Rightarrow> 'l kernel \<Rightarrow> bool" where
  "spawned ca entry k tid p cr3' k' \<longleftrightarrow>
     tid = next_task_id (sched_tasks k) \<and> unat tid + 1 < 2 ^ 64 \<and> next_task_id (sched_tasks k') = tid + 1 \<and>
     tasks (sched_tasks k') = btm_insert tid p (tasks (sched_tasks k)) \<and>
     schedulable (sched_tasks k') = bh_push task_le (new_info p tid cr3' (infos (cpu k) p)) (schedulable (sched_tasks k)) \<and>
     regs (cpu k') = regs (cpu k) \<and> infos (cpu k') = (infos (cpu k))(p := new_info p tid cr3' (infos (cpu k) p)) \<and>
     qmem (cpu k') = (qmem (zero_stack p (cpu k)))(p + 0x1ff8 := task_entry_addr ca, p + 0x1fe8 := entry, p + 0x1ff0 := tid) \<and>
     p AND TASK_STRUCT_MASK = p \<and> above_tasks k' \<and>
     (\<forall>t q. map_of (tasks (sched_tasks k)) t = Some q \<longrightarrow> unat q + 0x2000 < unat p)"

lemma new_task_spawned:
  assumes "above_tasks k" and "new_task ca entry k = Inr (tid, k')"
  obtains p cr3' where "spawned ca entry k tid p cr3' k'"
proof -
  obtain p cr3' where n:
    "alloc (kernel_heap k) \<lparr>layout_size = KERNEL_STACK_SIZE, layout_align = KERNEL_STACK_SIZE\<rparr> = Inr (p, kernel_heap k')"
    "tid = next_task_id (sched_tasks k)" "unat tid + 1 < 2 ^ 64" "next_task_id (sched_tasks k') = tid + 1"
    "tasks (sched_tasks k') = btm_insert tid p (tasks (sched_tasks k))"
    "schedulable (sched_tasks k') = bh_push task_le (new_info p tid cr3' (infos (cpu k) p)) (schedulable (sched_tasks k))"
    "regs (cpu k') = regs (cpu k)"
    "infos (cpu k') = (infos (cpu k))(p := new_info p tid cr3' (infos (cpu k) p))"
    "qmem (cpu k') = (qmem (zero_stack p (cpu k)))(p + 0x1ff8 := task_entry_addr ca, p + 0x1fe8 := entry, p + 0x1ff0 := tid)"
    by (rule new_task_result[OF assms(2)])
  have h: "head (kernel_heap k) \<noteq> 0" using assms(1) by (simp add: above_tasks_def)
  note b = new_block[OF h n(1)]
  have fresh: "unat q + 0x2000 < unat p" if "map_of (tasks (sched_tasks k)) t = Some q" for t q
    using assms(1) that b(2) by (fastforce simp: above_tasks_def)
  have "above_tasks k'" using b fresh n(5) by (fastforce simp: above_tasks_def split: if_splits)
  then show ?thesis using n b(1) fresh by (intro that[of p cr3']) (simp add: spawned_def)
qed

lemma spawned_tasks:
  assumes "wf_tasks k" and "spawned ca entry k tid p cr3' k'"
  shows "map_of (tasks (sched_tasks k)) tid = None" and "wf_tasks k'"
    and "task_view k' = (task_view k)(tid \<mapsto> new_info p tid cr3' (infos (cpu k) p))"
proof -
  have n: "tid = next_task_id (sched_tasks k)" "next_task_id (sched_tasks k') = tid + 1"
    "tasks (sched_tasks k') = btm_insert tid p (tasks (sched_tasks k))" "p AND TASK_STRUCT_MASK = p"
    "infos (cpu k') = (infos (cpu k))(p := new_info p tid cr3' (infos (cpu k) p))"
    and fresh: "\<And>t q. map_of (tasks (sched_tasks k)) t = Some q \<Longrightarrow> q \<noteq> p"
    and up: "tid < tid + 1"
    using assms(2) by (auto simp: spawned_def word_less_nat_alt unat_word_ariths)
  show t: "map_of (tasks (sched_tasks k)) tid = None"
    using assms(1) n(1) unfolding wf_tasks_def by (metis less_irrefl not_None_eq)
  show "task_view k' = (task_view k)(tid \<mapsto> new_info p tid cr3' (infos (cpu k) p))"
  proof
    fix u show "task_view k' u = ((task_view k)(tid \<mapsto> new_info p tid cr3' (infos (cpu k) p))) u"
      using fresh[of u] by (cases "map_of (tasks (sched_tasks k)) u") (auto simp: task_view_def n(3,5))
  qed
  let ?M = "map_of (tasks (sched_tasks k))"
  have inj: "inj_on (the \<circ> ?M(tid \<mapsto> p)) (dom (?M(tid \<mapsto> p)))"
  proof -
    have "inj_on (the \<circ> ?M) (dom ?M)" using assms(1) by (simp add: wf_tasks_def)
    then have "inj_on (the \<circ> ?M(tid \<mapsto> p)) (dom ?M)" by (rule inj_on_cong[THEN iffD1, rotated]) (use t in auto)
    then show ?thesis by (auto dest: fresh)
  qed
  have "u < tid + 1 \<and> task_id (infos (cpu k') q) = u \<and> q AND TASK_STRUCT_MASK = q" if "(?M(tid \<mapsto> p)) u = Some q" for u q
  proof (cases "u = tid")
    case False
    then have u: "?M u = Some q" using that by simp
    then have "u < tid" "task_id (infos (cpu k) q) = u" "q AND TASK_STRUCT_MASK = q" using assms(1) n(1) by (auto simp: wf_tasks_def)
    then show ?thesis using fresh[OF u] up n(5) by (auto intro: less_trans)
  qed (use that up n(4,5) in \<open>simp add: new_info_def\<close>)
  then show "wf_tasks k'" using inj assms(1) unfolding wf_tasks_def n(2,3) map_of_btm_insert by (simp add: btm.ok_put)
qed

lemma spawned_queue:
  assumes "wf_tasks k" and "queue_ok {cur} k" and "spawned ca entry k tid p cr3' k'" and "cur \<noteq> tid"
  shows "queue_ok {cur} k'"
proof -
  let ?i = "new_info p tid cr3' (infos (cpu k) p)"
  let ?mid = "k'\<lparr>sched_tasks := (sched_tasks k')\<lparr>schedulable := schedulable (sched_tasks k)\<rparr>\<rparr>"
  note st = spawned_tasks[OF assms(1,3)]
  have vm: "task_view ?mid = task_view k'" by (simp add: task_view_def fun_eq_iff)
  have r: "runnable_tasks ?mid = insert tid (runnable_tasks k)"
    unfolding runnable_tasks_def vm st(3) by (auto simp: new_info_def is_runnable_def)
  have tn: "tid \<notin> runnable_tasks k" using st(1) by (auto simp: runnable_tasks_def task_view_def)
  have "task_view ?mid (task_id i) = task_view k (task_id i)" if "i \<in> set (schedulable (sched_tasks k))" for i
    using queue_image[OF assms(2) that] tn unfolding vm st(3) by auto
  moreover have "insert tid (runnable_tasks k) - insert tid {cur} = runnable_tasks k - {cur}" using tn by auto
  ultimately have "queue_ok (insert tid {cur}) ?mid" using assms(2) unfolding queue_ok_def Let_def r by simp
  moreover have "wf_tasks ?mid" using st(2) by (simp add: wf_tasks_def)
  ultimately have "queue_ok {cur} (push_schedulable ?i ?mid)"
    using queue_push[of ?mid tid ?i "{cur}"] assms(4) vm st(3) by (simp add: new_info_def is_runnable_def)
  then show ?thesis
    using same_schedD(4)[of "push_schedulable ?i ?mid" k'] assms(3) by (simp add: same_sched_def spawned_def)
qed

text \<open>The new task can be switched to, and the other stacks are untouched.\<close>

lemma spawned_stacks:
  assumes "spawned ca entry k tid p cr3' k'"
  shows "resumable ca (cpu k') p"
    and "unat q + 0x2000 < unat p \<Longrightarrow> resumable ca (cpu k') q \<longleftrightarrow> resumable ca (cpu k) q"
proof -
  have n: "infos (cpu k') = (infos (cpu k))(p := new_info p tid cr3' (infos (cpu k) p))" "p AND TASK_STRUCT_MASK = p"
    "qmem (cpu k') = (qmem (zero_stack p (cpu k)))(p + 0x1ff8 := task_entry_addr ca, p + 0x1fe8 := entry, p + 0x1ff0 := tid)"
    using assms by (simp_all add: spawned_def)
  have "in_stack p (d + p)" if "56 \<le> d" "d < 0x2000" for d using in_stack_add[OF n(2) that] by (simp only: add.commute)
  then show "resumable ca (cpu k') p"
    unfolding resumable_def Let_def switch_frame_unfold
    by (simp add: n(1,3) new_info_def KERNEL_STACK_SIZE_def in_stack_add[OF n(2)])
  assume q: "unat q + 0x2000 < unat p"
  show "resumable ca (cpu k') q \<longleftrightarrow> resumable ca (cpu k) q"
  proof (rule resumable_cong)
    show "registers (infos (cpu k') q) = registers (infos (cpu k) q)" using q by (auto simp: n(1))
    define a where "a = stack_top (registers (infos (cpu k) q)) + 48"
    assume "in_stack q (stack_top (registers (infos (cpu k) q)) + 48)"
    then have "unat a < unat p" using block_bounds(2)[of a q] q by (simp add: in_stack_def a_def)
    then have lt: "\<not> p + d \<le> a" if "d < 0x2000" for d
      using in_block(3)[OF n(2) that] by (simp add: word_le_nat_alt)
    then have "a \<noteq> p + d" if "d < 0x2000" for d using that by auto
    then have "qmem (cpu k') a = qmem (cpu k) a"
      using lt[of 56] by (simp add: n(3) zero_stack_def TASK_INFO_SIZE_def)
    then show "qmem (cpu k') (stack_top (registers (infos (cpu k) q)) + 48) = qmem (cpu k) (stack_top (registers (infos (cpu k) q)) + 48)"
      by (simp add: a_def)
  qed
qed

lemma new_task_inv:
  assumes "sched_inv ca k" and "new_task ca entry k = Inr (tid, k')"
  shows "abstract_tasks k tid = None" and "abstract_tasks k' = (abstract_tasks k)(tid \<mapsto> (0, True))" and "sched_inv ca k'"
    and "current_task (cpu k') = current_task (cpu k)"
proof -
  let ?cur = "current_task (cpu k)" and ?pc = "current_task_ptr (cpu k)"
  have inv: "wf_tasks k" "queue_ok {?cur} k" "task_view k 0 \<noteq> None" "above_tasks k"
    "map_of (tasks (sched_tasks k)) ?cur = Some ?pc" "runs (cpu k) ?pc"
    and res: "\<And>tid p. map_of (tasks (sched_tasks k)) tid = Some p \<Longrightarrow> p \<noteq> ?pc \<Longrightarrow> resumable ca (cpu k) p"
    using assms(1) by (auto simp: sched_inv_def)
  obtain p cr3' where sp: "spawned ca entry k tid p cr3' k'" by (rule new_task_spawned[OF inv(4) assms(2)])
  note st = spawned_tasks[OF inv(1) sp] and ss = spawned_stacks[OF sp]
  have n: "regs (cpu k') = regs (cpu k)" "infos (cpu k') = (infos (cpu k))(p := new_info p tid cr3' (infos (cpu k) p))"
    "tasks (sched_tasks k') = btm_insert tid p (tasks (sched_tasks k))" "above_tasks k'"
    and fresh: "\<And>t q. map_of (tasks (sched_tasks k)) t = Some q \<Longrightarrow> unat q + 0x2000 < unat p"
    using sp by (auto simp: spawned_def)
  show "abstract_tasks k tid = None" using st(1) by (simp add: abstract_tasks_def task_view_def)
  show "abstract_tasks k' = (abstract_tasks k)(tid \<mapsto> (0, True))"
    unfolding abstract_tasks_def st(3) by (auto simp: fun_eq_iff new_info_def is_runnable_def)
  have "p \<noteq> ?pc" using fresh[OF inv(5)] by auto
  then have cur: "current_task_ptr (cpu k') = ?pc" "current_task (cpu k') = ?cur"
    by (simp_all add: current_task_ptr_def current_task_def n(1,2))
  then show "current_task (cpu k') = ?cur" by simp
  have "?cur \<noteq> tid" using st(1) inv(5) by auto
  then show "sched_inv ca k'"
    using st spawned_queue[OF inv(1,2) sp] inv(3,5,6) n ss fresh res runs_cong[of "cpu k'" "cpu k"]
    unfolding sched_inv_def cur by (auto split: if_splits)
qed

end
