(* ===== verification/Sched_Props.thy ===== *)
theory Sched_Props
  imports Sched
begin

text \<open>
  The properties of the scheduler: that a switch returns, that every operation of the guard is a step of
  the abstract scheduler, that locking and switching keep the interrupt state of each task, where a new
  task starts, and that the clock wakes the tasks that sleep.
\<close>

section \<open>Progress\<close>

lemma length_tasks:
  assumes "wf_tasks k"
  shows "length (tasks (sched_tasks k)) < 2 ^ 64"
proof -
  let ?T = "tasks (sched_tasks k)" and ?n = "next_task_id (sched_tasks k)"
  have d: "distinct (map fst ?T)" using assms btm.keys_distinct by (auto simp: wf_tasks_def)
  have "t < ?n" if "t \<in> set (map fst ?T)" for t
    using that assms unfolding wf_tasks_def btm.set_keys by blast
  then have "unat ` set (map fst ?T) \<subseteq> {..<unat ?n}" by (auto simp: word_less_nat_alt)
  then have "card (unat ` set (map fst ?T)) \<le> unat ?n" using card_mono[of "{..<unat ?n}"] by auto
  moreover have "card (unat ` set (map fst ?T)) = card (set (map fst ?T))" by (rule card_image) (simp add: inj_on_def word_unat_eq_iff)
  then have "card (unat ` set (map fst ?T)) = length ?T" using distinct_card[OF d] by simp
  ultimately show ?thesis using unat_less_exp[of ?n] by simp
qed

text \<open>When time does not run backwards and the counters do not overflow.\<close>

definition time_ok :: "u64 \<Rightarrow> 'l kernel \<Rightarrow> bool" where
  "time_ok now k \<longleftrightarrow> (let i = infos (cpu k) (current_task_ptr (cpu k)) in
     last_scheduled i \<le> now \<and> unat now + unat SCHED_LATENCY < 2 ^ 64 \<and>
     unat (total_runtime i) + (unat now - unat (last_scheduled i)) * length (tasks (sched_tasks k)) < 2 ^ 64)"

lemma update_runtime_total:
  assumes "sched_inv ca k" and "time_ok now k"
  shows "\<exists>k'. update_runtime (current_task (cpu k)) now k = Inr k'"
proof -
  let ?i = "infos (cpu k) (current_task_ptr (cpu k))" and ?n = "length (tasks (sched_tasks k))"
  have m: "map_of (tasks (sched_tasks k)) (current_task (cpu k)) = Some (current_task_ptr (cpu k))"
    and wf: "wf_tasks k" using assms(1) by (simp_all add: sched_inv_def)
  have t: "last_scheduled ?i \<le> now" "unat (total_runtime ?i) + (unat now - unat (last_scheduled ?i)) * ?n < 2 ^ 64"
    using assms(2) by (simp_all add: time_ok_def Let_def)
  have n: "unat (of_nat ?n :: u64) = ?n" using length_tasks[OF wf] by (simp add: unat_of_nat)
  have d: "unat (now - last_scheduled ?i) = unat now - unat (last_scheduled ?i)" using t(1) by (simp add: unat_sub)
  have mul: "checked_mul (now - last_scheduled ?i) (of_nat ?n) = Inr ((now - last_scheduled ?i) * of_nat ?n)"
    using t(2) n d by (simp add: checked_mul_eq_Inr)
  have "unat ((now - last_scheduled ?i) * of_nat ?n) = (unat now - unat (last_scheduled ?i)) * ?n"
    using mul n d unfolding checked_mul_eq_Inr by (simp add: unat_word_ariths)
  then show ?thesis using m mul t by (simp add: update_runtime_def checked_sub_def Let_def)
qed

lemma switch_total:
  assumes "code_ok ca" and "sched_inv ca k" and "time_ok now k"
  shows "\<exists>k'. switch sp ca now k = Inr k'"
proof -
  have inv: "wf_tasks k" "queue_ok {current_task (cpu k)} k" "task_view k 0 \<noteq> None"
    "map_of (tasks (sched_tasks k)) (current_task (cpu k)) = Some (current_task_ptr (cpu k))"
    using assms(2) by (simp_all add: sched_inv_def)
  obtain k1 where k1: "update_runtime (current_task (cpu k)) now k = Inr k1" using update_runtime_total[OF assms(2,3)] by blast
  obtain p where u: "wf_tasks k1" "queue_ok {} k1" "tasks (sched_tasks k1) = tasks (sched_tasks k)"
    by (rule update_runtime_spec[OF inv(1,2) k1])
  obtain n k2 where n: "next_task k1 = (n, k2)" by fastforce
  note s = next_task_spec[OF u(2) n]
  have t2: "tasks (sched_tasks k2) = tasks (sched_tasks k)" using s u(3) by (simp add: same_sched_def)
  obtain t pt where t: "(case n of Some t \<Rightarrow> Inr t | None \<Rightarrow> expect (task_get 0 k2)) = Inr t"
    "map_of (tasks (sched_tasks k)) t = Some pt"
  proof (cases n)
    case None
    then show ?thesis using that[of 0] inv(3) t2 by (auto simp: task_get_def task_view_def)
  next
    case (Some t)
    then have "t \<in> runnable_tasks k1" using s by simp
    then show ?thesis using that[of t] Some u(3) by (auto simp: runnable_tasks_def task_view_def)
  qed
  let ?len = "of_nat (length (tasks (sched_tasks k))) :: u64"
  have len: "?len \<noteq> 0" using length_tasks[OF inv(1)] t(2) by (auto simp: word_unat_eq_iff unat_of_nat)
  have "unat (SCHED_LATENCY div ?len) \<le> unat SCHED_LATENCY" by (simp add: unat_div div_le_dividend)
  then have "checked_add now (SCHED_LATENCY div ?len) = Inr (now + SCHED_LATENCY div ?len)"
    using assms(3) by (intro checked_add_usize) (simp add: time_ok_def Let_def)
  then show ?thesis
    using k1 n t inv(4) t2 len
    by (auto simp: switch_def set_current_task_def set_run_until_def task_get_ptr_def checked_div_def Let_def)
qed

section \<open>Locking\<close>

lemma sched_lock_spec:
  assumes "spin_ok sp unl held" and "sched_mutex k = unl"
  obtains k1 where "sched_lock sp k = Inr k1" "sched_mutex k1 = held" "same_sched k k1"
    "schedulable (sched_tasks k1) = schedulable (sched_tasks k)" "CLOCK k1 = CLOCK k" "kernel_heap k1 = kernel_heap k"
    "regs (cpu k1) = regs (cpu k)" "qmem (cpu k1) = qmem (cpu k)" "rflags (cpu k1) = disable_interrupts (rflags (cpu k))"
    "infos (cpu k1) = (infos (cpu k))(current_task_ptr (cpu k) :=
      infos (cpu k) (current_task_ptr (cpu k))\<lparr>interrupt_enabled := interrupts_enabled (rflags (cpu k))\<rparr>)"
  using assms by (intro that[of "upd_cpu (set_resume_interrupts (interrupts_enabled (rflags (cpu k))))
      (upd_cpu (\<lambda>m. m\<lparr>rflags := disable_interrupts (rflags m)\<rparr>) k)\<lparr>sched_mutex := held\<rparr>"])
    (simp_all add: sched_lock_def spin_ok_def Let_def same_sched_def set_resume_interrupts_def set_info_def current_task_ptr_def)

lemma sched_inv_same:
  assumes "sched_inv ca k" and "same_sched k k'" and "schedulable (sched_tasks k') = schedulable (sched_tasks k)"
    and "kernel_heap k' = kernel_heap k" and "regs (cpu k') = regs (cpu k)" and "qmem (cpu k') = qmem (cpu k)"
    and "\<And>p. registers (infos (cpu k') p) = registers (infos (cpu k) p)"
  shows "sched_inv ca k'" and "current_task (cpu k') = current_task (cpu k)" and "current_task_ptr (cpu k') = current_task_ptr (cpu k)"
proof -
  have t: "tasks (sched_tasks k') = tasks (sched_tasks k)" using assms(2) by (simp add: same_sched_def)
  show p: "current_task_ptr (cpu k') = current_task_ptr (cpu k)" using assms(5) by (simp add: current_task_ptr_def)
  show c: "current_task (cpu k') = current_task (cpu k)" using assms(2) p by (simp add: current_task_def same_sched_def)
  have "resumable ca (cpu k') q \<longleftrightarrow> resumable ca (cpu k) q" "runs (cpu k') q \<longleftrightarrow> runs (cpu k) q" for q
    by (rule resumable_cong; simp add: assms(6,7)) (rule runs_cong, simp add: assms(5))
  then show "sched_inv ca k'"
    using assms(1) same_schedD(1,4)[OF assms(2)] assms(3,4) t
    unfolding sched_inv_def p c by (auto simp: above_tasks_def task_view_def)
qed

section \<open>Operations\<close>

text \<open>The operations of the guard.\<close>

datatype sched_op = SwitchOp u64 | BlockOp u64 | SleepOp u64 u64 u64 | WakeOp usize | SpawnOp usize

fun sched_exec :: "'l spin_ops \<Rightarrow> code_addrs \<Rightarrow> sched_op \<Rightarrow> 'l kernel \<Rightarrow> 'l kernel res" where
  "sched_exec sp ca (SwitchOp now) k = switch sp ca now k"
| "sched_exec sp ca (BlockOp now) k = sched_block sp ca now k"
| "sched_exec sp ca (SleepOp t now ns) k = sched_sleep sp ca t now ns k"
| "sched_exec sp ca (WakeOp task) k = wake task k"
| "sched_exec sp ca (SpawnOp entry) k = rbind (new_task ca entry k) (\<lambda>(_, k'). Inr k')"

definition abstract_sched :: "'l kernel \<Rightarrow> abstract_sched" where
  "abstract_sched k = (abstract_tasks k, current_task (cpu k))"

lemma with_clock: "sched_inv ca (k\<lparr>CLOCK := c\<rparr>) \<longleftrightarrow> sched_inv ca k" "abstract_tasks (k\<lparr>CLOCK := c\<rparr>) = abstract_tasks k"
  by (simp_all add: sched_inv_def wf_tasks_def queue_ok_def runnable_tasks_def task_view_def above_tasks_def
      abstract_tasks_def fun_eq_iff)

lemma sched_exec_step:
  assumes "code_ok ca" and "sched_inv ca k" and "op \<noteq> WakeOp (current_task (cpu k))" and "sched_exec sp ca op k = Inr k'"
  shows "sched_step (abstract_sched k) (abstract_sched k') \<and> sched_inv ca k'"
proof (cases op)
  case (SwitchOp now)
  then show ?thesis using switch_step[OF assms(1,2)] assms(4) by (simp add: abstract_sched_def)
next
  case (BlockOp now)
  then obtain k1 where k1: "set_runnable (current_task (cpu k)) False k = Inr k1" "switch sp ca now k1 = Inr k'"
    using assms(4) by (auto simp: sched_block_def res_simps)
  then have "switch sp ca now (k1\<lparr>CLOCK := CLOCK k1\<rparr>) = Inr k'" by simp
  from block_then_switch[OF assms(1,2) k1(1) this] show ?thesis by (simp add: abstract_sched_def)
next
  case (SleepOp t now ns)
  then obtain c k1 c' where k1: "set_runnable (current_task (cpu k)) False (k\<lparr>CLOCK := c\<rparr>) = Inr k1"
    "switch sp ca now (k1\<lparr>CLOCK := c'\<rparr>) = Inr k'"
    using assms(4) by (auto simp: sched_sleep_def Let_def get_tick_def res_simps split: option.splits)
  have "sched_inv ca (k\<lparr>CLOCK := c\<rparr>)" using assms(2) by (simp only: with_clock)
  from block_then_switch[OF assms(1) this _ k1(2)] k1(1) show ?thesis by (simp add: abstract_sched_def with_clock)
next
  case (WakeOp t)
  then have t: "set_runnable t True k = Inr k'" "t \<noteq> current_task (cpu k)" using assms(3,4) by (auto simp: wake_def)
  obtain r b0 where "abstract_tasks k t = Some (r, b0)" "abstract_tasks k' = (abstract_tasks k)(t \<mapsto> (r, True))"
    "sched_inv ca k'" "current_task (cpu k') = current_task (cpu k)"
    by (rule set_runnable_inv[OF assms(2) t(1)]) (use t(2) in simp)
  then show ?thesis using step_wake[of "abstract_tasks k" t r b0] t(2) by (simp add: abstract_sched_def)
next
  case (SpawnOp entry)
  then obtain tid where n: "new_task ca entry k = Inr (tid, k')" using assms(4) by (auto simp: res_simps)
  show ?thesis using new_task_inv[OF assms(2) n] step_new[of "abstract_tasks k" tid] by (simp add: abstract_sched_def)
qed

section \<open>Waking sleepers\<close>



lemma check_runtime_eq:
  assumes "spin_ok sp unl held" and "sched_mutex k = unl" and "sched_inv ca k"
  shows "check_runtime sp ca now now2 k =
    (if run_until (infos (cpu k) (current_task_ptr (cpu k))) \<le> now
     then rbind (sched_lock sp k) (switch sp ca now2)
     else Inr (upd_cpu (set_resume_interrupts (interrupts_enabled (rflags (cpu k)))) k))"
proof -
  let ?r = "interrupts_enabled (rflags (cpu k))"
  let ?k2 = "upd_cpu (set_resume_interrupts ?r) (upd_cpu (\<lambda>m. m\<lparr>rflags := disable_interrupts (rflags m)\<rparr>) k)"
  have m: "map_of (tasks (sched_tasks k)) (current_task (cpu k)) = Some (current_task_ptr (cpu k))" using assms(3) by (simp add: sched_inv_def)
  have l: "sched_lock sp k = Inr (?k2\<lparr>sched_mutex := held\<rparr>)" using assms(1,2) by (simp add: sched_lock_def spin_ok_def Let_def)
  have c: "current_task_ptr (cpu ?k2) = current_task_ptr (cpu k)" "current_task (cpu ?k2) = current_task (cpu k)"
    by (simp_all add: current_task_ptr_def current_task_def set_resume_interrupts_def set_info_def)
  have g: "get_run_until (current_task (cpu k)) (?k2\<lparr>sched_mutex := held\<rparr>) = Inr (run_until (infos (cpu k) (current_task_ptr (cpu k))))"
    using m by (simp add: get_run_until_def set_resume_interrupts_def set_info_def current_task_ptr_def)
  have "resume_interrupts (cpu ?k2) = ?r"
    by (simp add: resume_interrupts_def set_resume_interrupts_def set_info_def current_task_ptr_def)
  then have d: "sched_guard_drop sp (?k2\<lparr>sched_mutex := held\<rparr>) = upd_cpu (set_resume_interrupts ?r) k"
    using restore_interrupts[of "rflags (cpu k)"] assms(1,2)
    by (auto simp: sched_guard_drop_def Let_def spin_ok_def set_resume_interrupts_def set_info_def current_task_ptr_def split: if_splits)
  show ?thesis using l g d c(2) by (simp add: check_runtime_def)
qed

section \<open>A sample state\<close>

text \<open>Task 0 runs; task 1 has just been created.\<close>

definition sample_code :: code_addrs where
  "sample_code = \<lparr>boot_stack = 0x10000, task_entry_addr = 0x1000, task_entry_ret = 0x1010, switch_ret = 0x1100, guard_slot = 16\<rparr>"

definition sample_info :: "usize \<Rightarrow> task_info" where
  "sample_info tid = \<lparr>task_id = tid, registers = \<lparr>stack_top = 0x20000 + 0x1fc8, task_cr3 = 0x100000\<rparr>, last_scheduled = 5,
     run_until = 50, total_runtime = 7 * tid, flags = 1, interrupt_enabled = True\<rparr>"

definition sample_kernel :: "bool kernel" where
  "sample_kernel = \<lparr>cpu = \<lparr>regs = (\<lambda>_. 0)(RSP := 0x11f00), rflags = 0x202, qmem = (\<lambda>_. 0)(0x21ff8 := 0x1000),
       infos = (\<lambda>_. sample_info 0)(0x20000 := sample_info 1)\<rparr>,
     sched_tasks = \<lparr>next_task_id = 2, current = Some 0, tasks = [(0, 0x10000), (1, 0x20000)], schedulable = [sample_info 1]\<rparr>,
     sched_mutex = False, kernel_heap = \<lparr>heap_bottom = 0x30000, head = 0x30000\<rparr>, MAPPER = Some sample_mapper, CLOCK = Some clock_new\<rparr>"

lemma sample_code_ok: "code_ok sample_code"
  by (simp add: code_ok_def sample_code_def)

lemma sample_current: "current_task_ptr (cpu sample_kernel) = 0x10000" "current_task (cpu sample_kernel) = 0"
  by (simp_all add: current_task_ptr_def current_task_def sample_kernel_def TASK_STRUCT_MASK_def KERNEL_STACK_SIZE_def sample_info_def)

lemma sample_inv: "sched_inv sample_code sample_kernel"
proof -
  have wf: "wf_tasks sample_kernel"
    by (auto simp: wf_tasks_def sample_kernel_def btm_ok_def TASK_STRUCT_MASK_def KERNEL_STACK_SIZE_def sample_info_def
        inj_on_def split: if_splits)
  have v: "task_view sample_kernel = [0 \<mapsto> sample_info 0, 1 \<mapsto> sample_info 1]"
    by (auto simp: task_view_def sample_kernel_def fun_eq_iff)
  have "runnable_tasks sample_kernel = {0, 1}"
    unfolding runnable_tasks_def v by (auto simp: sample_info_def is_runnable_def split: if_splits)
  then have "queue_ok {0} sample_kernel"
    unfolding queue_ok_def v by (auto simp: sample_kernel_def heap_upto_def sample_info_def)
  moreover have "runs (cpu sample_kernel) 0x10000" "resumable sample_code (cpu sample_kernel) 0x20000"
    by (simp_all add: runs_def resumable_def in_stack_def switch_frame_unfold sample_kernel_def TASK_STRUCT_MASK_def
        KERNEL_STACK_SIZE_def TASK_INFO_SIZE_def sample_info_def sample_code_def)
  ultimately show ?thesis
    using wf v unfolding sched_inv_def sample_current
    by (auto simp: above_tasks_def sample_kernel_def split: if_splits)
qed

lemma sample_time: "time_ok 100 sample_kernel"
  unfolding time_ok_def sample_current by (simp add: sample_kernel_def sample_info_def SCHED_LATENCY_def)

section \<open>Properties\<close>

text \<open>
  C14: a switch returns: whenever the invariant of the scheduler holds, time does not run backwards and
  the counters do not overflow, none of the panics of the code on the way is reached.
\<close>

theorem switch_returns:
  assumes "code_ok ca" and "sched_inv ca k" and "time_ok now k"
  shows "\<exists>k'. switch sp ca now k = Inr k' \<and> sched_inv ca k'"
  using switch_total[OF assms] switch_step(2)[OF assms(1,2)] by blast

theorem switch_returns_witness:
  "\<exists>k'. switch bool_spin sample_code 100 sample_kernel = Inr k' \<and> sched_inv sample_code k'"
  by (rule switch_returns[OF sample_code_ok sample_inv sample_time])

text \<open>
  C3: the scheduler refines the abstract one: switching, blocking, sleeping, waking another task and
  creating a task are steps of it, in which the next task is a runnable one with the least run time
  (task 0 if none is runnable), the run time of a task never decreases, and nothing else changes; and
  each keeps the invariant of the task list, of the queue and of the stacks.
\<close>

theorem scheduler_refines:
  assumes "code_ok ca" and "sched_inv ca k" and "op \<noteq> WakeOp (current_task (cpu k))" and "sched_exec sp ca op k = Inr k'"
  shows "sched_step (abstract_sched k) (abstract_sched k') \<and> sched_inv ca k'"
  by (rule sched_exec_step[OF assms])

theorem scheduler_refines_witness:
  "\<exists>k'. sched_exec bool_spin sample_code (SwitchOp 100) sample_kernel = Inr k' \<and>
     sched_step (abstract_sched sample_kernel) (abstract_sched k') \<and> sched_inv sample_code k'"
proof -
  obtain k' where "sched_exec bool_spin sample_code (SwitchOp 100) sample_kernel = Inr k'"
    using switch_total[OF sample_code_ok sample_inv sample_time] by auto
  with scheduler_refines[OF sample_code_ok sample_inv _ this] show ?thesis by auto
qed

text \<open>
  C21: locking the scheduler and switching: the task that locks finds interrupts disabled until the lock
  is free again, its own interrupt state is kept in its header, and the task that continues gets back
  the state it had; the lock is free afterwards although dropping the guard releases it twice.
\<close>

theorem lock_switch_interrupts:
  assumes "code_ok ca" and "spin_ok sp unl held" and "sched_mutex k = unl" and "sched_inv ca k"
    and "sched_lock sp k = Inr k1" and "switch sp ca now k1 = Inr k2"
  shows "\<not> interrupts_enabled (rflags (cpu k1)) \<and> sched_mutex k2 = unl \<and>
    interrupt_enabled (infos (cpu k1) (current_task_ptr (cpu k))) = interrupts_enabled (rflags (cpu k)) \<and>
    interrupts_enabled (rflags (cpu k2)) = interrupt_enabled (infos (cpu k1) (current_task_ptr (cpu k2)))"
proof -
  obtain k1' where l: "sched_lock sp k = Inr k1'" "sched_mutex k1' = held" "same_sched k k1'"
    "schedulable (sched_tasks k1') = schedulable (sched_tasks k)" "kernel_heap k1' = kernel_heap k"
    "regs (cpu k1') = regs (cpu k)" "qmem (cpu k1') = qmem (cpu k)" "rflags (cpu k1') = disable_interrupts (rflags (cpu k))"
    "infos (cpu k1') = (infos (cpu k))(current_task_ptr (cpu k) :=
      infos (cpu k) (current_task_ptr (cpu k))\<lparr>interrupt_enabled := interrupts_enabled (rflags (cpu k))\<rparr>)"
    by (rule sched_lock_spec[OF assms(2,3)])
  then have k1: "k1' = k1" using assms(5) by simp
  have "sched_inv ca k1" using sched_inv_same(1)[OF assms(4) l(3-7)] l(9) by (simp add: k1)
  then obtain p' where w: "sched_mutex k2 = sp_unlock sp (sp_unlock sp (sched_mutex k1))" "current_task_ptr (cpu k2) = p'"
    "rflags (cpu k2) = (if interrupt_enabled (infos (cpu k1) p') then enable_interrupts (rflags (cpu k1)) else rflags (cpu k1))"
    by (rule switch_spec[OF assms(1) _ assms(6)])
  then show ?thesis using l(2,8,9) assms(2) by (simp add: k1 spin_ok_def)
qed

theorem lock_switch_interrupts_witness:
  "\<exists>k1 k2. sched_lock bool_spin sample_kernel = Inr k1 \<and> switch bool_spin sample_code 100 k1 = Inr k2 \<and>
     \<not> sched_mutex k2 \<and> interrupts_enabled (rflags (cpu k2)) = interrupt_enabled (infos (cpu k1) (current_task_ptr (cpu k2)))"
proof -
  have fr: "sched_mutex sample_kernel = False" by (simp add: sample_kernel_def)
  obtain k1 where l: "sched_lock bool_spin sample_kernel = Inr k1" "same_sched sample_kernel k1"
    "schedulable (sched_tasks k1) = schedulable (sched_tasks sample_kernel)" "kernel_heap k1 = kernel_heap sample_kernel"
    "regs (cpu k1) = regs (cpu sample_kernel)" "qmem (cpu k1) = qmem (cpu sample_kernel)"
    "infos (cpu k1) = (infos (cpu sample_kernel))(current_task_ptr (cpu sample_kernel) :=
      infos (cpu sample_kernel) (current_task_ptr (cpu sample_kernel))\<lparr>interrupt_enabled := interrupts_enabled (rflags (cpu sample_kernel))\<rparr>)"
    by (rule sched_lock_spec[OF bool_spin_ok fr])
  have i: "sched_inv sample_code k1" "current_task_ptr (cpu k1) = current_task_ptr (cpu sample_kernel)"
    using sched_inv_same[OF sample_inv l(2-6)] l(7) by simp_all
  have "time_ok 100 k1" using sample_time i(2) l(2,7) by (simp add: time_ok_def Let_def same_sched_def)
  then obtain k2 where k2: "switch bool_spin sample_code 100 k1 = Inr k2" using switch_total[OF sample_code_ok i(1)] by blast
  show ?thesis using lock_switch_interrupts[OF sample_code_ok bool_spin_ok fr sample_inv l(1) k2] l(1) k2 by auto
qed

text \<open>
  C26: where a new task starts: the first switch to a task created by \<open>new_task\<close> arrives in its entry code
  on the top of its own stack and in its own address space, with the task id, the entry function and
  the address of the guard as the arguments of \<open>task_entry\<close>.
\<close>

theorem new_task_first_run:
  assumes "sched_inv ca k" and "new_task ca entry k = Inr (tid, k')"
  shows "\<exists>p. map_of (tasks (sched_tasks k')) tid = Some p \<and>
    (let m = switch_context ca (current_task_ptr (cpu k')) p (cpu k') in
     regs m RIP = task_entry_addr ca \<and> regs m RDI = tid \<and> regs m RSI = entry \<and>
     regs m RDX = regs (cpu k) RSP + guard_slot ca \<and> regs m RSP = p + KERNEL_STACK_SIZE - 8 \<and>
     regs m CR3 = task_cr3 (registers (infos (cpu k') p)))"
proof -
  have at: "above_tasks k" using assms(1) by (simp add: sched_inv_def)
  obtain p cr3' where sp: "spawned ca entry k tid p cr3' k'" by (rule new_task_spawned[OF at assms(2)])
  note inv = new_task_inv(3)[OF assms]
  let ?m = "cpu k'" and ?pc = "current_task_ptr (cpu k')"
  have n: "tasks (sched_tasks k') = btm_insert tid p (tasks (sched_tasks k))" "regs ?m = regs (cpu k)"
    "infos ?m = (infos (cpu k))(p := new_info p tid cr3' (infos (cpu k) p))" "p AND TASK_STRUCT_MASK = p"
    "qmem ?m = (qmem (zero_stack p (cpu k)))(p + 0x1ff8 := task_entry_addr ca, p + 0x1fe8 := entry, p + 0x1ff0 := tid)"
    using sp by (simp_all add: spawned_def)
  have r: "runs ?m ?pc" using inv by (simp add: sched_inv_def)
  have pne: "p \<noteq> ?pc"
  proof -
    have "map_of (tasks (sched_tasks k)) (current_task (cpu k)) = Some (current_task_ptr (cpu k))" using assms(1) by (simp add: sched_inv_def)
    then have "unat (current_task_ptr (cpu k)) + 0x2000 < unat p" using sp unfolding spawned_def by blast
    then show ?thesis using n(2) by (auto simp: current_task_ptr_def)
  qed
  define m1 where "m1 = push (switch_ret ca) (set_reg RDX (regs ?m RSP + guard_slot ca) (set_reg RSI p (set_reg RDI ?pc ?m)))"
  define m2 where "m2 = do_switch m1"
  note sw = switch_pushes[where ca = ca and m = ?m and pf = ?pc and pt = p, folded m1_def] and e = do_switch_eq[OF m2_def]
  have q: "qmem m2 (p + d) = qmem ?m (p + d)" if "56 \<le> d" "d < 0x2000" for d
    using sw(1)[of "p + d"] e(2) in_stack_add[OF n(4) that] r in_stack_other[OF _ _ pne] unfolding runs_def list_all_iff by metis
  have s: "stack_top (registers (infos (save_stack_top (push_callee_saved m1)) (regs m1 RSI))) = p + 0x1fc8"
    unfolding sw(3,4) using pne by (simp add: n(3) new_info_def)
  have r2: "regs m2 RIP = task_entry_addr ca" "regs m2 RBP = tid" "regs m2 RBX = entry" "regs m2 RSP = p + 0x2000"
    "regs m2 RAX = regs ?m RSP + guard_slot ca" "regs m2 CR3 = task_cr3 (registers (infos ?m p))"
    using e(1) q[of "0x1ff8"] q[of "0x1fe8"] q[of "0x1ff0"] unfolding s
    by (simp_all add: n(5) m1_def machine_simps add.commute[of _ p])
  have "switch_context ca ?pc p ?m = task_entry_stub (task_entry_ret ca) m2"
    using r2(1) by (simp add: switch_context_def Let_def flip: m1_def m2_def)
  then show ?thesis
    using n(1,2) r2 by (intro exI[of _ p]) (simp add: Let_def task_entry_stub_def machine_simps KERNEL_STACK_SIZE_def)
qed

lemma rfold_stay: "(\<And>x. x \<in> set xs \<Longrightarrow> f x s = Inr s) \<Longrightarrow> rfold f xs s = Inr s"
  by (induction xs) auto

lemma sample_fork: "\<exists>r. fork sample_mapper 0xffffff8000100000 = Inr r"
proof -
  obtain dst m1 where n: "new_table sample_mapper = (dst, m1)" by fastforce
  have t: "tables m1 = (\<lambda>_. paging_struct_default)" "valid_table m1 0xffffff8000100000" "environment m1 = environment sample_mapper"
    "dst = 0xffffff8000107000"
    using n by (auto simp: new_table_def sample_mapper_def valid_table_def base_add_def Let_def)
  have f: "fork_kernel_entry 0xffffff8000100000 dst i m1 = Inr m1" "fork_user_entry 0xffffff8000100000 dst i m1 = Inr m1"
    if "unat i < 512" for i
    using that t(1,2) by (simp_all add: fork_kernel_entry_def fork_user_entry_def read_entry_def get_entry_def paging_struct_default_def
        entry_default_def get_flags_def Let_def PRESENT_FLAG_def word_less_nat_alt)
  have "rfold (fork_kernel_entry 0xffffff8000100000 dst) (map of_nat [256..<512]) m1 = Inr m1"
    "rfold (fork_user_entry 0xffffff8000100000 dst) (map of_nat [0..<256]) m1 = Inr m1"
    by (rule rfold_stay; auto intro!: f simp: unat_of_nat)+
  then show ?thesis using n t(3,4) by (simp add: fork_def struct_phys_addr_def sample_mapper_def PAGING_STRUCTURE_BASE_def checked_sub_def)
qed

theorem new_task_first_run_witness:
  "\<exists>tid k' p. new_task sample_code 0x4000 sample_kernel = Inr (tid, k') \<and>
     regs (switch_context sample_code (current_task_ptr (cpu k')) p (cpu k')) RSI = 0x4000"
proof -
  obtain a mp where fk: "fork sample_mapper 0xffffff8000100000 = Inr (a, mp)" using sample_fork by fastforce
  have "map_of (tasks (sched_tasks sample_kernel)) 0 = Some 0x10000" by (simp add: sample_kernel_def)
  then obtain tid k' where n: "new_task sample_code 0x4000 sample_kernel = Inr (tid, k')"
    using fk unfolding new_task_def sample_current
    by (simp add: sample_kernel_def sample_info_def alloc_def KERNEL_STACK_SIZE_def checked_div_def checked_mul_def
        PAGING_STRUCTURE_BASE_def create_task_def checked_add_def Let_def)
  from new_task_first_run[OF sample_inv n] n show ?thesis by (metis (mono_tags, lifting))
qed

text \<open>
  Property: time slices: the check at the end of every interrupt switches exactly when the slice of the running
  task is over. Before that it leaves everything as it was, but for the record of the interrupt state in
  the header of the task.
\<close>

theorem check_runtime_preempts:
  assumes "spin_ok sp unl held" and "sched_mutex k = unl" and "sched_inv ca k"
  shows "check_runtime sp ca now now2 k =
    (if run_until (infos (cpu k) (current_task_ptr (cpu k))) \<le> now
     then rbind (sched_lock sp k) (switch sp ca now2)
     else Inr (upd_cpu (set_resume_interrupts (interrupts_enabled (rflags (cpu k)))) k))"
  by (rule check_runtime_eq[OF assms])

theorem check_runtime_preempts_witness:
  "check_runtime bool_spin sample_code 49 49 sample_kernel = Inr (upd_cpu (set_resume_interrupts True) sample_kernel)"
proof -
  have "sched_mutex sample_kernel = False" "run_until (infos (cpu sample_kernel) 0x10000) = 50"
    "interrupts_enabled (rflags (cpu sample_kernel))"
    by (simp_all add: sample_kernel_def sample_info_def interrupts_enabled_def)
  then show ?thesis using check_runtime_preempts[OF bool_spin_ok _ sample_inv, of 49 49] sample_current by simp
qed



end
