(* ===== verification/Semaphore_Sched.thy ===== *)
theory Semaphore_Sched
  imports Semaphore Sched_Props
begin

text \<open>
  The semaphores on the scheduler: the operations of \<open>src/kernel/sched/mod.rs\<close> meet what
  \<open>src/locking/semaphore.rs\<close> relies on, so that no wake-up is lost.
\<close>

section \<open>The scheduler as the semaphore sees it\<close>

definition kernel_api :: "'l spin_ops \<Rightarrow> code_addrs \<Rightarrow> 'l kernel sched_api" where
  "kernel_api sp ca = \<lparr>api_lock = sched_lock sp, api_unlock = sched_guard_drop sp,
     api_current = (\<lambda>k. current_task (cpu k)), api_block = sched_block sp ca, api_wake = wake\<rparr>"

lemma kernel_api_simps [simp]:
  "api_lock (kernel_api sp ca) = sched_lock sp" "api_unlock (kernel_api sp ca) = sched_guard_drop sp"
  "api_current (kernel_api sp ca) k = current_task (cpu k)" "api_block (kernel_api sp ca) = sched_block sp ca"
  "api_wake (kernel_api sp ca) = wake"
  by (simp_all add: kernel_api_def)

text \<open>The lock is free, the invariant holds, and the running task is runnable or the idle task.\<close>

definition sched_ready :: "'l spin_ops \<Rightarrow> code_addrs \<Rightarrow> 'l kernel \<Rightarrow> bool" where
  "sched_ready sp ca k \<longleftrightarrow> code_ok ca \<and> (\<exists>held. spin_ok sp (sched_mutex k) held) \<and> sched_inv ca k \<and>
     (current_task (cpu k) \<in> runnable_tasks k \<or> current_task (cpu k) = 0)"

definition known_tasks :: "'l kernel \<Rightarrow> usize set" where
  "known_tasks k = dom (abstract_tasks k)"

lemma runnable_upd:
  assumes "abstract_tasks k' = (abstract_tasks k)(t \<mapsto> (r, b))" and "abstract_tasks k t = Some x"
  shows "runnable_tasks k' = (if b then insert t (runnable_tasks k) else runnable_tasks k - {t})"
    and "known_tasks k' = known_tasks k"
  using assms unfolding runnable_abs known_tasks_def by auto

lemma picks_ready: "picks (abstract_tasks k) n \<Longrightarrow> n \<in> runnable_tasks k \<or> n = 0"
  unfolding runnable_abs picks_def by auto

lemma lock_ready:
  assumes "spin_ok sp (sched_mutex k) held" and "sched_inv ca k"
  obtains k1 where "sched_lock sp k = Inr k1" "sched_mutex k1 = held" "sched_inv ca k1" "abstract_tasks k1 = abstract_tasks k"
    "current_task (cpu k1) = current_task (cpu k)"
proof -
  obtain k1 where l: "sched_lock sp k = Inr k1" "sched_mutex k1 = held" "same_sched k k1"
    "schedulable (sched_tasks k1) = schedulable (sched_tasks k)" "kernel_heap k1 = kernel_heap k"
    "regs (cpu k1) = regs (cpu k)" "qmem (cpu k1) = qmem (cpu k)"
    "infos (cpu k1) = (infos (cpu k))(current_task_ptr (cpu k) :=
      infos (cpu k) (current_task_ptr (cpu k))\<lparr>interrupt_enabled := interrupts_enabled (rflags (cpu k))\<rparr>)"
    by (rule sched_lock_spec[OF assms(1) refl])
  have "sched_inv ca k1" "current_task (cpu k1) = current_task (cpu k)"
    using sched_inv_same(1,2)[OF assms(2) l(3-7)] l(8) by simp_all
  then show ?thesis using that l(1,2) same_sched_abs[OF l(3)] by simp
qed

lemma drop_ready:
  assumes "sched_inv ca k"
  shows "sched_inv ca (sched_guard_drop sp k)" and "abstract_tasks (sched_guard_drop sp k) = abstract_tasks k"
    and "current_task (cpu (sched_guard_drop sp k)) = current_task (cpu k)"
    and "sched_mutex (sched_guard_drop sp k) = sp_unlock sp (sp_unlock sp (sched_mutex k))"
proof -
  have s: "same_sched k (sched_guard_drop sp k)" by (simp add: same_sched_def sched_guard_drop_def Let_def)
  show "sched_mutex (sched_guard_drop sp k) = sp_unlock sp (sp_unlock sp (sched_mutex k))"
    by (simp add: sched_guard_drop_def Let_def)
  show "abstract_tasks (sched_guard_drop sp k) = abstract_tasks k" by (rule same_sched_abs[OF s])
  show "sched_inv ca (sched_guard_drop sp k)" "current_task (cpu (sched_guard_drop sp k)) = current_task (cpu k)"
    by (rule sched_inv_same[OF assms s]; simp add: sched_guard_drop_def Let_def)+
qed

lemma set_runnable_known: "set_runnable t b k = Inr k' \<Longrightarrow> t \<in> known_tasks k"
  by (auto simp: set_runnable_def Let_def res_simps known_tasks_def abstract_tasks_def task_view_def)

lemma set_runnable_total: "t \<in> known_tasks k \<Longrightarrow> \<exists>k'. set_runnable t b k = Inr k'"
  by (auto simp: set_runnable_def Let_def known_tasks_def abstract_tasks_def task_view_def)

lemma unlock_twice: "spin_ok sp unl held \<Longrightarrow> sp_unlock sp (sp_unlock sp held) = unl"
  by (simp add: spin_ok_def)

lemma ready_same:
  assumes "sched_ready sp ca k" and "sched_inv ca k'" and "sched_mutex k' = sched_mutex k"
    and "current_task (cpu k') \<in> runnable_tasks k' \<or> current_task (cpu k') = 0"
  shows "sched_ready sp ca k'"
  using assms by (simp add: sched_ready_def)

lemma switch_ready:
  assumes "sched_ready sp ca k" and "spin_ok sp (sched_mutex k) held" and "sched_inv ca k1" and "sched_mutex k1 = held"
    and "switch sp ca now k1 = Inr k2"
  shows "sched_ready sp ca k2 \<and> runnable_tasks k2 = runnable_tasks k1 \<and> known_tasks k2 = known_tasks k1"
proof -
  have co: "code_ok ca" using assms(1) by (simp add: sched_ready_def)
  obtain r b delta where w: "abstract_tasks k1 (current_task (cpu k1)) = Some (r, b)"
    "abstract_tasks k2 = (abstract_tasks k1)(current_task (cpu k1) \<mapsto> (r + delta, b))"
    "picks (abstract_tasks k2) (current_task (cpu k2))" "sched_inv ca k2"
    "sched_mutex k2 = sp_unlock sp (sp_unlock sp (sched_mutex k1))"
    by (rule switch_spec[OF co assms(3,5)])
  have "b \<longleftrightarrow> current_task (cpu k1) \<in> runnable_tasks k1" using w(1) unfolding runnable_abs by simp
  then have "runnable_tasks k2 = runnable_tasks k1" "known_tasks k2 = known_tasks k1"
    using runnable_upd[OF w(2,1)] by auto
  then show ?thesis
    using ready_same[OF assms(1) w(4)] w(5) assms(4) unlock_twice[OF assms(2)] picks_ready[OF w(3)] by simp
qed

lemma readyE:
  assumes "sched_ready sp ca k" and "sched_lock sp k = Inr k1"
  obtains held where "spin_ok sp (sched_mutex k) held" "code_ok ca" "sched_inv ca k" "sched_mutex k1 = held" "sched_inv ca k1"
    "abstract_tasks k1 = abstract_tasks k" "current_task (cpu k1) = current_task (cpu k)"
    "runnable_tasks k1 = runnable_tasks k" "known_tasks k1 = known_tasks k"
proof -
  obtain held where h: "spin_ok sp (sched_mutex k) held" "code_ok ca" "sched_inv ca k" using assms(1) by (auto simp: sched_ready_def)
  obtain k1' where "sched_lock sp k = Inr k1'" "sched_mutex k1' = held" "sched_inv ca k1'" "abstract_tasks k1' = abstract_tasks k"
    "current_task (cpu k1') = current_task (cpu k)"
    by (rule lock_ready[OF h(1,3)])
  then show ?thesis using that h assms(2) by (simp add: runnable_abs known_tasks_def)
qed

lemma dropped_ready:
  assumes "sched_ready sp ca k" and "spin_ok sp (sched_mutex k) held" and "sched_inv ca k1" and "sched_mutex k1 = held"
    and "current_task (cpu k1) = current_task (cpu k)" and "runnable_tasks k \<subseteq> runnable_tasks k1"
  shows "sched_ready sp ca (sched_guard_drop sp k1) \<and> runnable_tasks (sched_guard_drop sp k1) = runnable_tasks k1 \<and>
    known_tasks (sched_guard_drop sp k1) = known_tasks k1"
proof -
  note d = drop_ready[OF assms(3), of sp]
  have "runnable_tasks (sched_guard_drop sp k1) = runnable_tasks k1" "known_tasks (sched_guard_drop sp k1) = known_tasks k1"
    using d(2) by (simp_all add: runnable_abs known_tasks_def)
  moreover have "sched_ready sp ca (sched_guard_drop sp k1)"
    using assms(1,4,6) calculation d(4) unlock_twice[OF assms(2)]
    by (intro ready_same[OF assms(1) d(1)]) (auto simp: sched_ready_def d(3) assms(5))
  ultimately show ?thesis by blast
qed

lemma block_ready:
  assumes "sched_ready sp ca k" and l: "sched_lock sp k = Inr k1" and "sched_block sp ca now k1 = Inr k2"
  shows "sched_ready sp ca k2 \<and> runnable_tasks k2 = runnable_tasks k - {current_task (cpu k)} \<and> known_tasks k2 = known_tasks k"
proof -
  obtain held where h: "spin_ok sp (sched_mutex k) held" "sched_mutex k1 = held" "sched_inv ca k1"
    "current_task (cpu k1) = current_task (cpu k)" "runnable_tasks k1 = runnable_tasks k" "known_tasks k1 = known_tasks k"
    by (rule readyE[OF assms(1,2)])
  obtain k' where k': "set_runnable (current_task (cpu k1)) False k1 = Inr k'" "switch sp ca now k' = Inr k2"
    using assms(3) by (auto simp: sched_block_def res_simps)
  obtain r b0 where s: "abstract_tasks k1 (current_task (cpu k1)) = Some (r, b0)"
    "abstract_tasks k' = (abstract_tasks k1)(current_task (cpu k1) \<mapsto> (r, False))" "sched_inv ca k'" "sched_mutex k' = sched_mutex k1"
    by (rule set_runnable_inv[OF h(3) k'(1)]) simp_all
  have "sched_mutex k' = held" using s(4) h(2) by simp
  from switch_ready[OF assms(1) h(1) s(3) this k'(2)] show ?thesis using runnable_upd[OF s(2,1)] h(4-6) by simp
qed

lemma wake_ready:
  assumes "sched_ready sp ca k" and l: "sched_lock sp k = Inr k1" and "u \<in> known_tasks k" and "u \<noteq> current_task (cpu k)"
  shows "\<exists>k2. wake u k1 = Inr k2 \<and> sched_ready sp ca (sched_guard_drop sp k2) \<and>
    runnable_tasks (sched_guard_drop sp k2) = insert u (runnable_tasks k) \<and> known_tasks (sched_guard_drop sp k2) = known_tasks k"
proof -
  obtain held where h: "spin_ok sp (sched_mutex k) held" "sched_mutex k1 = held" "sched_inv ca k1"
    "current_task (cpu k1) = current_task (cpu k)" "runnable_tasks k1 = runnable_tasks k" "known_tasks k1 = known_tasks k"
    by (rule readyE[OF assms(1,2)])
  obtain k2 where k2: "set_runnable u True k1 = Inr k2" using set_runnable_total[of u k1] assms(3) h(6) by auto
  obtain r b0 where s: "abstract_tasks k1 u = Some (r, b0)" "abstract_tasks k2 = (abstract_tasks k1)(u \<mapsto> (r, True))"
    "sched_inv ca k2" "current_task (cpu k2) = current_task (cpu k1)" "sched_mutex k2 = sched_mutex k1"
    by (rule set_runnable_inv[OF h(3) k2]) (use assms(4) h(4) in simp)
  have r: "runnable_tasks k2 = insert u (runnable_tasks k)" "known_tasks k2 = known_tasks k"
    using runnable_upd[OF s(2,1)] h(5,6) by simp_all
  have "sched_mutex k2 = held" "current_task (cpu k2) = current_task (cpu k)" using s(4,5) h(2,4) by simp_all
  from dropped_ready[OF assms(1) h(1) s(3) this] show ?thesis using k2 r by (auto simp: wake_def)
qed

lemma preempt_ready:
  assumes "sched_ready sp ca k" and "check_runtime sp ca now now2 k = Inr k'"
  shows "sched_ready sp ca k' \<and> runnable_tasks k' = runnable_tasks k \<and> known_tasks k' = known_tasks k"
proof -
  obtain k1 where k1: "sched_lock sp k = Inr k1" using assms(2) by (auto simp: check_runtime_def res_simps)
  obtain held where h: "spin_ok sp (sched_mutex k) held" "sched_mutex k1 = held" "sched_inv ca k1"
    "current_task (cpu k1) = current_task (cpu k)" "runnable_tasks k1 = runnable_tasks k" "known_tasks k1 = known_tasks k"
    by (rule readyE[OF assms(1) k1])
  have "switch sp ca now2 k1 = Inr k' \<or> k' = sched_guard_drop sp k1"
    using assms(2) k1 by (auto simp: check_runtime_def res_simps split: if_splits)
  then show ?thesis
    using switch_ready[OF assms(1) h(1,3,2)] dropped_ready[OF assms(1) h(1,3,2,4)] h(5,6) by auto
qed

lemma current_known: "sched_inv ca k \<Longrightarrow> current_task (cpu k) \<in> known_tasks k"
  by (auto simp: sched_inv_def known_tasks_def abstract_tasks_def task_view_def)

interpretation kernel_sched: blocking_sched "kernel_api sp ca" "check_runtime sp ca" "sched_ready sp ca" runnable_tasks known_tasks
proof
  show "\<exists>k1. api_lock (kernel_api sp ca) k = Inr k1" if "sched_ready sp ca k" for k
    using that lock_ready[of sp k _ ca] by (auto simp: sched_ready_def)
  show "api_current (kernel_api sp ca) k1 = api_current (kernel_api sp ca) k \<and> sched_ready sp ca (api_unlock (kernel_api sp ca) k1) \<and>
      runnable_tasks (api_unlock (kernel_api sp ca) k1) = runnable_tasks k \<and> known_tasks (api_unlock (kernel_api sp ca) k1) = known_tasks k"
    if "sched_ready sp ca k" "api_lock (kernel_api sp ca) k = Inr k1" for k k1
    by (rule readyE[OF that[simplified]]) (use dropped_ready[OF that(1)] in simp)
  show "sched_ready sp ca k2 \<and> runnable_tasks k2 = runnable_tasks k - {api_current (kernel_api sp ca) k} \<and> known_tasks k2 = known_tasks k"
    if "sched_ready sp ca k" "api_lock (kernel_api sp ca) k = Inr k1" "api_block (kernel_api sp ca) now k1 = Inr k2" for k k1 now k2
    using block_ready[of sp ca k k1 now k2] that by simp
  show "\<exists>k2. api_wake (kernel_api sp ca) u k1 = Inr k2 \<and> sched_ready sp ca (api_unlock (kernel_api sp ca) k2) \<and>
      runnable_tasks (api_unlock (kernel_api sp ca) k2) = insert u (runnable_tasks k) \<and>
      known_tasks (api_unlock (kernel_api sp ca) k2) = known_tasks k"
    if "sched_ready sp ca k" "api_lock (kernel_api sp ca) k = Inr k1" "u \<in> known_tasks k" "u \<noteq> api_current (kernel_api sp ca) k" for k k1 u
    using wake_ready[of sp ca k k1 u] that by simp
  show "u \<in> known_tasks k"
    if "sched_ready sp ca k" "api_lock (kernel_api sp ca) k = Inr k1" "api_wake (kernel_api sp ca) u k1 = Inr k2" for k k1 u k2
    by (rule readyE[OF that(1,2)[simplified]]) (use that(3) set_runnable_known[of u True k1 k2] in \<open>simp add: wake_def\<close>)
  show "sched_ready sp ca k' \<and> runnable_tasks k' = runnable_tasks k \<and> known_tasks k' = known_tasks k"
    if "sched_ready sp ca k" "check_runtime sp ca now now2 k = Inr k'" for k now now2 k'
    by (rule preempt_ready[OF that])
  show "api_current (kernel_api sp ca) k \<in> known_tasks k \<and>
      (api_current (kernel_api sp ca) k \<in> runnable_tasks k \<or> api_current (kernel_api sp ca) k = 0)" if "sched_ready sp ca k" for k
    using that current_known by (auto simp: sched_ready_def)
qed

section \<open>Reachable states\<close>

definition sem_start :: "semaphore \<Rightarrow> 'l kernel \<Rightarrow> 'l kernel sem_sys" where
  "sem_start s k = \<lparr>ss_sem = s, ss_kernel = k, ss_pc = (\<lambda>_. Outside)\<rparr>"

abbreviation sem_steps :: "'l spin_ops \<Rightarrow> code_addrs \<Rightarrow> 'l kernel sem_sys \<Rightarrow> 'l kernel sem_sys \<Rightarrow> bool" where
  "sem_steps sp ca \<equiv> (sem_step (kernel_api sp ca) (check_runtime sp ca))\<^sup>*\<^sup>*"

lemma start_inv:
  assumes "semaphore_new cnt maximum = Inr s" and "sched_ready sp ca k"
  shows "sys_inv (sched_ready sp ca) runnable_tasks known_tasks (sem_start s k)"
  using assms wait_side.side_init[of "\<lambda>_. Outside"] signal_side.side_init[of "\<lambda>_. Outside"]
  by (auto simp: sys_inv_def sem_start_def sem_inv_def semaphore_new_def res_simps)

lemmas reached_inv = kernel_sched.reachable_inv[OF _ start_inv]

text \<open>A sample: task 1 runs and task 0, the idle task, is ready.\<close>

definition sample_kernel1 :: "bool kernel" where
  "sample_kernel1 = sample_kernel
     \<lparr>cpu := cpu sample_kernel\<lparr>infos := (\<lambda>_. sample_info 1)(0x20000 := sample_info 0)\<rparr>,
      sched_tasks := \<lparr>next_task_id = 2, current = Some 1, tasks = [(0, 0x20000), (1, 0x10000)], schedulable = [sample_info 0]\<rparr>\<rparr>"

lemma sample1_current: "current_task_ptr (cpu sample_kernel1) = 0x10000" "current_task (cpu sample_kernel1) = 1"
  by (simp_all add: current_task_ptr_def current_task_def sample_kernel1_def sample_kernel_def TASK_STRUCT_MASK_def
    KERNEL_STACK_SIZE_def sample_info_def)

lemma sample1_view: "task_view sample_kernel1 = [0 \<mapsto> sample_info 0, 1 \<mapsto> sample_info 1]"
  by (auto simp: task_view_def sample_kernel1_def fun_eq_iff)

lemma sample1_runnable: "runnable_tasks sample_kernel1 = {0, 1}"
  unfolding runnable_tasks_def sample1_view by (auto simp: sample_info_def is_runnable_def split: if_splits)

lemma sample1_inv: "sched_inv sample_code sample_kernel1"
proof -
  have wf: "wf_tasks sample_kernel1"
    by (auto simp: wf_tasks_def sample_kernel1_def btm_ok_def TASK_STRUCT_MASK_def KERNEL_STACK_SIZE_def sample_info_def
        inj_on_def split: if_splits)
  have "{0, 1} - {1} = {0 :: usize}" by auto
  then have "queue_ok {1} sample_kernel1"
    unfolding queue_ok_def sample1_view sample1_runnable by (auto simp: sample_kernel1_def heap_upto_def sample_info_def)
  moreover have "runs (cpu sample_kernel1) 0x10000" "resumable sample_code (cpu sample_kernel1) 0x20000"
    by (simp_all add: runs_def resumable_def in_stack_def switch_frame_unfold sample_kernel1_def sample_kernel_def TASK_STRUCT_MASK_def
        KERNEL_STACK_SIZE_def TASK_INFO_SIZE_def sample_info_def sample_code_def)
  ultimately show ?thesis
    using wf sample1_view unfolding sched_inv_def sample1_current
    by (auto simp: above_tasks_def sample_kernel1_def sample_kernel_def split: if_splits)
qed

lemma sample1_ready: "sched_ready bool_spin sample_code sample_kernel1"
  using sample_code_ok sample1_inv sample1_runnable sample1_current(2) bool_spin_ok
  by (auto simp: sched_ready_def sample_kernel1_def sample_kernel_def)

definition sample_sem :: semaphore where
  "sample_sem = \<lparr>sem_count = 0, sem_max = 4, waiting = [], releasing = []\<rparr>"

text \<open>Task 1 waits on it and blocks.\<close>

lemma sample_blocks: "\<exists>k. wait_round (kernel_api bool_spin sample_code) 100 sample_sem sample_kernel1 =
    Inr (False, sample_sem\<lparr>waiting := [1]\<rparr>, k) \<and> 1 \<notin> runnable_tasks k"
proof -
  have m: "sched_mutex sample_kernel1 = False" by (simp add: sample_kernel1_def sample_kernel_def)
  obtain k1 where l: "sched_lock bool_spin sample_kernel1 = Inr k1" "same_sched sample_kernel1 k1"
    "schedulable (sched_tasks k1) = schedulable (sched_tasks sample_kernel1)" "kernel_heap k1 = kernel_heap sample_kernel1"
    "regs (cpu k1) = regs (cpu sample_kernel1)" "qmem (cpu k1) = qmem (cpu sample_kernel1)"
    "infos (cpu k1) = (infos (cpu sample_kernel1))(current_task_ptr (cpu sample_kernel1) :=
      infos (cpu sample_kernel1) (current_task_ptr (cpu sample_kernel1))\<lparr>interrupt_enabled := interrupts_enabled (rflags (cpu sample_kernel1))\<rparr>)"
    by (rule sched_lock_spec[OF bool_spin_ok m])
  have i: "sched_inv sample_code k1" "current_task (cpu k1) = 1" "current_task_ptr (cpu k1) = 0x10000"
    using sched_inv_same[OF sample1_inv l(2-6)] l(7) sample1_current by simp_all
  have t: "map_of (tasks (sched_tasks k1)) 1 = Some 0x10000" using l(2) by (simp add: same_sched_def sample_kernel1_def)
  then obtain k2 where k2: "set_runnable 1 False k1 = Inr k2"
    "cpu k2 = set_info 0x10000 (\<lambda>i. i\<lparr>flags := set_is_runnable False (flags i)\<rparr>) (cpu k1)"
    "tasks (sched_tasks k2) = tasks (sched_tasks k1)" by (simp add: set_runnable_def Let_def)
  have i2: "sched_inv sample_code k2" "current_task_ptr (cpu k2) = 0x10000"
    using set_runnable_inv[OF i(1) k2(1), of thesis for thesis] i(3) by (blast, metis)
  have "time_ok 100 k2"
    using i2(2) k2(2,3) l(2,7) sample1_current(1)
    by (simp add: time_ok_def Let_def set_info_def same_sched_def sample_kernel1_def sample_info_def SCHED_LATENCY_def)
  then obtain k where "switch bool_spin sample_code 100 k2 = Inr k" using switch_total[OF sample_code_ok i2(1)] by blast
  then have b: "sched_block bool_spin sample_code 100 k1 = Inr k" using k2(1) i(2) by (simp add: sched_block_def)
  then show ?thesis
    using block_ready[OF sample1_ready l(1) b] l(1) i(2) sample1_current(2) by (simp add: wait_round_def try_take_def sample_sem_def)
qed

lemma sample_steps:
  obtains k where "sem_steps bool_spin sample_code (sem_start sample_sem sample_kernel1)
      \<lparr>ss_sem = sample_sem\<lparr>waiting := [1]\<rparr>, ss_kernel = k, ss_pc = (\<lambda>_. Outside)(1 := InWait)\<rparr>" "1 \<notin> runnable_tasks k"
proof -
  let ?step = "sem_step (kernel_api bool_spin sample_code) (check_runtime bool_spin sample_code)"
  obtain k where k: "wait_round (kernel_api bool_spin sample_code) 100 sample_sem sample_kernel1 =
    Inr (False, sample_sem\<lparr>waiting := [1]\<rparr>, k)" "1 \<notin> runnable_tasks k" using sample_blocks by blast
  let ?x = "\<lparr>ss_sem = sample_sem, ss_kernel = sample_kernel1, ss_pc = (\<lambda>_. Outside)(1 := InWait)\<rparr>"
  have "?step (sem_start sample_sem sample_kernel1) ?x"
    using sem_step.enter[of "\<lambda>_. Outside" "kernel_api bool_spin sample_code" sample_kernel1 InWait] sample1_current(2)
    by (simp add: sem_start_def)
  moreover have "?step ?x \<lparr>ss_sem = sample_sem\<lparr>waiting := [1]\<rparr>, ss_kernel = k, ss_pc = (\<lambda>_. Outside)(1 := InWait)\<rparr>"
    using sem_step.wait_blocks[OF _ k(1), of "(\<lambda>_. Outside)(1 := InWait)"] sample1_current(2) by simp
  ultimately show ?thesis using that[of k] k(2) by (meson converse_rtranclp_into_rtranclp r_into_rtranclp)
qed

section \<open>Properties\<close>

text \<open>C5: No wake-up is lost. From a new semaphore, however the steps of the tasks, of interrupts and of
  preemption interleave: whenever every task inside an operation is blocked, a task is blocked in
  \<open>wait\<close> only if the count is zero, and in \<open>signal\<close> only if it is the maximum, and the queues hold exactly
  the blocked tasks.\<close>

theorem semaphore_no_lost_wakeup:
  assumes "semaphore_new cnt maximum = Inr s" and "sched_ready sp ca k" and "sem_steps sp ca (sem_start s k) x"
    and "quiescent runnable_tasks x"
  shows "((\<exists>t. ss_pc x t = InWait) \<longrightarrow> sem_count (ss_sem x) = 0) \<and>
    ((\<exists>t. ss_pc x t = InSignal) \<longrightarrow> sem_count (ss_sem x) = sem_max (ss_sem x)) \<and>
    {t. ss_pc x t = InWait} = set (waiting (ss_sem x)) \<and> {t. ss_pc x t = InSignal} = set (releasing (ss_sem x))"
proof -
  have i: "sys_inv (sched_ready sp ca) runnable_tasks known_tasks x" by (rule reached_inv[OF assms(3,1,2)])
  show ?thesis using kernel_sched.no_lost_wakeup[OF i assms(4)] kernel_sched.blocked_queued[OF i assms(4)] by fastforce
qed

theorem semaphore_no_lost_wakeup_witness:
  "\<exists>x. sem_steps bool_spin sample_code (sem_start sample_sem sample_kernel1) x \<and> ss_pc x 1 = InWait \<and>
    sem_count (ss_sem x) = 0 \<and> waiting (ss_sem x) = [1]"
proof -
  obtain k where k: "sem_steps bool_spin sample_code (sem_start sample_sem sample_kernel1)
      \<lparr>ss_sem = sample_sem\<lparr>waiting := [1]\<rparr>, ss_kernel = k, ss_pc = (\<lambda>_. Outside)(1 := InWait)\<rparr>" "1 \<notin> runnable_tasks k"
    by (rule sample_steps)
  have n: "semaphore_new 0 4 = Inr sample_sem" by (simp add: semaphore_new_def rassert_def sample_sem_def)
  have q: "quiescent runnable_tasks \<lparr>ss_sem = sample_sem\<lparr>waiting := [1]\<rparr>, ss_kernel = k, ss_pc = (\<lambda>_. Outside)(1 := InWait)\<rparr>"
    using k(2) by (simp add: quiescent_def)
  show ?thesis using semaphore_no_lost_wakeup[OF n sample1_ready k(1) q] k(1) by auto
qed



end
