(* ===== verification/Port_IO.thy ===== *)
theory Port_IO
  imports Prelude
begin

text \<open>
  Port input and output (\<open>src/arch/x86_64/port.rs\<close>). The devices behind the ports are a parameter: a
  state of the outside world and what each access does to it and returns.
\<close>

record 'w ports =
  port_out8 :: "u16 \<Rightarrow> u8 \<Rightarrow> 'w \<Rightarrow> 'w"
  port_in8 :: "u16 \<Rightarrow> 'w \<Rightarrow> u8 \<times> 'w"
  port_out16 :: "u16 \<Rightarrow> u16 \<Rightarrow> 'w \<Rightarrow> 'w"
  port_in16 :: "u16 \<Rightarrow> 'w \<Rightarrow> u16 \<times> 'w"
  port_out32 :: "u16 \<Rightarrow> u32 \<Rightarrow> 'w \<Rightarrow> 'w"
  port_in32 :: "u16 \<Rightarrow> 'w \<Rightarrow> u32 \<times> 'w"

text \<open>The registers are wider than the access: \<open>in\<close> writes the low part of a register that is cut to the
  width again, and \<open>out\<close> takes the low part.\<close>

definition outb :: "'w ports \<Rightarrow> u16 \<Rightarrow> u8 \<Rightarrow> 'w \<Rightarrow> 'w" where
  "outb ps port data w = port_out8 ps port (ucast (ucast data :: u16)) w"

definition inb :: "'w ports \<Rightarrow> u16 \<Rightarrow> 'w \<Rightarrow> u8 \<times> 'w" where
  "inb ps port w = (let (v, w) = port_in8 ps port w in (ucast (ucast v :: u16), w))"

definition outw :: "'w ports \<Rightarrow> u16 \<Rightarrow> u16 \<Rightarrow> 'w \<Rightarrow> 'w" where
  "outw ps port data w = port_out16 ps port data w"

definition inw :: "'w ports \<Rightarrow> u16 \<Rightarrow> 'w \<Rightarrow> u16 \<times> 'w" where
  "inw ps port w = port_in16 ps port w"

definition outl :: "'w ports \<Rightarrow> u16 \<Rightarrow> u32 \<Rightarrow> 'w \<Rightarrow> 'w" where
  "outl ps port data w = port_out32 ps port data w"

definition inl :: "'w ports \<Rightarrow> u16 \<Rightarrow> 'w \<Rightarrow> u32 \<times> 'w" where
  "inl ps port w = port_in32 ps port w"

lemma outb_eq [simp]: "outb ps port data w = port_out8 ps port data w"
proof -
  have "ucast (ucast data :: u16) = data" by (rule bit_word_eqI) (auto simp: bit_simps)
  then show ?thesis by (simp add: outb_def)
qed

lemma inb_eq [simp]: "inb ps port w = port_in8 ps port w"
proof -
  have "ucast (ucast v :: u16) = v" for v :: u8 by (rule bit_word_eqI) (auto simp: bit_simps)
  then show ?thesis by (simp add: inb_def case_prod_beta)
qed

end
