(* ===== verification/Apic.thy ===== *)
theory Apic
  imports Port_IO Spinlock
begin

text \<open>
  Interrupt descriptors and interrupt controllers (\<open>src/arch/x86_64/interrupt.rs\<close>), and the segment
  descriptors (\<open>src/arch/x86_64/pm.rs\<close>). The registers of the controllers are memory; the devices behind
  them are a parameter like those behind the ports. Addresses of assembly routines are parameters.
\<close>

section \<open>Model\<close>

record 'w mmio =
  mmio_write32 :: "usize \<Rightarrow> u32 \<Rightarrow> 'w \<Rightarrow> 'w"
  mmio_read32 :: "usize \<Rightarrow> 'w \<Rightarrow> u32 \<times> 'w"

subsection \<open>Descriptors\<close>

definition idt_descriptor :: "usize \<Rightarrow> u128" where
  "idt_descriptor handler =
     (let descriptor = 0;
          descriptor = descriptor OR ucast (handler AND 0xffff);
          descriptor = descriptor OR push_bit 32 (ucast (handler AND 0xffffffffffff0000));
          descriptor = descriptor OR push_bit 16 0x8;
          descriptor = descriptor OR push_bit 40 0xe;
          descriptor = descriptor OR push_bit 44 8
      in descriptor)"

record isr_addrs =
  page_fault_isr_addr :: usize
  general_protection_fault_isr_addr :: usize
  com0_isr_addr :: usize
  hpet_isr_addr :: usize
  syscall_isr_addr :: usize
  device_isr_entries_addr :: usize

text \<open>Each entry of \<open>device_isr_entries\<close> is seven bytes long.\<close>

definition fill_idt :: "isr_addrs \<Rightarrow> u128 list \<Rightarrow> u128 list" where
  "fill_idt ia idt = idt
     [0xe := idt_descriptor (page_fault_isr_addr ia),
      0xd := idt_descriptor (general_protection_fault_isr_addr ia),
      0x24 := idt_descriptor (com0_isr_addr ia),
      0x20 := idt_descriptor (hpet_isr_addr ia),
      0x80 := idt_descriptor (syscall_isr_addr ia),
      0x26 := idt_descriptor (device_isr_entries_addr ia + 0x26 * 7)]"

record segment_descriptor =
  seg_base :: usize
  seg_limit :: u16
  seg_ty :: u16

definition segment_encode :: "segment_descriptor \<Rightarrow> u64" where
  "segment_encode s =
     (let encoded = 0;
          base = seg_base s;
          ty64 = ucast (seg_ty s);
          encoded = encoded OR push_bit 16 (base AND 0xffffff);
          encoded = encoded OR push_bit 32 (base AND 0xff000000);
          encoded = encoded OR push_bit 40 ty64
      in encoded)"

definition gdt_init :: "u64 list \<Rightarrow> u64 list" where
  "gdt_init gdt = gdt
     [0 := 0,
      1 := segment_encode \<lparr>seg_base = 0, seg_limit = 0, seg_ty = 0xaf9a\<rparr>,
      2 := segment_encode \<lparr>seg_base = 0, seg_limit = 0, seg_ty = 0xcf92\<rparr>]"

subsection \<open>Device handlers\<close>

text \<open>The table \<open>IRQ_HANDLERS\<close> of 128 addresses, and the call of the handler at an address.\<close>

definition register_handler :: "u8 \<Rightarrow> usize \<Rightarrow> usize list \<Rightarrow> usize list res" where
  "register_handler vector handler table =
     (if unat vector < length table then Inr (table[unat vector := handler]) else Inl OutOfBounds)"

definition device_handler :: "(usize \<Rightarrow> u64 \<Rightarrow> 's \<Rightarrow> 's res) \<Rightarrow> usize list \<Rightarrow> u64 \<Rightarrow> 's \<Rightarrow> 's res" where
  "device_handler call table vector s =
     rbind (index table (unat vector)) (\<lambda>handler. call handler vector s)"

subsection \<open>Interrupt controllers\<close>

definition mask_pic :: "'w ports \<Rightarrow> 'w \<Rightarrow> 'w" where
  "mask_pic ps w = port_out8 ps 0x21 0xff (port_out8 ps 0xa1 0xff w)"

record ioapic =
  ioapic_base_addr :: usize

definition ioapic_write :: "'w mmio \<Rightarrow> ioapic \<Rightarrow> u32 \<Rightarrow> u32 \<Rightarrow> 'w \<Rightarrow> 'w res" where
  "ioapic_write mm a reg value w =
     rbind (checked_add (ioapic_base_addr a) 0x10) (\<lambda>iowin.
     Inr (mmio_write32 mm iowin value (mmio_write32 mm (ioapic_base_addr a) reg w)))"

definition ioapic_read :: "'w mmio \<Rightarrow> ioapic \<Rightarrow> u32 \<Rightarrow> 'w \<Rightarrow> (u32 \<times> 'w) res" where
  "ioapic_read mm a reg w =
     rbind (checked_add (ioapic_base_addr a) 0x10) (\<lambda>iowin.
     Inr (mmio_read32 mm iowin (mmio_write32 mm (ioapic_base_addr a) reg w)))"

definition remap :: "'w mmio \<Rightarrow> ioapic \<Rightarrow> u32 \<Rightarrow> u32 \<Rightarrow> u32 \<Rightarrow> 'w \<Rightarrow> 'w res" where
  "remap mm a lapic_id int_signal vector w =
     rbind (checked_mul int_signal 2) (\<lambda>n.
     rbind (checked_add 0x10 n) (\<lambda>low.
     rbind (checked_add low 1) (\<lambda>high.
     rbind (ioapic_write mm a low vector w) (\<lambda>w.
     ioapic_write mm a high (push_bit 24 lapic_id AND 0x0f000000) w))))"

text \<open>With the interrupt flag, which the last instruction sets.\<close>

definition remap_all :: "'w mmio \<Rightarrow> ioapic \<Rightarrow> u32 \<Rightarrow> u64 \<times> 'w \<Rightarrow> (u64 \<times> 'w) res" where
  "remap_all mm a lapic_id s =
     (let (rflags, w) = s in
      rbind (remap mm a 0 1 0x21 w) (\<lambda>w.
      rbind (remap mm a lapic_id 4 0x24 w) (\<lambda>w.
      rbind (remap mm a lapic_id 2 0x10020 w) (\<lambda>w.
      rbind (ioapic_write mm a 0x28 0x100FF w) (\<lambda>w.
      rbind (ioapic_write mm a 0x29 (push_bit 24 lapic_id AND 0x0f000000) w) (\<lambda>w.
      rbind (remap mm a lapic_id 12 0x100ff w) (\<lambda>w.
      rbind (ioapic_write mm a 0xf0 (push_bit 8 1 + 0xff) w) (\<lambda>w.
      Inr (enable_interrupts rflags, w)))))))))"

definition ioapic_mask_line :: "'w mmio \<Rightarrow> ioapic \<Rightarrow> bool \<Rightarrow> u32 \<Rightarrow> 'w \<Rightarrow> 'w res" where
  "ioapic_mask_line mm a masked line w =
     rbind (checked_mul line 2) (\<lambda>n.
     rbind (checked_add n 0x10) (\<lambda>idx.
     rbind (ioapic_read mm a idx w) (\<lambda>(redtlb_low, w).
     let redtlb_low = (if masked then redtlb_low OR 0x10000 else redtlb_low AND 0xfffeffff) in
     ioapic_write mm a idx redtlb_low w)))"

record local_apic =
  lapic_base_addr :: usize

definition lapic_read :: "'w mmio \<Rightarrow> local_apic \<Rightarrow> usize \<Rightarrow> 'w \<Rightarrow> (u32 \<times> 'w) res" where
  "lapic_read mm a reg w = rbind (checked_add (lapic_base_addr a) reg) (\<lambda>p. Inr (mmio_read32 mm p w))"

definition lapic_write :: "'w mmio \<Rightarrow> local_apic \<Rightarrow> usize \<Rightarrow> u32 \<Rightarrow> 'w \<Rightarrow> 'w res" where
  "lapic_write mm a reg value w = rbind (checked_add (lapic_base_addr a) reg) (\<lambda>p. Inr (mmio_write32 mm p value w))"

definition lapic_get_id :: "'w mmio \<Rightarrow> local_apic \<Rightarrow> 'w \<Rightarrow> (u32 \<times> 'w) res" where
  "lapic_get_id mm a w = lapic_read mm a 0x20 w"

definition end_of_interrupt :: "'w mmio \<Rightarrow> local_apic \<Rightarrow> 'w \<Rightarrow> 'w res" where
  "end_of_interrupt mm a w = lapic_write mm a 0xb0 0 w"

text \<open>\<open>init\<close> with the two addresses of the MADT; the descriptor table register is not part of the state.\<close>

definition interrupt_init ::
  "'w ports \<Rightarrow> 'w mmio \<Rightarrow> isr_addrs \<Rightarrow> usize \<Rightarrow> usize \<Rightarrow> u128 list \<Rightarrow> u64 \<times> 'w \<Rightarrow>
   (u32 \<times> u128 list \<times> ioapic \<times> local_apic \<times> u64 \<times> 'w) res" where
  "interrupt_init ps mm ia lapic_addr ioapic_addr idt s =
     (let (rflags, w) = s;
          idt = fill_idt ia idt;
          w = mask_pic ps w;
          lapic = \<lparr>lapic_base_addr = lapic_addr\<rparr>;
          a = \<lparr>ioapic_base_addr = ioapic_addr\<rparr>
      in rbind (lapic_get_id mm lapic w) (\<lambda>(n, w).
         rbind (remap_all mm a n (rflags, w)) (\<lambda>(rflags, w).
         Inr (n, idt, a, lapic, rflags, w))))"

section \<open>Lemmas\<close>

text \<open>The fields of a gate: where the processor finds the offset, the selector, the type and the present flag.\<close>

definition gate_offset :: "u128 \<Rightarrow> u64" where
  "gate_offset d = ucast (d AND 0xffff) OR push_bit 16 (ucast (drop_bit 48 d))"

definition gate_selector :: "u128 \<Rightarrow> u16" where
  "gate_selector d = ucast (drop_bit 16 d)"

definition gate_attributes :: "u128 \<Rightarrow> u16" where
  "gate_attributes d = ucast (drop_bit 32 d)"

lemma masks: "(0xffff :: 'a :: len word) = mask 16" "(0xffffff :: 'a word) = mask 24"
  "(0xff000000 :: u64) = push_bit 24 (mask 8)" "(0xffffffffffff0000 :: u64) = push_bit 16 (mask 48)"
  by (simp_all add: mask_eq_exp_minus_1 push_bit_eq_mult)

lemma idt_descriptor_parts:
  "idt_descriptor h = ucast (h AND 0xffff) OR push_bit 32 (ucast (h AND 0xffffffffffff0000)) OR 0x8E0000080000"
  by (simp add: idt_descriptor_def Let_def or.assoc)

lemma descriptor_low:
  fixes h :: u64
  shows "drop_bit 16 (ucast (h AND 0xffff) :: u128) = 0" "drop_bit 32 (ucast (h AND 0xffff) :: u128) = 0"
    "drop_bit 48 (ucast (h AND 0xffff) :: u128) = 0" "(ucast (h AND 0xffff) :: u128) AND 0xffff = ucast (h AND 0xffff)"
  unfolding masks by (rule bit_word_eqI; auto simp: bit_simps)+

lemma descriptor_high:
  fixes h :: u64
  shows "(ucast (drop_bit 16 (push_bit 32 (ucast (h AND 0xffffffffffff0000)) :: u128)) :: u16) = 0"
    "(ucast (drop_bit 32 (push_bit 32 (ucast (h AND 0xffffffffffff0000)) :: u128)) :: u16) = 0"
    "(push_bit 32 (ucast (h AND 0xffffffffffff0000)) :: u128) AND 0xffff = 0"
    "(drop_bit 48 (push_bit 32 (ucast (h AND 0xffffffffffff0000)) :: u128)) = ucast (drop_bit 16 h)"
  unfolding masks by (rule bit_word_eqI; auto simp: bit_simps dest: bit_imp_le_length)+

lemma offset_parts: "ucast (ucast (h AND 0xffff) :: u128) OR push_bit 16 (ucast (ucast (drop_bit 16 h) :: u128)) = h"
  for h :: u64
  unfolding masks by (rule bit_word_eqI) (auto simp: bit_simps)

lemma gate_fields:
  "gate_offset (idt_descriptor h) = h" "gate_selector (idt_descriptor h) = 8" "gate_attributes (idt_descriptor h) = 0x8e00"
proof -
  show "gate_offset (idt_descriptor h) = h"
    using offset_parts[of h] descriptor_low[of h] descriptor_high[of h]
    by (simp add: gate_offset_def idt_descriptor_parts drop_bit_or bit.conj_disj_distrib2)
  show "gate_selector (idt_descriptor h) = 8"
    using descriptor_low[of h] descriptor_high[of h]
    by (simp only: gate_selector_def idt_descriptor_parts drop_bit_or unsigned_or_eq) simp
  show "gate_attributes (idt_descriptor h) = 0x8e00"
    using descriptor_low[of h] descriptor_high[of h]
    by (simp only: gate_attributes_def idt_descriptor_parts drop_bit_or unsigned_or_eq) simp
qed

lemma fill_idt_entries:
  assumes "length idt = 256"
  shows "fill_idt ia idt ! 0xe = idt_descriptor (page_fault_isr_addr ia)"
    "fill_idt ia idt ! 0xd = idt_descriptor (general_protection_fault_isr_addr ia)"
    "fill_idt ia idt ! 0x24 = idt_descriptor (com0_isr_addr ia)"
    "fill_idt ia idt ! 0x20 = idt_descriptor (hpet_isr_addr ia)"
    "fill_idt ia idt ! 0x80 = idt_descriptor (syscall_isr_addr ia)"
    "fill_idt ia idt ! 0x26 = idt_descriptor (device_isr_entries_addr ia + 0x26 * 7)"
    "n \<notin> {0xd, 0xe, 0x20, 0x24, 0x26, 0x80} \<Longrightarrow> fill_idt ia idt ! n = idt ! n"
  using assms by (simp_all add: fill_idt_def)

text \<open>
  The I/O APIC as documented: selecting a register and accessing the window reads or writes it; bits 12 and
  14 of the redirection registers are read-only. \<open>regs\<close> are the contents of the registers.
\<close>

definition ioapic_hw :: "'w mmio \<Rightarrow> ioapic \<Rightarrow> ('w \<Rightarrow> bool) \<Rightarrow> ('w \<Rightarrow> u32 \<Rightarrow> u32) \<Rightarrow> bool" where
  "ioapic_hw mm a ok regs \<longleftrightarrow> unat (ioapic_base_addr a) + 0x10 < 2 ^ 64 \<and>
     (\<forall>w r. ok w \<longrightarrow> 0x10 \<le> r \<longrightarrow> r < 0x40 \<longrightarrow>
        (let (v, w') = mmio_read32 mm (ioapic_base_addr a + 0x10) (mmio_write32 mm (ioapic_base_addr a) r w)
         in v = regs w r \<and> ok w' \<and> regs w' = regs w) \<and>
        (\<forall>v. let w' = mmio_write32 mm (ioapic_base_addr a + 0x10) v (mmio_write32 mm (ioapic_base_addr a) r w)
         in ok w' \<and> regs w' = (regs w)(r := (v AND NOT 0x5000) OR (regs w r AND 0x5000))))"

lemma ioapic_write_hw:
  assumes "ioapic_hw mm a ok regs" and "ok w" and "0x10 \<le> r" and "r < 0x40"
  obtains w' where "ioapic_write mm a r v w = Inr w'" "ok w'" "regs w' = (regs w)(r := (v AND NOT 0x5000) OR (regs w r AND 0x5000))"
proof -
  have "checked_add (ioapic_base_addr a) 0x10 = Inr (ioapic_base_addr a + 0x10)"
    using assms(1) by (intro checked_add_usize) (simp add: ioapic_hw_def)
  then show ?thesis using that assms by (simp add: ioapic_write_def ioapic_hw_def Let_def)
qed

lemma ioapic_read_hw:
  assumes "ioapic_hw mm a ok regs" and "ok w" and "0x10 \<le> r" and "r < 0x40"
  obtains w' where "ioapic_read mm a r w = Inr (regs w r, w')" "ok w'" "regs w' = regs w"
proof -
  have "checked_add (ioapic_base_addr a) 0x10 = Inr (ioapic_base_addr a + 0x10)"
    using assms(1) by (intro checked_add_usize) (simp add: ioapic_hw_def)
  moreover obtain v w' where r: "mmio_read32 mm (ioapic_base_addr a + 0x10) (mmio_write32 mm (ioapic_base_addr a) r w) = (v, w')"
    by fastforce
  moreover have "v = regs w r \<and> ok w' \<and> regs w' = regs w"
    using assms r unfolding ioapic_hw_def Let_def by fastforce
  ultimately show ?thesis using that by (simp add: ioapic_read_def)
qed

lemma line_register:
  fixes line :: u32
  assumes "line < 24"
  shows "checked_mul line 2 = Inr (line * 2)" "checked_add (line * 2) 0x10 = Inr (line * 2 + 0x10)"
    "checked_add 0x10 (line * 2) = Inr (line * 2 + 0x10)" "checked_add (line * 2 + 0x10) 1 = Inr (line * 2 + 0x11)"
    "0x10 \<le> line * 2 + 0x10" "line * 2 + 0x11 < 0x40" "line * 2 + 0x10 < 0x40" "0x10 \<le> line * 2 + 0x11"
proof -
  have n: "unat line < 24" using assms by (simp add: word_less_nat_alt)
  have u: "unat (line * 2) = unat line * 2" "unat (line * 2 + 0x10) = unat line * 2 + 0x10" "unat (line * 2 + 0x11) = unat line * 2 + 0x11"
    using n by (simp_all add: unat_word_ariths)
  show "checked_mul line 2 = Inr (line * 2)" unfolding checked_mul_eq_Inr using n by simp
  show s: "checked_add (line * 2) 0x10 = Inr (line * 2 + 0x10)" unfolding checked_add_eq_Inr u(1) using n by simp
  then show "checked_add 0x10 (line * 2) = Inr (line * 2 + 0x10)" unfolding checked_add_eq_Inr by (metis add.commute)
  show "checked_add (line * 2 + 0x10) 1 = Inr (line * 2 + 0x11)" unfolding checked_add_eq_Inr u(2) using n by simp
  show "0x10 \<le> line * 2 + 0x10" "line * 2 + 0x11 < 0x40" "line * 2 + 0x10 < 0x40" "0x10 \<le> line * 2 + 0x11"
    unfolding word_less_nat_alt word_le_nat_alt u using n by simp_all
qed

lemma read_only_kept:
  fixes v :: u32
  shows "((v OR 0x10000) AND NOT 0x5000) OR (v AND 0x5000) = v OR 0x10000"
    and "((v AND 0xfffeffff) AND NOT 0x5000) OR (v AND 0x5000) = v AND NOT 0x10000"
proof -
  have d: "(0x10000 :: u32) AND 0x5000 = 0" "(0xfffeffff :: u32) AND 0x5000 = 0x5000" "(0xfffeffff :: u32) = NOT 0x10000" by simp_all
  have k: "(x AND NOT r) OR (v AND r) = x" if "x AND r = v AND r" for x r :: u32
  proof -
    have "(x AND NOT r) OR (v AND r) = (x AND NOT r) OR (x AND r)" using that by simp
    also have "\<dots> = x" by (simp add: bit.conj_disj_distrib[symmetric] or.commute)
    finally show ?thesis .
  qed
  have "(v OR 0x10000) AND 0x5000 = v AND 0x5000" using d(1) by (simp add: bit.conj_disj_distrib2)
  then show "((v OR 0x10000) AND NOT 0x5000) OR (v AND 0x5000) = v OR 0x10000" by (rule k)
  have "(v AND 0xfffeffff) AND 0x5000 = v AND 0x5000" by (simp add: and.assoc d(2))
  from k[OF this] show "((v AND 0xfffeffff) AND NOT 0x5000) OR (v AND 0x5000) = v AND NOT 0x10000" unfolding d(3) .
qed

lemma mask_line_hw:
  assumes hw: "ioapic_hw mm a ok regs" and "ok w" and line: "line < 24"
  shows "\<exists>w'. ioapic_mask_line mm a masked line w = Inr w' \<and> ok w' \<and>
    regs w' = (regs w)(line * 2 + 0x10 := (if masked then regs w (line * 2 + 0x10) OR 0x10000 else regs w (line * 2 + 0x10) AND NOT 0x10000))"
proof -
  note r = line_register[OF line]
  obtain w1 where w1: "ioapic_read mm a (line * 2 + 0x10) w = Inr (regs w (line * 2 + 0x10), w1)" "ok w1" "regs w1 = regs w"
    by (rule ioapic_read_hw[OF hw assms(2) r(5,7)])
  define v where "v = (if masked then regs w (line * 2 + 0x10) OR 0x10000 else regs w (line * 2 + 0x10) AND 0xfffeffff)"
  obtain w2 where w2: "ioapic_write mm a (line * 2 + 0x10) v w1 = Inr w2" "ok w2"
    "regs w2 = (regs w1)(line * 2 + 0x10 := (v AND NOT 0x5000) OR (regs w1 (line * 2 + 0x10) AND 0x5000))"
    by (rule ioapic_write_hw[OF hw w1(2) r(5,7)])
  have "ioapic_mask_line mm a masked line w = Inr w2"
    using r(1,2) w1(1) w2(1) by (simp add: ioapic_mask_line_def v_def Let_def)
  then show ?thesis using w2(2,3) w1(3) read_only_kept[of "regs w (line * 2 + 0x10)"] by (auto simp: v_def)
qed

text \<open>The identifier of a local APIC is in the high byte of its register, and the shift moves it out.\<close>

lemma lapic_id_shifted_out: "v AND 0x00ffffff = 0 \<Longrightarrow> push_bit 24 v AND 0x0f000000 = 0"
  for v :: u32
proof -
  assume "v AND 0x00ffffff = 0"
  then have low: "\<not> bit v n" if "n < 24" for n
  proof -
    have "bit (v AND mask 24) n \<longleftrightarrow> bit v n" using that by (simp add: bit_simps)
    then show ?thesis using \<open>v AND 0x00ffffff = 0\<close> unfolding masks by simp
  qed
  show ?thesis by (rule bit_word_eqI) (auto simp: bit_simps low)
qed

lemma remap_hw:
  assumes hw: "ioapic_hw mm a ok regs" and "ok w" and line: "line < 24"
  shows "\<exists>w'. remap mm a n line vector w = Inr w' \<and> ok w' \<and>
    regs w' = (regs w)(line * 2 + 0x10 := (vector AND NOT 0x5000) OR (regs w (line * 2 + 0x10) AND 0x5000),
      line * 2 + 0x11 := ((push_bit 24 n AND 0x0f000000) AND NOT 0x5000) OR (regs w (line * 2 + 0x11) AND 0x5000))"
proof -
  note r = line_register[OF line]
  obtain w1 where w1: "ioapic_write mm a (line * 2 + 0x10) vector w = Inr w1" "ok w1"
    "regs w1 = (regs w)(line * 2 + 0x10 := (vector AND NOT 0x5000) OR (regs w (line * 2 + 0x10) AND 0x5000))"
    by (rule ioapic_write_hw[OF hw assms(2) r(5,7)])
  obtain w2 where w2: "ioapic_write mm a (line * 2 + 0x11) (push_bit 24 n AND 0x0f000000) w1 = Inr w2" "ok w2"
    "regs w2 = (regs w1)(line * 2 + 0x11 := ((push_bit 24 n AND 0x0f000000) AND NOT 0x5000) OR (regs w1 (line * 2 + 0x11) AND 0x5000))"
    by (rule ioapic_write_hw[OF hw w1(2) r(8,6)])
  have "line * 2 + 0x11 \<noteq> line * 2 + 0x10" by simp
  then have "regs w1 (line * 2 + 0x11) = regs w (line * 2 + 0x11)" unfolding w1(3) by (simp only: fun_upd_other if_False simp_thms)
  moreover have "remap mm a n line vector w = Inr w2" unfolding remap_def r(1,3,4) using w1(1) w2(1) r(3,4) by simp
  ultimately show ?thesis using w2(2,3) w1(3) by auto
qed

section \<open>Properties\<close>

text \<open>C39: The interrupt descriptor table: of each vector that \<open>init\<close> sets up, the processor reads from the table
  the address of the entry code, the kernel code segment, and a present interrupt gate of privilege
  level 0; the other vectors keep their entries.\<close>

theorem idt_gates:
  assumes "length idt = 256"
  shows "(\<forall>(n, h) \<in> {(0xe, page_fault_isr_addr ia), (0xd, general_protection_fault_isr_addr ia), (0x24, com0_isr_addr ia),
      (0x20, hpet_isr_addr ia), (0x80, syscall_isr_addr ia), (0x26, device_isr_entries_addr ia + 0x26 * 7)}.
      gate_offset (fill_idt ia idt ! n) = h \<and> gate_selector (fill_idt ia idt ! n) = 8 \<and> gate_attributes (fill_idt ia idt ! n) = 0x8e00) \<and>
    (\<forall>n. n \<notin> {0xd, 0xe, 0x20, 0x24, 0x26, 0x80} \<longrightarrow> fill_idt ia idt ! n = idt ! n) \<and> length (fill_idt ia idt) = 256"
proof -
  have "length (fill_idt ia idt) = 256" using assms by (simp add: fill_idt_def)
  then show ?thesis using fill_idt_entries(7)[OF assms] by (simp add: gate_fields fill_idt_entries(1-6)[OF assms])
qed

theorem idt_gates_witness:
  "gate_offset (fill_idt \<lparr>page_fault_isr_addr = 0xffffff8000123456, general_protection_fault_isr_addr = 2, com0_isr_addr = 3,
     hpet_isr_addr = 4, syscall_isr_addr = 5, device_isr_entries_addr = 6\<rparr> (replicate 256 0) ! 0xe) = 0xffffff8000123456"
  using idt_gates[of "replicate 256 0" "\<lparr>page_fault_isr_addr = 0xffffff8000123456, general_protection_fault_isr_addr = 2,
    com0_isr_addr = 3, hpet_isr_addr = 4, syscall_isr_addr = 5, device_isr_entries_addr = 6\<rparr>"] by simp

text \<open>Property: Masking a line of the I/O APIC: on a controller that behaves as documented, \<open>mask_line\<close> returns, sets
  or clears the mask bit of that line, and changes no other bit of its redirection register and no other
  register.\<close>

theorem mask_line_toggles:
  assumes "ioapic_hw mm a ok regs" and "ok w" and "line < 24"
  shows "\<exists>w'. ioapic_mask_line mm a masked line w = Inr w' \<and> ok w' \<and>
    regs w' = (regs w)(line * 2 + 0x10 := (if masked then regs w (line * 2 + 0x10) OR 0x10000 else regs w (line * 2 + 0x10) AND NOT 0x10000))"
  by (rule mask_line_hw[OF assms])

definition sample_ioapic :: "(u32 \<times> (u32 \<Rightarrow> u32)) mmio" where
  "sample_ioapic = \<lparr>mmio_write32 = (\<lambda>p v (sel, regs). if p = 0xfec00000 then (v, regs)
       else if p = 0xfec00010 then (sel, regs(sel := (v AND NOT 0x5000) OR (regs sel AND 0x5000))) else (sel, regs)),
     mmio_read32 = (\<lambda>p (sel, regs). (if p = 0xfec00010 then regs sel else 0, (sel, regs)))\<rparr>"

lemma sample_ioapic_hw: "ioapic_hw sample_ioapic \<lparr>ioapic_base_addr = 0xfec00000\<rparr> (\<lambda>_. True) snd"
  by (auto simp: ioapic_hw_def sample_ioapic_def Let_def)

theorem mask_line_toggles_witness:
  "\<exists>w'. ioapic_mask_line sample_ioapic \<lparr>ioapic_base_addr = 0xfec00000\<rparr> False 2 (0, (\<lambda>_. 0)(0x14 := 0x10020)) = Inr w' \<and>
    snd w' 0x14 = 0x20"
  using mask_line_toggles[OF sample_ioapic_hw, where w = "(0, (\<lambda>_. 0)(0x14 := 0x10020))" and line = 2 and masked = False] by auto

text \<open>Property: The destination of a redirected interrupt: the identifier that \<open>init\<close> reads from the local APIC stands
  in the high byte of the register, and \<open>remap\<close> shifts it left by 24 bits, so that the destination field it
  writes is zero whatever processor runs the code.\<close>

theorem remap_destination_zero:
  assumes "ioapic_hw mm a ok regs" and "ok w" and "line < 24" and "n AND 0x00ffffff = 0" and "regs w (line * 2 + 0x11) AND 0x5000 = 0"
  shows "\<exists>w'. remap mm a n line vector w = Inr w' \<and> regs w' (line * 2 + 0x11) = 0"
  using remap_hw[OF assms(1-3), of n vector] assms(5) lapic_id_shifted_out[OF assms(4)] by auto

theorem remap_destination_zero_witness:
  "\<exists>w'. remap sample_ioapic \<lparr>ioapic_base_addr = 0xfec00000\<rparr> 0x03000000 2 0x20 (0, \<lambda>_. 0) = Inr w' \<and> snd w' 0x15 = 0"
  using remap_destination_zero[OF sample_ioapic_hw, where w = "(0, \<lambda>_. 0)" and line = 2 and n = "0x03000000" and vector = "0x20"] by auto

end
