(* ===== verification/Syscall.thy ===== *)
theory Syscall
  imports Semaphore_Sched Apic
begin

text \<open>
  System calls (\<open>src/arch/x86_64/syscall.rs\<close> and \<open>syscall_handler\<close> of \<open>src/arch/x86_64/interrupt.rs\<close>) on the
  scheduler and the local APIC.
\<close>

section \<open>Model\<close>

datatype syscall = SchedYield | Nanosleep

fun syscall_number :: "syscall \<Rightarrow> u64" where
  "syscall_number SchedYield = 0x18"
| "syscall_number Nanosleep = 0x23"

definition syscall_try_from :: "u64 \<Rightarrow> (syscall, u64) rust_result" where
  "syscall_try_from value =
     (if value = syscall_number SchedYield then Ok SchedYield
      else if value = syscall_number Nanosleep then Ok Nanosleep
      else Err value)"

text \<open>
  The handler; \<open>now\<close> and \<open>tick_time\<close> are the times that the scheduler and the clock read. The state is the
  one in which the task that the scheduler switches to has gone on.
\<close>

definition syscall_handler ::
  "'l spin_ops \<Rightarrow> code_addrs \<Rightarrow> 'w mmio \<Rightarrow> local_apic \<Rightarrow> u64 \<Rightarrow> u64 \<Rightarrow> u64 \<Rightarrow> u64 \<Rightarrow> 'l kernel \<times> 'w \<Rightarrow> ('l kernel \<times> 'w) res" where
  "syscall_handler sp ca mm lapic tick_time now number arg0 s =
     (let (k, w) = s in
      rbind (lapic_write mm lapic 0xb0 0 w) (\<lambda>w.
      case syscall_try_from number of
        Ok SchedYield \<Rightarrow> rbind (sched_lock sp k) (\<lambda>k. rbind (switch sp ca now k) (\<lambda>k. Inr (k, w)))
      | Ok Nanosleep \<Rightarrow> rbind (sched_lock sp k) (\<lambda>k. rbind (sched_sleep sp ca tick_time now arg0 k) (\<lambda>k. Inr (k, w)))
      | Err v \<Rightarrow> Inl ExplicitPanic))"

section \<open>Lemmas\<close>

lemma UNIV_syscall: "UNIV = {SchedYield, Nanosleep}"
  using syscall.exhaust by blast

lemma syscall_roundtrip: "syscall_try_from (syscall_number c) = Ok c"
  by (cases c) (simp_all add: syscall_try_from_def)

lemma syscall_try_from_Ok: "syscall_try_from n = Ok c \<longleftrightarrow> n = syscall_number c"
  by (cases c) (auto simp: syscall_try_from_def split: if_splits)

lemma syscall_try_from_Err: "syscall_try_from n = Err v \<longleftrightarrow> n \<notin> range syscall_number \<and> v = n"
proof -
  have "range syscall_number = {0x18, 0x23}"
    using syscall.exhaust by (auto simp: UNIV_syscall)
  then show ?thesis by (auto simp: syscall_try_from_def split: if_splits)
qed

lemma sleep_ready:
  assumes "sched_ready sp ca k" and l: "sched_lock sp k = Inr k1" and "sched_sleep sp ca tick_time now ns k1 = Inr k2"
  shows "\<exists>c. CLOCK k = Some c \<and> unat tick_time + unat ns < 2 ^ 64 \<and> sched_ready sp ca k2 \<and>
    runnable_tasks k2 = runnable_tasks k - {current_task (cpu k)} \<and> known_tasks k2 = known_tasks k \<and>
    CLOCK k2 = Some (callback_at (tick_time + ns) (current_task (cpu k)) (c\<lparr>ticks := tick_time\<rparr>))"
proof -
  obtain held where h: "spin_ok sp (sched_mutex k) held" "sched_mutex k1 = held" "sched_inv ca k1"
    "current_task (cpu k1) = current_task (cpu k)" "runnable_tasks k1 = runnable_tasks k" "known_tasks k1 = known_tasks k"
    by (rule readyE[OF assms(1,2)])
  have c1: "CLOCK k1 = CLOCK k" using l by (auto simp: sched_lock_def Let_def res_simps)
  obtain c k' where c: "CLOCK k = Some c" "unat tick_time + unat ns < 2 ^ 64"
    "set_runnable (current_task (cpu k1)) False (k1\<lparr>CLOCK := Some (c\<lparr>ticks := tick_time\<rparr>)\<rparr>) = Inr k'"
    "switch sp ca now (k'\<lparr>CLOCK := Some (callback_at (tick_time + ns) (current_task (cpu k1)) (c\<lparr>ticks := tick_time\<rparr>))\<rparr>) = Inr k2"
    using assms(3) c1 by (auto simp: sched_sleep_def Let_def get_tick_def res_simps split: option.splits)
  let ?k0 = "k1\<lparr>CLOCK := Some (c\<lparr>ticks := tick_time\<rparr>)\<rparr>"
  let ?c' = "Some (callback_at (tick_time + ns) (current_task (cpu k1)) (c\<lparr>ticks := tick_time\<rparr>))"
  have i0: "sched_inv ca ?k0" "abstract_tasks ?k0 = abstract_tasks k1" using h(3) by (simp_all only: with_clock)
  have cur: "current_task (cpu k1) = current_task (cpu ?k0)" by simp
  obtain r b0 where s: "abstract_tasks ?k0 (current_task (cpu k1)) = Some (r, b0)"
    "abstract_tasks k' = (abstract_tasks ?k0)(current_task (cpu k1) \<mapsto> (r, False))" "sched_inv ca k'" "sched_mutex k' = sched_mutex ?k0"
    by (rule set_runnable_inv[OF i0(1) c(3)]) simp_all
  have i': "sched_inv ca (k'\<lparr>CLOCK := ?c'\<rparr>)" "abstract_tasks (k'\<lparr>CLOCK := ?c'\<rparr>) = abstract_tasks k'"
    using s(3) by (simp_all only: with_clock)
  have m: "sched_mutex (k'\<lparr>CLOCK := ?c'\<rparr>) = held" using s(4) h(2) by simp
  have ck: "CLOCK k2 = ?c'"
    using switch_spec[OF _ i'(1) c(4), of "CLOCK k2 = ?c'"] assms(1) by (simp add: sched_ready_def)
  have r0: "runnable_tasks ?k0 = runnable_tasks k" "known_tasks ?k0 = known_tasks k"
    using h(5,6) i0(2) by (simp_all add: runnable_abs known_tasks_def)
  have r1: "runnable_tasks (k'\<lparr>CLOCK := ?c'\<rparr>) = runnable_tasks k - {current_task (cpu k)}" "known_tasks (k'\<lparr>CLOCK := ?c'\<rparr>) = known_tasks k"
    using runnable_upd[OF s(2,1)] r0 i'(2) h(4) by (simp_all add: runnable_abs known_tasks_def)
  show ?thesis
    using switch_ready[OF assms(1) h(1) i'(1) m c(4)] r1 ck c(1,2) h(4) by simp
qed

lemma lock_time_ok:
  assumes "sched_ready sp ca k" and "sched_lock sp k = Inr k1" and "time_ok now k"
  shows "time_ok now k1"
proof -
  have "cpu k1 = set_resume_interrupts (interrupts_enabled (rflags (cpu k))) (cpu k\<lparr>rflags := disable_interrupts (rflags (cpu k))\<rparr>)"
    "tasks (sched_tasks k1) = tasks (sched_tasks k)"
    using assms(2) by (auto simp: sched_lock_def Let_def res_simps)
  then show ?thesis using assms(3)
    by (simp add: time_ok_def Let_def set_resume_interrupts_def set_info_def current_task_ptr_def)
qed

lemma sleep_total:
  assumes "code_ok ca" and "sched_inv ca k" and "time_ok now k" and "CLOCK k = Some c" and "unat tick_time + unat ns < 2 ^ 64"
  shows "\<exists>k'. sched_sleep sp ca tick_time now ns k = Inr k'"
proof -
  let ?cur = "current_task (cpu k)" and ?k0 = "k\<lparr>CLOCK := Some (c\<lparr>ticks := tick_time\<rparr>)\<rparr>"
  let ?c' = "Some (callback_at (tick_time + ns) ?cur (c\<lparr>ticks := tick_time\<rparr>))"
  have i0: "sched_inv ca ?k0" using assms(2) by (simp only: with_clock)
  have m: "map_of (tasks (sched_tasks k)) ?cur = Some (current_task_ptr (cpu k))" using assms(2) by (simp add: sched_inv_def)
  then obtain k1 where k1: "set_runnable ?cur False ?k0 = Inr k1"
    "cpu k1 = set_info (current_task_ptr (cpu k)) (\<lambda>i. i\<lparr>flags := set_is_runnable False (flags i)\<rparr>) (cpu k)"
    "tasks (sched_tasks k1) = tasks (sched_tasks k)" by (simp add: set_runnable_def Let_def)
  have "sched_inv ca k1" using set_runnable_inv[OF i0 k1(1), of "sched_inv ca k1"] by simp
  then have i1: "sched_inv ca (k1\<lparr>CLOCK := ?c'\<rparr>)" by (simp only: with_clock)
  have "time_ok now (k1\<lparr>CLOCK := ?c'\<rparr>)"
    using assms(3) k1(2,3) by (simp add: time_ok_def Let_def set_info_def current_task_ptr_def)
  then obtain k' where "switch sp ca now (k1\<lparr>CLOCK := ?c'\<rparr>) = Inr k'" using switch_total[OF assms(1) i1] by blast
  then show ?thesis using assms(4,5) k1(1) by (simp add: sched_sleep_def get_tick_def Let_def)
qed

section \<open>Properties\<close>

text \<open>C28: The system call to sleep: when the scheduler is in order, its counters and the deadline do not overflow
  and the clock is set up, the call returns; the interrupt has been acknowledged, the calling task is not
  runnable any more while all others are as before, the clock holds a callback for it at the time of the call
  plus the argument, and another runnable task, or the idle task, goes on.\<close>

theorem nanosleep_blocks_caller:
  assumes "sched_ready sp ca k" and "time_ok now k" and "CLOCK k = Some c" and "unat tick_time + unat ns < 2 ^ 64"
    and "unat (lapic_base_addr lapic) + 0xb0 < 2 ^ 64"
  shows "\<exists>k'. syscall_handler sp ca mm lapic tick_time now (syscall_number Nanosleep) ns (k, w) =
      Inr (k', mmio_write32 mm (lapic_base_addr lapic + 0xb0) 0 w) \<and>
    sched_ready sp ca k' \<and> runnable_tasks k' = runnable_tasks k - {current_task (cpu k)} \<and>
    CLOCK k' = Some (callback_at (tick_time + ns) (current_task (cpu k)) (c\<lparr>ticks := tick_time\<rparr>))"
proof -
  obtain k1 where k1: "sched_lock sp k = Inr k1" using kernel_sched.lock_ok[OF assms(1)] by auto
  have "sched_inv ca k1" by (rule readyE[OF assms(1) k1])
  moreover have "CLOCK k1 = Some c" using k1 assms(3) by (auto simp: sched_lock_def Let_def res_simps)
  ultimately obtain k' where k': "sched_sleep sp ca tick_time now ns k1 = Inr k'"
    using sleep_total[of ca k1 now c tick_time ns sp] lock_time_ok[OF assms(1) k1 assms(2)] assms(1,4) by (auto simp: sched_ready_def)
  have "checked_add (lapic_base_addr lapic) 0xb0 = Inr (lapic_base_addr lapic + 0xb0)"
    using assms(5) by (intro checked_add_usize) simp
  then have "syscall_handler sp ca mm lapic tick_time now (syscall_number Nanosleep) ns (k, w) =
      Inr (k', mmio_write32 mm (lapic_base_addr lapic + 0xb0) 0 w)"
    using k1 k' by (simp only: syscall_handler_def syscall_roundtrip lapic_write_def) simp
  then show ?thesis using sleep_ready[OF assms(1) k1 k'] assms(3) by auto
qed

theorem nanosleep_blocks_caller_witness:
  "\<exists>k'. syscall_handler bool_spin sample_code sample_ioapic \<lparr>lapic_base_addr = 0xfee00000\<rparr> 90 100 (syscall_number Nanosleep) 50
      (sample_kernel1, (0, \<lambda>_. 0)) = Inr (k', (0, \<lambda>_. 0)) \<and> runnable_tasks k' = {0} \<and> CLOCK k' = Some (callback_at 140 1 (clock_new\<lparr>ticks := 90\<rparr>))"
proof -
  have t: "time_ok 100 sample_kernel1"
    unfolding time_ok_def sample1_current
    by (simp add: sample_kernel1_def sample_kernel_def sample_info_def SCHED_LATENCY_def)
  have c: "CLOCK sample_kernel1 = Some clock_new" by (simp add: sample_kernel1_def sample_kernel_def)
  have r: "runnable_tasks sample_kernel1 - {current_task (cpu sample_kernel1)} = {0}"
    unfolding sample1_runnable sample1_current by auto
  have w: "mmio_write32 sample_ioapic (0xfee00000 + 0xb0) 0 (0, \<lambda>_. 0) = (0, \<lambda>_. 0)" by (simp add: sample_ioapic_def)
  show ?thesis
    using nanosleep_blocks_caller[OF sample1_ready t c, where tick_time = 90 and ns = 50 and lapic = "\<lparr>lapic_base_addr = 0xfee00000\<rparr>"
        and mm = sample_ioapic and w = "(0, \<lambda>_. 0)"] r w sample1_current(2) by auto
qed

text \<open>Property: The numbers of system calls: exactly the two numbers of the enumeration are accepted, each for its own
  call, and every other number makes the handler panic.\<close>

theorem syscall_numbers:
  assumes "unat (lapic_base_addr lapic) + 0xb0 < 2 ^ 64"
  shows "(syscall_try_from n = Ok c \<longleftrightarrow> n = syscall_number c) \<and>
   (n \<notin> range syscall_number \<longrightarrow> syscall_handler sp ca mm lapic tick_time now n arg0 (k, w) = Inl ExplicitPanic)"
proof -
  have "checked_add (lapic_base_addr lapic) 0xb0 = Inr (lapic_base_addr lapic + 0xb0)"
    using assms by (intro checked_add_usize) simp
  then show ?thesis using syscall_try_from_Ok syscall_try_from_Err[of n n] by (auto simp: syscall_handler_def lapic_write_def)
qed

theorem syscall_numbers_witness:
  "syscall_handler bool_spin sample_code sample_ioapic \<lparr>lapic_base_addr = 0xfee00000\<rparr> 90 100 0x19 50 (sample_kernel1, (0, \<lambda>_. 0)) = Inl ExplicitPanic"
proof -
  have "0x19 \<notin> range syscall_number" by (auto simp: UNIV_syscall)
  then show ?thesis using syscall_numbers[of "\<lparr>lapic_base_addr = 0xfee00000\<rparr>" "0x19" Nanosleep bool_spin sample_code sample_ioapic 90 100 50 sample_kernel1 "(0, \<lambda>_. 0)"] by simp
qed

end
