(* ===== verification/Pci.thy ===== *)
theory Pci
  imports Port_IO "HOL-Library.Multiset"
begin

text \<open>
  The PCI bus (\<open>src/drivers/pci.rs\<close>): access to the configuration space through two ports, enumeration of
  the bus, and handing devices to drivers. What a read of the configuration space returns is up to the
  hardware; the hypothesis \<open>static_config\<close> states the documented access mechanism.
\<close>

section \<open>Model\<close>

definition REG_CAP_PTR :: u16 where "REG_CAP_PTR = 0x34"
definition MSI_VECTOR :: u32 where "MSI_VECTOR = 0x26"
definition CONFIG_ADDRESS :: u16 where "CONFIG_ADDRESS = 0xcf8"
definition CONFIG_DATA :: u16 where "CONFIG_DATA = 0xcfc"

datatype bar_number = BAR0 | BAR1 | BAR2 | BAR3 | BAR4 | BAR5

fun bar_index :: "bar_number \<Rightarrow> usize" where
  "bar_index BAR0 = 0" | "bar_index BAR1 = 1" | "bar_index BAR2 = 2"
| "bar_index BAR3 = 3" | "bar_index BAR4 = 4" | "bar_index BAR5 = 5"

datatype bdf = BDF (bus_number: u16) (device_number: u16) (function_number: u8)

text \<open>The derived order: field by field.\<close>

instantiation bdf :: linorder
begin

definition less_bdf :: "bdf \<Rightarrow> bdf \<Rightarrow> bool" where
  "a < b \<longleftrightarrow> bus_number a < bus_number b \<or> bus_number a = bus_number b \<and>
     (device_number a < device_number b \<or> device_number a = device_number b \<and> function_number a < function_number b)"

definition less_eq_bdf :: "bdf \<Rightarrow> bdf \<Rightarrow> bool" where
  "a \<le> b \<longleftrightarrow> a < b \<or> a = (b :: bdf)"

instance
  by standard (auto simp: less_bdf_def less_eq_bdf_def not_less_iff_gr_or_eq intro: bdf.expand)

end

record pci_device =
  dev_bdf :: bdf
  device_id :: u16
  vendor_id :: u16
  subsystem_id :: u16
  subsystem_vendor_id :: u16
  interrupt_pin :: u8
  interrupt_line :: u8
  msi_capability_pointer :: "u16 option"

definition config_address :: "bdf \<Rightarrow> u32" where
  "config_address b = 0x80000000 OR push_bit 16 (ucast (bus_number b)) OR push_bit 11 (ucast (device_number b)) OR
     push_bit 8 (ucast (function_number b) AND 0x7)"

definition pci_outl :: "'w ports \<Rightarrow> bdf \<Rightarrow> u16 \<Rightarrow> u32 \<Rightarrow> 'w \<Rightarrow> 'w" where
  "pci_outl ps b offset data w =
     outl ps CONFIG_DATA data (outl ps CONFIG_ADDRESS (config_address b OR ucast offset) w)"

definition pci_inl :: "'w ports \<Rightarrow> bdf \<Rightarrow> u16 \<Rightarrow> 'w \<Rightarrow> u32 \<times> 'w" where
  "pci_inl ps b offset w =
     inl ps CONFIG_DATA (outl ps CONFIG_ADDRESS (config_address b OR ucast (offset AND 0xFC)) w)"

definition read_control_register :: "'w ports \<Rightarrow> bdf \<Rightarrow> 'w \<Rightarrow> u16 \<times> 'w" where
  "read_control_register ps b w = (let (v, w) = pci_inl ps b 0x4 w in (ucast (v AND 0x0000FFFF), w))"

definition write_control_register :: "'w ports \<Rightarrow> bdf \<Rightarrow> u16 \<Rightarrow> 'w \<Rightarrow> 'w" where
  "write_control_register ps b control w = pci_outl ps b 0x4 (push_bit 16 0 OR ucast control) w"

definition read_status_register :: "'w ports \<Rightarrow> bdf \<Rightarrow> 'w \<Rightarrow> u16 \<times> 'w" where
  "read_status_register ps b w = (let (v, w) = pci_inl ps b 0x4 w in (ucast (drop_bit 16 (v AND 0xffff0000)), w))"

definition read_header_type :: "'w ports \<Rightarrow> bdf \<Rightarrow> 'w \<Rightarrow> u8 \<times> 'w" where
  "read_header_type ps b w = (let (v, w) = pci_inl ps b 0xC w in (ucast (drop_bit 16 (v AND 0x00FF0000)), w))"

definition read_bar_register :: "'w ports \<Rightarrow> bdf \<Rightarrow> bar_number \<Rightarrow> 'w \<Rightarrow> u32 \<times> 'w" where
  "read_bar_register ps b bar w =
     (let (header_type, w) = read_header_type ps b w in
      if header_type AND 0x7f = 0 then pci_inl ps b (0x10 + ucast (bar_index bar) * 4) w else (0, w))"

definition write_bar_register :: "'w ports \<Rightarrow> bdf \<Rightarrow> bar_number \<Rightarrow> u32 \<Rightarrow> 'w \<Rightarrow> 'w" where
  "write_bar_register ps b bar data w = pci_outl ps b (0x10 + ucast (bar_index bar) * 4) data w"

text \<open>
  The walk over the capabilities, which ends at a null pointer or at an MSI capability. The list is in the
  hands of the device and may be a cycle: \<open>fuel\<close> bounds the number of rounds.
\<close>

fun cap_walk :: "nat \<Rightarrow> 'w ports \<Rightarrow> u32 \<Rightarrow> bdf \<Rightarrow> u16 \<Rightarrow> 'w \<Rightarrow> (u16 option \<times> 'w) res" where
  "cap_walk 0 ps lapic_id b ptr w = Inl Diverges"
| "cap_walk (Suc fuel) ps lapic_id b ptr w =
     (if ptr = 0 then Inr (None, w)
      else
        let (v, w) = pci_inl ps b ptr w;
            n_ptr = drop_bit 8 (v AND 0xff00);
            cap_id = v AND 0xff
        in if cap_id \<noteq> 0x05 then cap_walk fuel ps lapic_id b (ucast n_ptr) w
           else
             let w = pci_outl ps b ptr 0x1 w;
                 addr = 0xfee00000 OR push_bit 12 lapic_id OR push_bit 2 0;
                 w = pci_outl ps b (ptr + 0x4) addr w;
                 w = pci_outl ps b (ptr + 0x8) MSI_VECTOR w
             in Inr (Some ptr, w))"

definition visit_configuration_space ::
  "nat \<Rightarrow> 'w ports \<Rightarrow> u32 \<Rightarrow> u32 \<Rightarrow> u32 \<Rightarrow> u32 \<Rightarrow> 'w \<Rightarrow> (pci_device option \<times> 'w) res" where
  "visit_configuration_space fuel ps n_bus n_device n_function lapic_id w =
     (let cfg_addr = 0x80000000 OR push_bit 16 n_bus OR push_bit 11 n_device OR push_bit 8 n_function;
          (cfg_data, w) = inl ps CONFIG_DATA (outl ps CONFIG_ADDRESS cfg_addr w)
      in if cfg_data AND 0xffff = 0xffff then Inr (None, w)
         else
           let b = BDF (ucast n_bus) (ucast n_device) (ucast n_function);
               (ssv, w) = pci_inl ps b 0x2c w;
               (ss, w) = pci_inl ps b 0x2e w;
               (line, w) = pci_inl ps b 0x3c w;
               (pin, w) = pci_inl ps b 0x3c w;
               (status, w) = read_status_register ps b w
           in rbind (if status AND 0x10 \<noteq> 0 then cap_walk fuel ps lapic_id b REG_CAP_PTR w else Inr (None, w)) (\<lambda>(msi, w).
              Inr (Some \<lparr>dev_bdf = b, device_id = ucast (drop_bit 16 (cfg_data AND 0xffff0000)),
                vendor_id = ucast (cfg_data AND 0xffff), subsystem_id = ucast (drop_bit 16 (ss AND 0xffff0000)),
                subsystem_vendor_id = ucast (ssv AND 0xffff), interrupt_pin = ucast (drop_bit 8 (pin AND 0xff00)),
                interrupt_line = ucast (line AND 0xff), msi_capability_pointer = msi\<rparr>, w)))"

text \<open>The loop over the functions of a device and the two loops over buses and devices.\<close>

definition visit_functions ::
  "nat \<Rightarrow> 'w ports \<Rightarrow> u32 \<Rightarrow> u32 \<Rightarrow> u32 \<Rightarrow> pci_device list \<times> 'w \<Rightarrow> (pci_device list \<times> 'w) res" where
  "visit_functions fuel ps n_bus n_device lapic_id s =
     rfold (\<lambda>n_function (devices, w).
       rbind (visit_configuration_space fuel ps n_bus n_device n_function lapic_id w) (\<lambda>(d, w).
       Inr (case d of Some device \<Rightarrow> (devices @ [device], w) | None \<Rightarrow> (devices, w)))) (map of_nat [0..<8]) s"

definition visit_device ::
  "nat \<Rightarrow> 'w ports \<Rightarrow> u32 \<Rightarrow> u32 \<Rightarrow> u32 \<Rightarrow> pci_device list \<times> 'w \<Rightarrow> (pci_device list \<times> 'w) res" where
  "visit_device fuel ps lapic_id n_bus n_device s =
     (let (devices, w) = s in
      rbind (visit_configuration_space fuel ps n_bus n_device 0 lapic_id w) (\<lambda>(d, w).
      case d of
        None \<Rightarrow> Inr (devices, w)
      | Some device \<Rightarrow>
          let (header_type, w) = read_header_type ps (dev_bdf device) w in
          rbind (if header_type AND 0x80 = 0x80 then visit_functions fuel ps n_bus n_device lapic_id (devices, w)
                 else Inr (devices, w)) (\<lambda>(devices, w). Inr (devices @ [device], w))))"

definition enumerate_pci_bus :: "nat \<Rightarrow> 'w ports \<Rightarrow> u32 \<Rightarrow> pci_device list \<times> 'w \<Rightarrow> (pci_device list \<times> 'w) res" where
  "enumerate_pci_bus fuel ps lapic_id s =
     rfold (\<lambda>n_bus. rfold (visit_device fuel ps lapic_id n_bus) (map of_nat [0..<32])) (map of_nat [0..<256]) s"

text \<open>\<open>extract_if\<close> moves the matching devices out: those returned, and those that stay.\<close>

definition get_device :: "u16 \<Rightarrow> u16 \<Rightarrow> pci_device list \<Rightarrow> pci_device list \<times> pci_device list" where
  "get_device vendor device devices =
     (let p = (\<lambda>x. device_id x = device \<and> vendor_id x = vendor)
      in (filter p devices, filter (\<lambda>x. \<not> p x) devices))"

section \<open>Lemmas\<close>

text \<open>The address of a register holds the fields of the function, each in its own bits.\<close>

lemma bit_below:
  fixes w :: "'a :: len word"
  assumes "w < 2 ^ k" and "bit w n"
  shows "n < k"
proof (cases "k < LENGTH('a)")
  case True
  then have "unat w < 2 ^ k" using assms(1) by (simp add: word_less_nat_alt unat_exp_word)
  then have "take_bit k (unat w) = unat w" by (simp add: take_bit_nat_eq_self_iff)
  moreover have "bit (unat w) n" using assms(2) by (simp add: bit_unsigned_iff)
  ultimately show ?thesis by (metis bit_take_bit_iff)
qed (use assms(2) in \<open>auto dest: bit_imp_le_length\<close>)

lemma register_mask_bits: "(0xff :: 'a :: len word) = mask 8" "(0x1f :: 'a word) = mask 5" "(0x7 :: 'a word) = mask 3"
  "(0xffff :: 'a word) = mask 16" "(0xFC :: 'a word) = push_bit 2 (mask 6)"
  by (simp_all add: mask_eq_exp_minus_1 push_bit_eq_mult)

definition valid_bdf :: "bdf \<Rightarrow> bool" where
  "valid_bdf b \<longleftrightarrow> bus_number b < 2 ^ 8 \<and> device_number b < 2 ^ 5 \<and> function_number b < 2 ^ 3"

lemma bit_config_enable: "bit (0x80000000 :: u32) n \<longleftrightarrow> n = 31"
proof -
  have "bit (2 ^ 31 :: u32) n \<longleftrightarrow> n = 31" unfolding bit_exp_iff by auto
  then show ?thesis by simp
qed

lemma bit_config_address:
  assumes "valid_bdf b"
  shows "bit (config_address b) n \<longleftrightarrow> n = 31 \<or> 16 \<le> n \<and> n < 24 \<and> bit (bus_number b) (n - 16) \<or>
    11 \<le> n \<and> n < 16 \<and> bit (device_number b) (n - 11) \<or> 8 \<le> n \<and> n < 11 \<and> bit (function_number b) (n - 8)"
proof -
  have v: "bus_number b < 2 ^ 8" "device_number b < 2 ^ 5" "function_number b < 2 ^ 3" using assms by (simp_all add: valid_bdf_def)
  have "bit (push_bit 16 (ucast (bus_number b)) :: u32) n \<longleftrightarrow> 16 \<le> n \<and> n < 24 \<and> bit (bus_number b) (n - 16)"
    using bit_below[OF v(1), of "n - 16"] by (auto simp: bit_simps)
  moreover have "bit (push_bit 11 (ucast (device_number b)) :: u32) n \<longleftrightarrow> 11 \<le> n \<and> n < 16 \<and> bit (device_number b) (n - 11)"
    using bit_below[OF v(2), of "n - 11"] by (auto simp: bit_simps)
  moreover have "bit (push_bit 8 (ucast (function_number b) AND 0x7) :: u32) n \<longleftrightarrow> 8 \<le> n \<and> n < 11 \<and> bit (function_number b) (n - 8)"
    unfolding register_mask_bits by (auto simp: bit_simps)
  ultimately show ?thesis unfolding config_address_def bit_or_iff bit_config_enable by blast
qed

lemma config_address_fields:
  assumes "valid_bdf b"
  shows "ucast (drop_bit 16 (config_address b) AND 0xff) = bus_number b"
    and "ucast (drop_bit 11 (config_address b) AND 0x1f) = device_number b"
    and "ucast (drop_bit 8 (config_address b) AND 0x7) = function_number b"
    and "config_address b AND 0xff = 0"
proof -
  have v: "bus_number b < 2 ^ 8" "device_number b < 2 ^ 5" "function_number b < 2 ^ 3" using assms by (simp_all add: valid_bdf_def)
  note below = bit_below[OF v(1)] bit_below[OF v(2)] bit_below[OF v(3)]
  show "ucast (drop_bit 16 (config_address b) AND 0xff) = bus_number b"
    unfolding register_mask_bits by (rule bit_word_eqI) (auto simp: bit_simps bit_config_address[OF assms] dest: below)
  show "ucast (drop_bit 11 (config_address b) AND 0x1f) = device_number b"
    unfolding register_mask_bits by (rule bit_word_eqI) (auto simp: bit_simps bit_config_address[OF assms] dest: below)
  show "ucast (drop_bit 8 (config_address b) AND 0x7) = function_number b"
    unfolding register_mask_bits by (rule bit_word_eqI) (auto simp: bit_simps bit_config_address[OF assms] dest: below)
  show "config_address b AND 0xff = 0"
    unfolding register_mask_bits by (rule bit_word_eqI) (auto simp: bit_simps bit_config_address[OF assms])
qed

text \<open>The address that \<open>visit_configuration_space\<close> computes from its own numbers is that of register 0.\<close>

lemma visit_address:
  fixes n_bus n_device n_function :: u32
  assumes "n_bus < 2 ^ 8" and "n_device < 2 ^ 5" and "n_function < 2 ^ 3"
  shows "0x80000000 OR push_bit 16 n_bus OR push_bit 11 n_device OR push_bit 8 n_function =
      config_address (BDF (ucast n_bus) (ucast n_device) (ucast n_function))"
    and "valid_bdf (BDF (ucast n_bus) (ucast n_device) (ucast n_function))"
proof -
  let ?b = "BDF (ucast n_bus) (ucast n_device) (ucast n_function)"
  have "unat n_bus < 2 ^ 8" "unat n_device < 2 ^ 5" "unat n_function < 2 ^ 3"
    using assms by (simp_all add: word_less_nat_alt)
  then show v: "valid_bdf ?b"
    by (simp add: valid_bdf_def word_less_nat_alt unsigned_ucast_eq take_bit_eq_mod)
  show "0x80000000 OR push_bit 16 n_bus OR push_bit 11 n_device OR push_bit 8 n_function = config_address ?b"
  proof (rule bit_word_eqI)
    fix n assume n: "n < LENGTH(32)"
    have "bit (push_bit 16 n_bus) n \<longleftrightarrow> 16 \<le> n \<and> n < 24 \<and> bit (ucast n_bus :: u16) (n - 16)"
      using bit_below[OF assms(1), of "n - 16"] n by (auto simp: bit_simps)
    moreover have "bit (push_bit 11 n_device) n \<longleftrightarrow> 11 \<le> n \<and> n < 16 \<and> bit (ucast n_device :: u16) (n - 11)"
      using bit_below[OF assms(2), of "n - 11"] n by (auto simp: bit_simps)
    moreover have "bit (push_bit 8 n_function) n \<longleftrightarrow> 8 \<le> n \<and> n < 11 \<and> bit (ucast n_function :: u8) (n - 8)"
      using bit_below[OF assms(3), of "n - 8"] n by (auto simp: bit_simps)
    ultimately show "bit (0x80000000 OR push_bit 16 n_bus OR push_bit 11 n_device OR push_bit 8 n_function) n = bit (config_address ?b) n"
      unfolding bit_config_address[OF v] bit_or_iff bit_config_enable by simp
  qed
qed

text \<open>Writing the address of a register and accessing the data port: reads find the contents of the register
  and leave the configuration space as it is. \<open>ok\<close> are the states of the hardware in which it has the
  contents \<open>cfg\<close>.\<close>

definition static_config :: "'w ports \<Rightarrow> ('w \<Rightarrow> bool) \<Rightarrow> (u32 \<Rightarrow> u32) \<Rightarrow> bool" where
  "static_config ps ok cfg \<longleftrightarrow>
     (\<forall>w a. ok w \<longrightarrow> fst (port_in32 ps CONFIG_DATA (port_out32 ps CONFIG_ADDRESS a w)) = cfg a \<and>
        ok (snd (port_in32 ps CONFIG_DATA (port_out32 ps CONFIG_ADDRESS a w))))"

definition reg_of :: "(u32 \<Rightarrow> u32) \<Rightarrow> bdf \<Rightarrow> u16 \<Rightarrow> u32" where
  "reg_of cfg b offset = cfg (config_address b OR ucast (offset AND 0xFC))"

lemma pci_inl_static:
  assumes "static_config ps ok cfg" and "ok w"
  obtains w' where "pci_inl ps b offset w = (reg_of cfg b offset, w')" "ok w'"
  using assms that by (auto simp: static_config_def pci_inl_def inl_def outl_def reg_of_def prod_eq_iff)

text \<open>A loop that appends what it finds, reading the configuration space only.\<close>

lemma rfold_collect:
  assumes "\<And>x devs w. x \<in> set xs \<Longrightarrow> ok w \<Longrightarrow> \<exists>w'. f x (devs, w) = Inr (devs @ g x, w') \<and> ok w'" and "ok w"
  shows "\<exists>w'. rfold f xs (devs, w) = Inr (devs @ concat (map g xs), w') \<and> ok w'"
  using assms
proof (induction xs arbitrary: devs w)
  case (Cons x xs)
  obtain w1 where w1: "f x (devs, w) = Inr (devs @ g x, w1)" "ok w1" using Cons.prems by (metis list.set_intros(1))
  obtain w' where "rfold f xs (devs @ g x, w1) = Inr ((devs @ g x) @ concat (map g xs), w')" "ok w'"
    using Cons.IH[OF _ w1(2)] Cons.prems(1) by (metis list.set_intros(2))
  then show ?case using w1(1) by simp
qed auto

lemma rfold_map: "rfold f (map h xs) = rfold (\<lambda>x. f (h x)) xs"
proof (induction xs)
  case (Cons x xs)
  then show ?case by (intro ext) simp
qed (simp add: fun_eq_iff)

text \<open>What the configuration space says of a function.\<close>

definition present :: "(u32 \<Rightarrow> u32) \<Rightarrow> bdf \<Rightarrow> bool" where
  "present cfg b \<longleftrightarrow> reg_of cfg b 0 AND 0xffff \<noteq> 0xffff"

definition multi_function :: "(u32 \<Rightarrow> u32) \<Rightarrow> bdf \<Rightarrow> bool" where
  "multi_function cfg b \<longleftrightarrow> (ucast (drop_bit 16 (reg_of cfg b 0xC AND 0x00FF0000)) :: u8) AND 0x80 = 0x80"

definition has_capabilities :: "(u32 \<Rightarrow> u32) \<Rightarrow> bdf \<Rightarrow> bool" where
  "has_capabilities cfg b \<longleftrightarrow> (ucast (drop_bit 16 (reg_of cfg b 0x4 AND 0xffff0000)) :: u16) AND 0x10 \<noteq> 0"

definition pci_info :: "(u32 \<Rightarrow> u32) \<Rightarrow> bdf \<Rightarrow> pci_device" where
  "pci_info cfg b = \<lparr>dev_bdf = b, device_id = ucast (drop_bit 16 (reg_of cfg b 0 AND 0xffff0000)),
     vendor_id = ucast (reg_of cfg b 0 AND 0xffff), subsystem_id = ucast (drop_bit 16 (reg_of cfg b 0x2e AND 0xffff0000)),
     subsystem_vendor_id = ucast (reg_of cfg b 0x2c AND 0xffff),
     interrupt_pin = ucast (drop_bit 8 (reg_of cfg b 0x3c AND 0xff00)),
     interrupt_line = ucast (reg_of cfg b 0x3c AND 0xff), msi_capability_pointer = None\<rparr>"

text \<open>
  The register at 0x34 as the PCI specification has it: the pointer to the first capability in its low
  byte, which is at least 0x40, and reserved bytes above that read as zero.
\<close>

definition capability_register_ok :: "(u32 \<Rightarrow> u32) \<Rightarrow> bdf \<Rightarrow> bool" where
  "capability_register_ok cfg b \<longleftrightarrow>
     (has_capabilities cfg b \<longrightarrow> 0x40 \<le> reg_of cfg b 0x34 AND 0xff \<and> reg_of cfg b 0x34 AND 0xffffff00 = 0)"

lemma cap_walk_static:
  assumes "static_config ps ok cfg" and "ok w" and "0x40 \<le> reg_of cfg b 0x34 AND 0xff" and "reg_of cfg b 0x34 AND 0xffffff00 = 0"
    and "2 \<le> fuel"
  shows "\<exists>w'. cap_walk fuel ps lapic_id b REG_CAP_PTR w = Inr (None, w') \<and> ok w'"
proof -
  obtain n where n: "fuel = Suc (Suc n)" using assms(5) by (metis add_2_eq_Suc le_Suc_ex)
  obtain w' where w': "pci_inl ps b 0x34 w = (reg_of cfg b 0x34, w')" "ok w'" by (rule pci_inl_static[OF assms(1,2)])
  have id: "reg_of cfg b 0x34 AND 0xff \<noteq> 5" using assms(3) by auto
  have "reg_of cfg b 0x34 AND 0xff00 = (reg_of cfg b 0x34 AND 0xffffff00) AND 0xff00" by (simp add: and.assoc)
  then have "drop_bit 8 (reg_of cfg b 0x34 AND 0xff00) = 0" unfolding assms(4) by simp
  then show ?thesis using w' id by (simp add: n REG_CAP_PTR_def)
qed

lemma visit_static:
  assumes st: "static_config ps ok cfg" and "ok w" and v: "n_bus < 2 ^ 8" "n_device < 2 ^ 5" "n_function < 2 ^ 3" and "2 \<le> fuel"
    and b: "b = BDF (ucast n_bus) (ucast n_device) (ucast n_function)" and caps: "capability_register_ok cfg b"
  shows "\<exists>w'. visit_configuration_space fuel ps n_bus n_device n_function lapic_id w =
    Inr (if present cfg b then Some (pci_info cfg b) else None, w') \<and> ok w'"
proof -
  note inl = pci_inl_static[OF st]
  have a: "0x80000000 OR push_bit 16 n_bus OR push_bit 11 n_device OR push_bit 8 n_function = config_address b OR ucast (0 AND 0xFC :: u16)"
    using visit_address(1)[OF v] b by simp
  obtain w0 where w0: "pci_inl ps b 0 w = (reg_of cfg b 0, w0)" "ok w0" by (rule inl[OF assms(2)])
  obtain w1 where w1: "pci_inl ps b 0x2c w0 = (reg_of cfg b 0x2c, w1)" "ok w1" by (rule inl[OF w0(2)])
  obtain w2 where w2: "pci_inl ps b 0x2e w1 = (reg_of cfg b 0x2e, w2)" "ok w2" by (rule inl[OF w1(2)])
  obtain w3 where w3: "pci_inl ps b 0x3c w2 = (reg_of cfg b 0x3c, w3)" "ok w3" by (rule inl[OF w2(2)])
  obtain w4 where w4: "pci_inl ps b 0x3c w3 = (reg_of cfg b 0x3c, w4)" "ok w4" by (rule inl[OF w3(2)])
  obtain w5 where w5: "pci_inl ps b 0x4 w4 = (reg_of cfg b 0x4, w5)" "ok w5" by (rule inl[OF w4(2)])
  have st5: "read_status_register ps b w4 = (ucast (drop_bit 16 (reg_of cfg b 0x4 AND 0xffff0000)), w5)"
    using w5(1) by (simp add: read_status_register_def)
  obtain w6 where w6: "(if has_capabilities cfg b then cap_walk fuel ps lapic_id b REG_CAP_PTR w5 else Inr (None, w5)) = Inr (None, w6)" "ok w6"
    using cap_walk_static[OF st w5(2) _ _ assms(6), of b lapic_id] caps w5(2)
    unfolding capability_register_ok_def by (cases "has_capabilities cfg b") auto
  have r0: "inl ps CONFIG_DATA (outl ps CONFIG_ADDRESS (config_address b OR ucast (0 AND 0xFC :: u16)) w) = (reg_of cfg b 0, w0)"
    using w0(1) by (simp add: pci_inl_def)
  show ?thesis
  proof (cases "present cfg b")
    case True
    then show ?thesis
      using w6 w1(1) w2(1) w3(1) w4(1) st5 r0
      by (simp add: visit_configuration_space_def a b[symmetric] present_def pci_info_def has_capabilities_def Let_def)
  next
    case False
    then show ?thesis using r0 w0(2) by (simp add: visit_configuration_space_def a present_def Let_def)
  qed
qed

text \<open>The list that the enumeration collects.\<close>

definition bdf_at :: "nat \<Rightarrow> nat \<Rightarrow> nat \<Rightarrow> bdf" where
  "bdf_at bus dev f = BDF (of_nat bus) (of_nat dev) (of_nat f)"

definition function_list :: "(u32 \<Rightarrow> u32) \<Rightarrow> nat \<Rightarrow> nat \<Rightarrow> pci_device list" where
  "function_list cfg bus dev = concat (map (\<lambda>f. if present cfg (bdf_at bus dev f) then [pci_info cfg (bdf_at bus dev f)] else []) [0..<8])"

definition device_list :: "(u32 \<Rightarrow> u32) \<Rightarrow> nat \<Rightarrow> nat \<Rightarrow> pci_device list" where
  "device_list cfg bus dev =
     (if present cfg (bdf_at bus dev 0)
      then (if multi_function cfg (bdf_at bus dev 0) then function_list cfg bus dev else []) @ [pci_info cfg (bdf_at bus dev 0)]
      else [])"

definition bus_list :: "(u32 \<Rightarrow> u32) \<Rightarrow> pci_device list" where
  "bus_list cfg = concat (map (\<lambda>bus. concat (map (device_list cfg bus) [0..<32])) [0..<256])"

lemma ucast_small: "n < 2 ^ k \<Longrightarrow> k \<le> LENGTH('a) \<Longrightarrow> k \<le> 32 \<Longrightarrow> ucast (of_nat n :: u32) = (of_nat n :: 'a :: len word)"
proof -
  assume "n < 2 ^ k" "k \<le> LENGTH('a)" "k \<le> 32"
  then have "n < 2 ^ LENGTH('a)" "n < 2 ^ 32" by (meson order_less_le_trans power_increasing one_le_numeral)+
  then show ?thesis by (simp add: word_unat_eq_iff unsigned_ucast_eq unat_of_nat take_bit_eq_mod)
qed

lemma bdf_at_ucast: "bus < 256 \<Longrightarrow> dev < 32 \<Longrightarrow> f < 8 \<Longrightarrow>
    bdf_at bus dev f = BDF (ucast (of_nat bus :: u32)) (ucast (of_nat dev :: u32)) (ucast (of_nat f :: u32))"
  using ucast_small[of bus 8, where 'a = 16] ucast_small[of dev 5, where 'a = 16] ucast_small[of f 3, where 'a = 8]
  by (simp add: bdf_at_def)

lemma of_nat_below: "n < 2 ^ k \<Longrightarrow> k < 32 \<Longrightarrow> of_nat n < (2 ^ k :: u32)"
proof -
  assume n: "n < 2 ^ k" and k: "k < 32"
  then have "n < 2 ^ 32" by (meson order_less_le_trans power_increasing one_le_numeral less_imp_le)
  then show ?thesis using n k by (simp add: word_less_nat_alt unat_of_nat unat_exp_word)
qed

lemma visit_at:
  assumes "static_config ps ok cfg" and "ok w" and v: "bus < 256" "dev < 32" "f < 8" and "2 \<le> fuel"
    and "capability_register_ok cfg (bdf_at bus dev f)"
  shows "\<exists>w'. visit_configuration_space fuel ps (of_nat bus) (of_nat dev) (of_nat f) lapic_id w =
    Inr (if present cfg (bdf_at bus dev f) then Some (pci_info cfg (bdf_at bus dev f)) else None, w') \<and> ok w'"
  using v of_nat_below[of bus 8] of_nat_below[of dev 5] of_nat_below[of f 3]
  by (intro visit_static[OF assms(1,2) _ _ _ assms(6) bdf_at_ucast[OF v] assms(7)]) simp_all

lemma visit_functions_static:
  assumes "static_config ps ok cfg" and "ok w" and v: "bus < 256" "dev < 32" and "2 \<le> fuel"
    and "\<And>f. f < 8 \<Longrightarrow> capability_register_ok cfg (bdf_at bus dev f)"
  shows "\<exists>w'. visit_functions fuel ps (of_nat bus) (of_nat dev) lapic_id (devs, w) = Inr (devs @ function_list cfg bus dev, w') \<and> ok w'"
proof -
  let ?step = "\<lambda>n_function (devices, w).
    rbind (visit_configuration_space fuel ps (of_nat bus) (of_nat dev) n_function lapic_id w) (\<lambda>(d, w).
    Inr (case d of Some device \<Rightarrow> (devices @ [device], w) | None \<Rightarrow> (devices, w)))"
  let ?g = "\<lambda>f. if present cfg (bdf_at bus dev f) then [pci_info cfg (bdf_at bus dev f)] else []"
  have "\<exists>w'. ?step (of_nat f) (ds, w) = Inr (ds @ ?g f, w') \<and> ok w'" if f: "f \<in> set [0..<8]" and w: "ok w" for f ds w
  proof -
    obtain w' where "visit_configuration_space fuel ps (of_nat bus) (of_nat dev) (of_nat f) lapic_id w =
        Inr (if present cfg (bdf_at bus dev f) then Some (pci_info cfg (bdf_at bus dev f)) else None, w')" "ok w'"
      using visit_at[OF assms(1) w v _ assms(5) assms(6), of f lapic_id] f by auto
    then show ?thesis by simp
  qed
  from rfold_collect[where xs = "[0..<8]" and f = "\<lambda>f. ?step (of_nat f)" and g = ?g and ok = ok, OF this assms(2)]
  show ?thesis by (simp add: visit_functions_def function_list_def rfold_map)
qed

lemma visit_device_static:
  assumes st: "static_config ps ok cfg" and "ok w" and v: "bus < 256" "dev < 32" and "2 \<le> fuel"
    and caps: "\<And>f. f < 8 \<Longrightarrow> capability_register_ok cfg (bdf_at bus dev f)"
  shows "\<exists>w'. visit_device fuel ps lapic_id (of_nat bus) (of_nat dev) (devs, w) = Inr (devs @ device_list cfg bus dev, w') \<and> ok w'"
proof -
  let ?b = "bdf_at bus dev 0"
  obtain w1 where w1: "visit_configuration_space fuel ps (of_nat bus) (of_nat dev) 0 lapic_id w =
      Inr (if present cfg ?b then Some (pci_info cfg ?b) else None, w1)" "ok w1"
    using visit_at[OF st assms(2) v _ assms(5) caps, of 0 lapic_id] by auto
  obtain w2 where w2: "pci_inl ps ?b 0xC w1 = (reg_of cfg ?b 0xC, w2)" "ok w2" by (rule pci_inl_static[OF st w1(2)])
  obtain w3 where w3: "visit_functions fuel ps (of_nat bus) (of_nat dev) lapic_id (devs, w2) = Inr (devs @ function_list cfg bus dev, w3)" "ok w3"
    using visit_functions_static[OF st w2(2) v assms(5) caps] by blast
  have h: "read_header_type ps ?b w1 = (ucast (drop_bit 16 (reg_of cfg ?b 0xC AND 0x00FF0000)), w2)"
    using w2(1) by (simp add: read_header_type_def)
  have "dev_bdf (pci_info cfg ?b) = ?b" by (simp add: pci_info_def)
  then show ?thesis
    using w1 w2(2) w3 h
    by (cases "present cfg ?b"; cases "multi_function cfg ?b") (simp_all add: visit_device_def device_list_def multi_function_def)
qed

lemma enumerate_static:
  assumes st: "static_config ps ok cfg" and "ok w" and "2 \<le> fuel"
    and caps: "\<And>b. valid_bdf b \<Longrightarrow> capability_register_ok cfg b"
  shows "\<exists>w'. enumerate_pci_bus fuel ps lapic_id (devs, w) = Inr (devs @ bus_list cfg, w') \<and> ok w'"
proof -
  have c: "capability_register_ok cfg (bdf_at bus dev f)" if "bus < 256" "dev < 32" "f < 8" for bus dev f
    using that of_nat_below[of bus 8] of_nat_below[of dev 5] of_nat_below[of f 3] bdf_at_ucast[OF that]
    by (intro caps) (simp add: visit_address(2))
  let ?dev = "\<lambda>bus dev. visit_device fuel ps lapic_id (of_nat bus) (of_nat dev)"
  have d: "\<exists>w'. ?dev bus dev (ds, w) = Inr (ds @ device_list cfg bus dev, w') \<and> ok w'"
    if "bus < 256" and "dev \<in> set [0..<32]" and "ok w" for bus dev ds w
    using visit_device_static[OF st that(3,1) _ assms(3) c] that by simp
  have "\<exists>w'. rfold (?dev bus) [0..<32] (ds, w) = Inr (ds @ concat (map (device_list cfg bus) [0..<32]), w') \<and> ok w'"
    if "bus \<in> set [0..<256]" and "ok w" for bus ds w
    using rfold_collect[where xs = "[0..<32]" and f = "?dev bus" and ok = ok, OF d that(2)] that(1) by simp
  from rfold_collect[where xs = "[0..<256]" and ok = ok, OF this assms(2)] show ?thesis
    by (simp add: enumerate_pci_bus_def bus_list_def rfold_map)
qed

text \<open>How often a function is in the list.\<close>

lemma count_concat_zero: "(\<And>x. x \<in> set xs \<Longrightarrow> count_list (g x) b = 0) \<Longrightarrow> count_list (concat (map g xs)) b = 0"
  by (induction xs) auto

lemma count_concat_at:
  assumes "distinct xs" and "x0 \<in> set xs" and "\<And>x. x \<in> set xs \<Longrightarrow> x \<noteq> x0 \<Longrightarrow> count_list (g x) b = 0"
  shows "count_list (concat (map g xs)) b = count_list (g x0) b"
  using assms
proof (induction xs)
  case (Cons x xs)
  have "count_list (concat (map g xs)) b = 0" if "x0 \<notin> set xs"
    using Cons.prems(3) that by (intro count_concat_zero) (metis list.set_intros(2))
  then show ?case using Cons by (cases "x = x0") auto
qed simp

lemma count_bdfs_functions:
  "f < 8 \<Longrightarrow> count_list (map dev_bdf (function_list cfg bus dev)) (bdf_at bus dev f) = of_bool (present cfg (bdf_at bus dev f))"
proof -
  assume f: "f < 8"
  have inj: "bdf_at bus dev g = bdf_at bus dev f \<longleftrightarrow> g = f" if "g < 8" for g
    using that f by (auto simp: bdf_at_def word_unat_eq_iff unat_of_nat)
  have "map dev_bdf (function_list cfg bus dev) =
      concat (map (\<lambda>f. if present cfg (bdf_at bus dev f) then [bdf_at bus dev f] else []) [0..<8])"
    by (simp add: function_list_def map_concat pci_info_def comp_def if_distrib cong: if_cong)
  then show ?thesis using count_concat_at[of "[0..<8]" f "\<lambda>f. if present cfg (bdf_at bus dev f) then [bdf_at bus dev f] else []" "bdf_at bus dev f"] f inj
    by auto
qed

lemma device_list_bdfs: "b \<in> set (map dev_bdf (device_list cfg bus dev)) \<Longrightarrow> \<exists>f<8. b = bdf_at bus dev f"
proof -
  have "\<exists>f<8. bdf_at bus dev 0 = bdf_at bus dev f" by (rule exI[of _ 0]) simp
  moreover assume "b \<in> set (map dev_bdf (device_list cfg bus dev))"
  ultimately show ?thesis by (auto simp: device_list_def function_list_def pci_info_def split: if_splits)
qed

lemma bdf_at_inj:
  assumes "bus < 256" "dev < 32" "f < 8" "bus' < 256" "dev' < 32" "f' < 8" and "bdf_at bus dev f = bdf_at bus' dev' f'"
  shows "bus = bus'" and "dev = dev'" and "f = f'"
  using assms by (auto simp: bdf_at_def word_unat_eq_iff unat_of_nat)

lemma count_bus_list:
  assumes v: "bus < 256" "dev < 32" "f < 8"
  shows "count_list (map dev_bdf (bus_list cfg)) (bdf_at bus dev f) = count_list (map dev_bdf (device_list cfg bus dev)) (bdf_at bus dev f)"
proof -
  let ?b = "bdf_at bus dev f"
  let ?devs = "\<lambda>bus. concat (map (\<lambda>dev. map dev_bdf (device_list cfg bus dev)) [0..<32])"
  have e: "map dev_bdf (bus_list cfg) = concat (map ?devs [0..<256])" by (simp add: bus_list_def map_concat comp_def)
  have elsewhere: "count_list (map dev_bdf (device_list cfg bus' dev')) ?b = 0"
    if "bus' < 256" "dev' < 32" "bus' \<noteq> bus \<or> dev' \<noteq> dev" for bus' dev'
    using that v device_list_bdfs[of ?b cfg bus' dev'] bdf_at_inj(1,2)[OF v that(1,2)] by (intro count_notin) blast
  have "count_list (?devs bus') ?b = 0" if "bus' \<in> set [0..<256]" "bus' \<noteq> bus" for bus'
    using that elsewhere by (intro count_concat_zero) simp
  then have "count_list (concat (map ?devs [0..<256])) ?b = count_list (?devs bus) ?b"
    using v(1) by (intro count_concat_at) simp_all
  also have "\<dots> = count_list (map dev_bdf (device_list cfg bus dev)) ?b"
    using v elsewhere[OF v(1)] by (intro count_concat_at) simp_all
  finally show ?thesis unfolding e .
qed

lemma count_device_list:
  assumes "f < 8"
  shows "count_list (map dev_bdf (device_list cfg bus dev)) (bdf_at bus dev f) =
    (if present cfg (bdf_at bus dev 0)
     then (if multi_function cfg (bdf_at bus dev 0) then of_bool (present cfg (bdf_at bus dev f)) else 0) + of_bool (f = 0)
     else 0)"
proof -
  have "bdf_at bus dev 0 = bdf_at bus dev f \<longleftrightarrow> f = 0"
    using assms by (auto simp: bdf_at_def word_unat_eq_iff unat_of_nat)
  then show ?thesis using count_bdfs_functions[OF assms, of cfg bus dev] by (auto simp: device_list_def pci_info_def)
qed

lemma valid_bdf_at: "valid_bdf b \<longleftrightarrow> (\<exists>bus<256. \<exists>dev<32. \<exists>f<8. b = bdf_at bus dev f)"
proof
  assume "valid_bdf b"
  then have "unat (bus_number b) < 256" "unat (device_number b) < 32" "unat (function_number b) < 8"
    by (simp_all add: valid_bdf_def word_less_nat_alt)
  moreover have "b = bdf_at (unat (bus_number b)) (unat (device_number b)) (unat (function_number b))" by (simp add: bdf_at_def)
  ultimately show "\<exists>bus<256. \<exists>dev<32. \<exists>f<8. b = bdf_at bus dev f" by blast
next
  assume "\<exists>bus<256. \<exists>dev<32. \<exists>f<8. b = bdf_at bus dev f"
  then show "valid_bdf b" by (auto simp: valid_bdf_def bdf_at_def word_less_nat_alt unat_of_nat)
qed

lemma valid_at [intro]: "bus < 256 \<Longrightarrow> dev < 32 \<Longrightarrow> f < 8 \<Longrightarrow> valid_bdf (bdf_at bus dev f)"
  unfolding valid_bdf_at by blast

lemma valid_at_0 [intro]: "bus < 256 \<Longrightarrow> dev < 32 \<Longrightarrow> valid_bdf (bdf_at bus dev 0)"
  by (rule valid_at) simp_all

lemma dev_bdf_info [simp]: "dev_bdf (pci_info cfg b) = b"
  by (simp add: pci_info_def)

lemma bus_list_info: "d \<in> set (bus_list cfg) \<Longrightarrow> d = pci_info cfg (dev_bdf d) \<and> valid_bdf (dev_bdf d) \<and> present cfg (dev_bdf d)"
  by (auto simp: bus_list_def device_list_def function_list_def split: if_splits)

text \<open>A driver gets exactly the devices with its identifiers, and the others stay.\<close>

lemma get_device_partitions:
  "let (taken, rest) = get_device vendor device devices in
     taken = filter (\<lambda>d. vendor_id d = vendor \<and> device_id d = device) devices \<and>
     mset devices = mset taken + mset rest \<and> get_device vendor device rest = ([], rest)"
  by (auto simp: get_device_def Let_def conj_commute intro!: filter_cong)

section \<open>Properties\<close>

text \<open>C22: Enumerating the bus: when the configuration space reads the same throughout and the register of the
  capability pointer is as the PCI specification has it, the enumeration ends and appends to the list
  the functions that are present, with the identifiers read from them, and no others. A function of a
  device whose function 0 is present is listed once if it is function 0 or the device has several
  functions, except that function 0 of a device with several functions is listed twice. No MSI capability
  is ever found, although the devices may have one: the walk starts at the register that holds the
  pointer and not at the capability it points to.\<close>

theorem enumerate_lists_functions:
  assumes "static_config ps ok cfg" and "ok w" and "2 \<le> fuel" and "\<And>b. valid_bdf b \<Longrightarrow> capability_register_ok cfg b"
  shows "\<exists>found w'. enumerate_pci_bus fuel ps lapic_id (devs, w) = Inr (devs @ found, w') \<and>
    (\<forall>d\<in>set found. d = pci_info cfg (dev_bdf d) \<and> valid_bdf (dev_bdf d) \<and> present cfg (dev_bdf d) \<and> msi_capability_pointer d = None) \<and>
    (\<forall>bus<256. \<forall>dev<32. \<forall>f<8. count_list (map dev_bdf found) (bdf_at bus dev f) =
      (if present cfg (bdf_at bus dev 0)
       then (if multi_function cfg (bdf_at bus dev 0) then of_bool (present cfg (bdf_at bus dev f)) else 0) + of_bool (f = 0)
       else 0))"
proof -
  obtain w' where w': "enumerate_pci_bus fuel ps lapic_id (devs, w) = Inr (devs @ bus_list cfg, w')"
    using enumerate_static[OF assms] by blast
  have "msi_capability_pointer d = None" if "d \<in> set (bus_list cfg)" for d
  proof -
    have "msi_capability_pointer (pci_info cfg (dev_bdf d)) = None" by (simp add: pci_info_def)
    then show ?thesis using bus_list_info[OF that] by simp
  qed
  then show ?thesis using w' bus_list_info count_bus_list count_device_list
    by (intro exI[of _ "bus_list cfg"] exI[of _ w'] conjI) auto
qed

text \<open>A bus with one device that has two functions, behind the two ports.\<close>

definition sample_cfg :: "u32 \<Rightarrow> u32" where
  "sample_cfg a = (if a = 0x80001800 then 0x813910ec else if a = 0x80001900 then 0x12348086
     else if a = 0x8000180c then 0x00800000 else if a AND 0xff = 0 then 0xffffffff else 0)"

definition sample_ports :: "u32 ports" where
  "sample_ports = \<lparr>port_out8 = (\<lambda>_ _ w. w), port_in8 = (\<lambda>_ w. (0, w)), port_out16 = (\<lambda>_ _ w. w), port_in16 = (\<lambda>_ w. (0, w)),
     port_out32 = (\<lambda>p v w. if p = CONFIG_ADDRESS then v else w), port_in32 = (\<lambda>p w. (if p = CONFIG_DATA then sample_cfg w else 0, w))\<rparr>"

lemma sample_static: "static_config sample_ports (\<lambda>_. True) sample_cfg"
  by (simp add: static_config_def sample_ports_def)

lemma sample_status: "sample_cfg (config_address b OR 4) = 0"
  if "valid_bdf b"
proof -
  have e: "(config_address b OR 4) AND 0xff = 4"
    using config_address_fields(4)[OF that] by (simp add: bit.conj_disj_distrib2)
  have "config_address b OR 4 \<noteq> 0x80001800" "config_address b OR 4 \<noteq> 0x80001900" "config_address b OR 4 \<noteq> 0x8000180c"
    using e by auto
  then show ?thesis using e by (simp add: sample_cfg_def)
qed

theorem enumerate_lists_functions_witness:
  "\<exists>found w'. enumerate_pci_bus 2 sample_ports 0 ([], 0) = Inr (found, w') \<and>
    count_list (map dev_bdf found) (BDF 0 3 0) = 2 \<and> count_list (map dev_bdf found) (BDF 0 3 1) = 1 \<and>
    count_list (map dev_bdf found) (BDF 0 3 2) = 0"
proof -
  have c: "capability_register_ok sample_cfg b" if "valid_bdf b" for b
    using sample_status[OF that] by (simp add: capability_register_ok_def has_capabilities_def reg_of_def)
  have e: "\<forall>bus<256. \<forall>dev<32. \<forall>f<8. P bus dev f \<Longrightarrow> P 0 3 0 \<and> P 0 3 1 \<and> P 0 3 2" for P :: "nat \<Rightarrow> nat \<Rightarrow> nat \<Rightarrow> bool"
    by simp
  have p: "present sample_cfg (bdf_at 0 3 0)" "present sample_cfg (bdf_at 0 3 1)" "\<not> present sample_cfg (bdf_at 0 3 2)"
    "multi_function sample_cfg (bdf_at 0 3 0)"
    by (simp_all add: present_def multi_function_def reg_of_def sample_cfg_def config_address_def bdf_at_def)
  have b: "bdf_at 0 3 0 = BDF 0 3 0" "bdf_at 0 3 1 = BDF 0 3 1" "bdf_at 0 3 2 = BDF 0 3 2" by (simp_all add: bdf_at_def)
  obtain found w' where f: "enumerate_pci_bus 2 sample_ports 0 ([], 0) = Inr ([] @ found, w')"
    "\<forall>bus<256. \<forall>dev<32. \<forall>f<8. count_list (map dev_bdf found) (bdf_at bus dev f) =
      (if present sample_cfg (bdf_at bus dev 0)
       then (if multi_function sample_cfg (bdf_at bus dev 0) then of_bool (present sample_cfg (bdf_at bus dev f)) else 0) + of_bool (f = 0)
       else 0)"
    using enumerate_lists_functions[OF sample_static _ _ c, where w = 0 and fuel = 2 and lapic_id = 0 and devs = "[]"] by auto
  from e[OF f(2)] show ?thesis using f(1) p unfolding b by auto
qed

end
