(* ===== verification/Byte_Builder.thy ===== *)
theory Byte_Builder
  imports Prelude
begin

text \<open>
  The contract that the two packet builders of \<open>src/net\<close> share: a buffer, a position in it, and an
  operation that stores bytes at the position and moves it past them, or panics when they do not fit.
\<close>

text \<open>A builder that has written \<open>out\<close> and left the rest of \<open>buf\<close> alone.\<close>

definition built :: "('b \<Rightarrow> u8 list) \<Rightarrow> ('b \<Rightarrow> nat) \<Rightarrow> u8 list \<Rightarrow> u8 list \<Rightarrow> 'b \<Rightarrow> bool" where
  "built bbuf bpos buf out b \<longleftrightarrow>
     bpos b = length out \<and> bbuf b = out @ drop (length out) buf \<and> length out \<le> length buf"

locale byte_builder =
  fixes bbuf :: "'b \<Rightarrow> u8 list" and bpos :: "'b \<Rightarrow> nat" and bput :: "u8 list \<Rightarrow> 'b \<Rightarrow> 'b res"
  assumes bput_fits: "bpos b + length bytes \<le> length (bbuf b) \<Longrightarrow>
      \<exists>b'. bput bytes b = Inr b' \<and> bpos b' = bpos b + length bytes \<and>
        bbuf b' = take (bpos b) (bbuf b) @ bytes @ drop (bpos b + length bytes) (bbuf b)"
    and bput_overrun: "\<not> bpos b + length bytes \<le> length (bbuf b) \<Longrightarrow> bput bytes b = Inl OutOfBounds"
begin

lemma put_built:
  assumes "built bbuf bpos buf out b" and "length out + length bytes \<le> length buf"
  shows "\<exists>b'. bput bytes b = Inr b' \<and> built bbuf bpos buf (out @ bytes) b'"
  using bput_fits[of b bytes] assms by (auto simp: built_def add.commute)

lemma put_all_built:
  assumes "built bbuf bpos buf out b" and "length out + length (concat chunks) \<le> length buf"
  shows "\<exists>b'. rfold bput chunks b = Inr b' \<and> built bbuf bpos buf (out @ concat chunks) b'"
  using assms
proof (induction chunks arbitrary: out b)
  case (Cons c chunks)
  obtain b1 where b1: "bput c b = Inr b1" "built bbuf bpos buf (out @ c) b1"
    using put_built[OF Cons.prems(1), of c] Cons.prems(2) by auto
  show ?case using Cons.IH[OF b1(2)] Cons.prems(2) b1(1) by simp
qed simp

lemma put_all_overrun:
  assumes "built bbuf bpos buf out b" and "length buf < length out + length (concat chunks)"
  shows "rfold bput chunks b = Inl OutOfBounds"
  using assms
proof (induction chunks arbitrary: out b)
  case Nil
  then show ?case by (simp add: built_def)
next
  case (Cons c chunks)
  show ?case
  proof (cases "length out + length c \<le> length buf")
    case True
    obtain b1 where b1: "bput c b = Inr b1" "built bbuf bpos buf (out @ c) b1"
      using put_built[OF Cons.prems(1) True] by auto
    show ?thesis using Cons.IH[OF b1(2)] Cons.prems(2) b1(1) by simp
  next
    case False
    then show ?thesis using bput_overrun[of b c] Cons.prems(1) by (simp add: built_def)
  qed
qed

end

end
