(* ===== verification/Ethernet.thy ===== *)
theory Ethernet
  imports Byte_Builder
begin

text \<open>
  Ethernet frames (\<open>src/net/ethernet.rs\<close>): reading the fields of a received frame and building a frame
  in a transmit buffer. A frame is the list of its bytes; an access past its end panics. The steps of
  the builder, which the source tells apart by a phantom type, are the functions that move from one to
  the next.
\<close>

section \<open>Model\<close>

datatype mac_address = MACAddress u8 u8 u8 u8 u8 u8

text \<open>The conversions from and to \<open>[u8; 6]\<close>; the length of an array is part of its type.\<close>

fun mac_from :: "u8 list \<Rightarrow> mac_address res" where
  "mac_from [a, b, c, d, e, f] = Inr (MACAddress a b c d e f)"
| "mac_from _ = Inl OutOfBounds"

fun mac_bytes :: "mac_address \<Rightarrow> u8 list" where
  "mac_bytes (MACAddress a b c d e f) = [a, b, c, d, e, f]"

datatype ether_type = ARP | Other u8 u8

fun ethertype_as_bytes :: "ether_type \<Rightarrow> u8 list" where
  "ethertype_as_bytes ARP = [0x08, 0x06]"
| "ethertype_as_bytes (Other a b) = [a, b]"

record frame =
  frame_bytes :: "u8 list"

definition try_from_bytes :: "u8 list \<Rightarrow> (frame, string) rust_result" where
  "try_from_bytes bytes =
     (if length bytes < 64 \<or> length bytes > 1534
      then Err ''Ethernet frame length out of valid bounds''
      else Ok \<lparr>frame_bytes = bytes\<rparr>)"

definition frame_len :: "frame \<Rightarrow> nat" where
  "frame_len f = length (frame_bytes f)"

definition frame_dest :: "frame \<Rightarrow> mac_address res" where
  "frame_dest f = rbind (slice (frame_bytes f) 0 6) mac_from"

definition frame_src :: "frame \<Rightarrow> mac_address res" where
  "frame_src f = rbind (slice (frame_bytes f) 6 12) mac_from"

type_synonym vlan_tag = "u8 \<times> u8"

text \<open>The loop of \<open>vlan_tags\<close>: \<open>bytes.split_at(2)\<close> panics when less than two bytes are left.\<close>

fun vlan_loop :: "nat \<Rightarrow> u8 list \<Rightarrow> vlan_tag option list \<Rightarrow> vlan_tag option list res" where
  "vlan_loop i (a # b # rest) tags =
     (if a = 0x81 \<and> b = 0x00
      then if i \<ge> 2 then vlan_loop i rest tags
           else case rest of
                  x # y # _ \<Rightarrow> if i < length tags then vlan_loop i rest (tags[i := Some (x, y)]) else Inl OutOfBounds
                | _ \<Rightarrow> Inl OutOfBounds
      else Inr tags)"
| "vlan_loop i _ tags = Inl OutOfBounds"

definition frame_vlan_tags :: "frame \<Rightarrow> vlan_tag option list res" where
  "frame_vlan_tags f = rbind (slice_from (frame_bytes f) 12) (\<lambda>bytes. vlan_loop 0 bytes [None, None])"

fun ethertype_loop :: "u8 list \<Rightarrow> ether_type res" where
  "ethertype_loop (a # b # rest) =
     (if a = 0x81 \<and> b = 0x00
      then case rest of _ # _ # bytes \<Rightarrow> ethertype_loop bytes | _ \<Rightarrow> Inl OutOfBounds
      else Inr (if a = 0x8 \<and> b = 0x6 then ARP else Other a b))"
| "ethertype_loop _ = Inl OutOfBounds"

definition frame_ethertype :: "frame \<Rightarrow> ether_type res" where
  "frame_ethertype f = rbind (slice_from (frame_bytes f) 12) ethertype_loop"

fun payload_loop :: "u8 list \<Rightarrow> u8 list res" where
  "payload_loop (a # b # rest) =
     (if a = 0x81 \<and> b = 0x00
      then case rest of _ # _ # bytes \<Rightarrow> payload_loop bytes | _ \<Rightarrow> Inl OutOfBounds
      else Inr rest)"
| "payload_loop _ = Inl OutOfBounds"

definition payload_with_crc :: "frame \<Rightarrow> u8 list res" where
  "payload_with_crc f = rbind (slice_from (frame_bytes f) 12) payload_loop"

definition frame_payload :: "frame \<Rightarrow> u8 list res" where
  "frame_payload f =
     rbind (payload_with_crc f) (\<lambda>p. rbind (nat_sub (length p) 4) (\<lambda>n. slice p 0 n))"

definition frame_crc :: "frame \<Rightarrow> u8 list res" where
  "frame_crc f =
     rbind (payload_with_crc f) (\<lambda>p. rbind (nat_sub (length p) 4) (\<lambda>n. slice_from p n))"

subsection \<open>Building frames\<close>

record frame_builder =
  fb_buf :: "u8 list"
  fb_pos :: nat

definition frame_builder_new :: "u8 list \<Rightarrow> frame_builder" where
  "frame_builder_new buf = \<lparr>fb_buf = buf, fb_pos = 0\<rparr>"

text \<open>\<open>self.buf[self.pos..self.pos + n].copy_from_slice(bytes); self.pos += n\<close>\<close>

definition fb_put :: "u8 list \<Rightarrow> frame_builder \<Rightarrow> frame_builder res" where
  "fb_put bytes b =
     rbind (write_slice (fb_buf b) (fb_pos b) bytes) (\<lambda>buf.
     Inr (b\<lparr>fb_buf := buf, fb_pos := fb_pos b + length bytes\<rparr>))"

definition build_dest :: "mac_address \<Rightarrow> frame_builder \<Rightarrow> frame_builder res" where
  "build_dest dest b = fb_put (mac_bytes dest) b"

definition build_src :: "mac_address \<Rightarrow> frame_builder \<Rightarrow> frame_builder res" where
  "build_src src b = fb_put (mac_bytes src) b"

definition tag_bytes :: "vlan_tag option list \<Rightarrow> u8 list" where
  "tag_bytes tags = concat (map (\<lambda>t. case t of None \<Rightarrow> [] | Some (x, y) \<Rightarrow> [0x81, 0x00, x, y]) tags)"

definition build_vlan_tags :: "vlan_tag option list \<Rightarrow> frame_builder \<Rightarrow> frame_builder res" where
  "build_vlan_tags tags b =
     rfold (\<lambda>x b. if fb_pos b < length (fb_buf b)
                  then Inr (b\<lparr>fb_buf := (fb_buf b)[fb_pos b := x], fb_pos := fb_pos b + 1\<rparr>)
                  else Inl OutOfBounds) (tag_bytes tags) b"

definition build_ethertype :: "ether_type \<Rightarrow> frame_builder \<Rightarrow> frame_builder res" where
  "build_ethertype et b = fb_put (ethertype_as_bytes et) b"

text \<open>The writer gets the rest of the buffer and returns how much of it is the payload.\<close>

type_synonym writer = "u8 list \<Rightarrow> (nat \<times> u8 list) res"

definition build_payload :: "writer \<Rightarrow> frame_builder \<Rightarrow> (frame \<times> u8 list) res" where
  "build_payload writer b =
     rbind (slice_from (fb_buf b) (fb_pos b)) (\<lambda>rest.
     rbind (writer rest) (\<lambda>(len, rest').
     let buf = take (fb_pos b) (fb_buf b) @ rest' in
     rbind (slice buf 0 (fb_pos b + len)) (\<lambda>bytes. Inr (\<lparr>frame_bytes = bytes\<rparr>, buf))))"

text \<open>The chain of the builder, as the driver calls it.\<close>

definition build_frame ::
  "u8 list \<Rightarrow> mac_address \<Rightarrow> mac_address \<Rightarrow> vlan_tag option list \<Rightarrow> ether_type \<Rightarrow> writer \<Rightarrow> (frame \<times> u8 list) res" where
  "build_frame buf dest src tags et writer =
     rbind (build_dest dest (frame_builder_new buf)) (\<lambda>b.
     rbind (build_src src b) (\<lambda>b.
     rbind (build_vlan_tags tags b) (\<lambda>b.
     rbind (build_ethertype et b) (\<lambda>b. build_payload writer b))))"

section \<open>Lemmas\<close>

interpretation frame_bytes_builder: byte_builder fb_buf fb_pos fb_put
  by unfold_locales (auto simp: fb_put_def write_slice_def)

lemma built_frame_new: "built fb_buf fb_pos buf [] (frame_builder_new buf)"
  by (simp add: built_def frame_builder_new_def)

text \<open>The stores of \<open>vlan_tags\<close>, byte by byte.\<close>

lemma build_vlan_tags_put: "build_vlan_tags tags b = rfold fb_put (map (\<lambda>x. [x]) (tag_bytes tags)) b"
proof -
  have "rfold (\<lambda>x b. if fb_pos b < length (fb_buf b)
      then Inr (b\<lparr>fb_buf := (fb_buf b)[fb_pos b := x], fb_pos := fb_pos b + 1\<rparr>)
      else Inl OutOfBounds) xs b = rfold fb_put (map (\<lambda>x. [x]) xs) b" for xs b
    by (induction xs arbitrary: b) (simp_all add: fb_put_def write_slice_def upd_conv_take_nth_drop)
  then show ?thesis by (simp add: build_vlan_tags_def)
qed

text \<open>The bytes of a frame as the builder lays them out.\<close>

definition frame_header :: "mac_address \<Rightarrow> mac_address \<Rightarrow> vlan_tag option list \<Rightarrow> ether_type \<Rightarrow> u8 list" where
  "frame_header dest src tags et = mac_bytes dest @ mac_bytes src @ tag_bytes tags @ ethertype_as_bytes et"

lemma length_mac_bytes [simp]: "length (mac_bytes a) = 6"
  by (cases a) simp

lemma mac_from_bytes [simp]: "mac_from (mac_bytes a) = Inr a"
  by (cases a) simp

lemma length_ethertype_as_bytes [simp]: "length (ethertype_as_bytes et) = 2"
  by (cases et) simp_all

lemma length_frame_header [simp]: "length (frame_header dest src tags et) = 14 + length (tag_bytes tags)"
  by (simp add: frame_header_def)

lemma build_payload_built:
  assumes "built fb_buf fb_pos buf out b" and "writer (drop (length out) buf) = Inr (len, rest)" and "len \<le> length rest"
  shows "build_payload writer b = Inr (\<lparr>frame_bytes = out @ take len rest\<rparr>, out @ rest)"
  using assms by (simp add: build_payload_def built_def slice_from_def slice_def)

lemma build_frame_layout:
  assumes "14 + length (tag_bytes tags) \<le> length buf"
    and "writer (drop (14 + length (tag_bytes tags)) buf) = Inr (len, rest)" and "len \<le> length rest"
  shows "build_frame buf dest src tags et writer =
    Inr (\<lparr>frame_bytes = frame_header dest src tags et @ take len rest\<rparr>, frame_header dest src tags et @ rest)"
proof -
  obtain b1 where b1: "build_dest dest (frame_builder_new buf) = Inr b1" "built fb_buf fb_pos buf (mac_bytes dest) b1"
    using frame_bytes_builder.put_built[OF built_frame_new, of "mac_bytes dest" buf] assms(1) by (auto simp: build_dest_def)
  obtain b2 where b2: "build_src src b1 = Inr b2" "built fb_buf fb_pos buf (mac_bytes dest @ mac_bytes src) b2"
    using frame_bytes_builder.put_built[OF b1(2), of "mac_bytes src"] assms(1) by (auto simp: build_src_def)
  obtain b3 where b3: "build_vlan_tags tags b2 = Inr b3"
      "built fb_buf fb_pos buf ((mac_bytes dest @ mac_bytes src) @ tag_bytes tags) b3"
    using frame_bytes_builder.put_all_built[OF b2(2), of "map (\<lambda>x. [x]) (tag_bytes tags)"] assms(1)
    by (auto simp: build_vlan_tags_put)
  obtain b4 where b4: "build_ethertype et b3 = Inr b4" "built fb_buf fb_pos buf (frame_header dest src tags et) b4"
    using frame_bytes_builder.put_built[OF b3(2), of "ethertype_as_bytes et"] assms(1)
    by (auto simp: build_ethertype_def frame_header_def)
  show ?thesis
    using build_payload_built[OF b4(2), of writer len rest] assms b1(1) b2(1) b3(1) b4(1)
    by (simp add: build_frame_def)
qed

text \<open>Reading past the tags: both loops skip the bytes of the tags the builder wrote.\<close>

lemma ethertype_loop_tags: "ethertype_loop (tag_bytes tags @ bytes) = ethertype_loop bytes"
  by (induction tags) (auto simp: tag_bytes_def split: option.splits)

lemma payload_loop_tags: "payload_loop (tag_bytes tags @ bytes) = payload_loop bytes"
  by (induction tags) (auto simp: tag_bytes_def split: option.splits)

text \<open>An ethertype that reads back as itself.\<close>

fun plain_ethertype :: "ether_type \<Rightarrow> bool" where
  "plain_ethertype ARP \<longleftrightarrow> True"
| "plain_ethertype (Other a b) \<longleftrightarrow> (a, b) \<noteq> (0x81, 0x00) \<and> (a, b) \<noteq> (0x08, 0x06)"

lemma ethertype_loop_plain: "plain_ethertype et \<Longrightarrow> ethertype_loop (ethertype_as_bytes et @ bytes) = Inr et"
  by (cases et) auto

lemma payload_loop_plain: "plain_ethertype et \<Longrightarrow> payload_loop (ethertype_as_bytes et @ bytes) = Inr bytes"
  by (cases et) auto

lemma frame_dest_header: "frame_dest \<lparr>frame_bytes = frame_header dest src tags et @ p\<rparr> = Inr dest"
  by (simp add: frame_dest_def frame_header_def slice_def)

lemma frame_src_header: "frame_src \<lparr>frame_bytes = frame_header dest src tags et @ p\<rparr> = Inr src"
  by (simp add: frame_src_def frame_header_def slice_def)

lemma frame_ethertype_header:
  "plain_ethertype et \<Longrightarrow> frame_ethertype \<lparr>frame_bytes = frame_header dest src tags et @ p\<rparr> = Inr et"
  by (simp add: frame_ethertype_def frame_header_def slice_from_def ethertype_loop_tags ethertype_loop_plain)

lemma payload_with_crc_header:
  "plain_ethertype et \<Longrightarrow> payload_with_crc \<lparr>frame_bytes = frame_header dest src tags et @ p\<rparr> = Inr p"
  by (simp add: payload_with_crc_def frame_header_def slice_from_def payload_loop_tags payload_loop_plain)

lemma frame_payload_header:
  "plain_ethertype et \<Longrightarrow> length crc = 4 \<Longrightarrow>
    frame_payload \<lparr>frame_bytes = frame_header dest src tags et @ p @ crc\<rparr> = Inr p"
  by (simp add: frame_payload_def payload_with_crc_header nat_sub_def slice_def)

lemma frame_crc_header:
  "plain_ethertype et \<Longrightarrow> length crc = 4 \<Longrightarrow>
    frame_crc \<lparr>frame_bytes = frame_header dest src tags et @ p @ crc\<rparr> = Inr crc"
  by (simp add: frame_crc_def payload_with_crc_header nat_sub_def slice_from_def)

lemmas frame_header_reads =
  frame_dest_header frame_src_header frame_ethertype_header frame_payload_header frame_crc_header

text \<open>The two readers that skip tags agree on which frames they accept.\<close>

lemma payload_loop_iff: "(\<exists>p. payload_loop bytes = Inr p) \<longleftrightarrow> (\<exists>et. ethertype_loop bytes = Inr et)"
  by (induction bytes rule: ethertype_loop.induct) (auto split: list.splits)

section \<open>Properties\<close>

text \<open>C30: A frame the builder makes is read back as it was built: whenever the buffer has room for the
  header and the writer returns a length within the space it got, the chain of the builder returns a
  frame, and once the NIC has appended the four bytes of the checksum, the destination, the source, the
  ethertype, the payload and the checksum read from it are the ones given, with any VLAN tags in
  between.\<close>

theorem frame_roundtrip:
  assumes "14 + length (tag_bytes tags) \<le> length buf"
    and "writer (drop (14 + length (tag_bytes tags)) buf) = Inr (len, rest)" and "len \<le> length rest"
    and "plain_ethertype et" and "length crc = 4"
  shows "\<exists>f buf'. build_frame buf dest src tags et writer = Inr (f, buf') \<and>
    (let r = \<lparr>frame_bytes = frame_bytes f @ crc\<rparr> in
      frame_dest r = Inr dest \<and> frame_src r = Inr src \<and> frame_ethertype r = Inr et \<and>
      frame_payload r = Inr (take len rest) \<and> frame_crc r = Inr crc)"
  using build_frame_layout[of tags buf writer len rest dest src et] assms
  by (simp add: Let_def frame_header_reads)

theorem frame_roundtrip_witness:
  "\<exists>f buf'. build_frame (replicate 64 0) (MACAddress 1 2 3 4 5 6) (MACAddress 7 8 9 10 11 12) [Some (0, 5), None] ARP
      (\<lambda>b. Inr (2, [42, 43])) = Inr (f, buf') \<and>
    (let r = \<lparr>frame_bytes = frame_bytes f @ [1, 2, 3, 4]\<rparr> in
      frame_dest r = Inr (MACAddress 1 2 3 4 5 6) \<and> frame_src r = Inr (MACAddress 7 8 9 10 11 12) \<and>
      frame_ethertype r = Inr ARP \<and> frame_payload r = Inr (take 2 [42, 43]) \<and> frame_crc r = Inr [1, 2, 3, 4])"
  by (rule frame_roundtrip) (simp_all add: tag_bytes_def)

text \<open>Property: The second VLAN tag of a frame is never read: the loop of \<open>vlan_tags\<close> neither advances its index
  nor skips the tag it has read, so of a frame built with two tags it returns the first only.\<close>

theorem vlan_second_tag_lost:
  assumes "t \<noteq> (0x81, 0x00)"
  shows "frame_vlan_tags \<lparr>frame_bytes = frame_header dest src [Some t, Some u] et @ p\<rparr> = Inr [Some t, None]"
  using assms
  by (cases t; cases u) (auto simp: frame_vlan_tags_def frame_header_def slice_from_def tag_bytes_def)

theorem vlan_second_tag_lost_witness:
  "frame_vlan_tags \<lparr>frame_bytes = frame_header (MACAddress 1 2 3 4 5 6) (MACAddress 7 8 9 10 11 12)
     [Some (0, 5), Some (0, 6)] ARP @ [1, 2, 3]\<rparr> = Inr [Some (0, 5), None]"
  by (rule vlan_second_tag_lost) simp

end
