(* ===== verification/Nic.thy ===== *)
theory Nic
  imports Pci Ethernet Mm Semaphore
begin

text \<open>
  The network card (\<open>src/drivers/net/rtl8139.rs\<close>): its registers behind the ports of its first base
  address register, its set-up, and transmission. Receiving is in \<open>Rtl8139\<close>.
\<close>

section \<open>Model\<close>

definition REG_TSD0 :: u16 where "REG_TSD0 = 0x10"
definition REG_TSAD0 :: u16 where "REG_TSAD0 = 0x20"
definition REG_RBSTART :: u16 where "REG_RBSTART = 0x30"
definition REG_COMMAND :: u16 where "REG_COMMAND = 0x37"
definition REG_CAPR :: u16 where "REG_CAPR = 0x38"
definition REG_CBR :: u16 where "REG_CBR = 0x3a"
definition REG_IMR :: u16 where "REG_IMR = 0x3c"
definition REG_ISR :: u16 where "REG_ISR = 0x3e"
definition REG_RCR :: u16 where "REG_RCR = 0x44"
definition REG_CONFIG_1 :: u16 where "REG_CONFIG_1 = 0x52"

definition RX_BUF_SIZE :: nat where "RX_BUF_SIZE = 8192"
definition RX_BUF_SIZE_WITH_WRAP :: nat where "RX_BUF_SIZE_WITH_WRAP = RX_BUF_SIZE + 16 + 1500"
definition TX_BUF_SIZE :: nat where "TX_BUF_SIZE = 1530"

text \<open>The buffers with their addresses; the device writes the receive buffer.\<close>

record rtl8139 =
  nic_pci :: pci_device
  nic_vector :: u8
  rx_buf :: "u8 list"
  rx_buf_addr :: usize
  tx_bufs :: "u8 list list"
  tx_buf_addrs :: "usize list"
  next_tx_desc :: u8
  pending_irqs :: semaphore

definition ioaddr :: "'w ports \<Rightarrow> rtl8139 \<Rightarrow> u16 \<Rightarrow> 'w \<Rightarrow> (u16 \<times> 'w) res" where
  "ioaddr ps nic offset w =
     (let (bar_0, w) = read_bar_register ps (dev_bdf (nic_pci nic)) BAR0 w;
          iobase = ucast (if bar_0 AND 0x1 = 0 then bar_0 AND NOT 0xf else bar_0 AND NOT 0x3)
      in rbind (checked_add iobase offset) (\<lambda>port. Inr (port, w)))"

definition nic_outb :: "'w ports \<Rightarrow> rtl8139 \<Rightarrow> u16 \<Rightarrow> u8 \<Rightarrow> 'w \<Rightarrow> 'w res" where
  "nic_outb ps nic offset data w = rbind (ioaddr ps nic offset w) (\<lambda>(port, w). Inr (outb ps port data w))"

definition nic_inb :: "'w ports \<Rightarrow> rtl8139 \<Rightarrow> u16 \<Rightarrow> 'w \<Rightarrow> (u8 \<times> 'w) res" where
  "nic_inb ps nic offset w = rbind (ioaddr ps nic offset w) (\<lambda>(port, w). Inr (inb ps port w))"

definition nic_outw :: "'w ports \<Rightarrow> rtl8139 \<Rightarrow> u16 \<Rightarrow> u16 \<Rightarrow> 'w \<Rightarrow> 'w res" where
  "nic_outw ps nic offset data w = rbind (ioaddr ps nic offset w) (\<lambda>(port, w). Inr (outw ps port data w))"

definition nic_inw :: "'w ports \<Rightarrow> rtl8139 \<Rightarrow> u16 \<Rightarrow> 'w \<Rightarrow> (u16 \<times> 'w) res" where
  "nic_inw ps nic offset w = rbind (ioaddr ps nic offset w) (\<lambda>(port, w). Inr (inw ps port w))"

definition nic_outl :: "'w ports \<Rightarrow> rtl8139 \<Rightarrow> u16 \<Rightarrow> u32 \<Rightarrow> 'w \<Rightarrow> 'w res" where
  "nic_outl ps nic offset data w = rbind (ioaddr ps nic offset w) (\<lambda>(port, w). Inr (outl ps port data w))"

text \<open>Waiting for the end of the reset, with a bound on the number of polls.\<close>

fun await_reset :: "nat \<Rightarrow> 'w ports \<Rightarrow> rtl8139 \<Rightarrow> 'w \<Rightarrow> 'w res" where
  "await_reset 0 ps nic w = Inl Diverges"
| "await_reset (Suc fuel) ps nic w =
     rbind (nic_inb ps nic REG_COMMAND w) (\<lambda>(v, w). if v AND 0x10 \<noteq> 0 then await_reset fuel ps nic w else Inr w)"

definition set_tx_buf :: "'w ports \<Rightarrow> mapper option \<Rightarrow> rtl8139 \<Rightarrow> nat \<Rightarrow> 'w \<Rightarrow> 'w res" where
  "set_tx_buf ps MAPPER nic i w =
     rbind (index (tx_buf_addrs nic) i) (\<lambda>tx_buf_virt_addr.
     rbind (mm_phys_addr MAPPER tx_buf_virt_addr) (\<lambda>p.
     case p of Some tx_buf_addr \<Rightarrow> nic_outl ps nic (REG_TSAD0 + of_nat (i * 4)) (ucast tx_buf_addr) w
     | None \<Rightarrow> Inl ExplicitPanic))"

text \<open>\<open>RTL8139::init\<close>; the boxes of the buffers, with whatever is in them, are arguments.\<close>

definition nic_init ::
  "nat \<Rightarrow> 'w ports \<Rightarrow> mapper option \<Rightarrow> pci_device \<Rightarrow> usize \<times> u8 list \<Rightarrow> (usize \<times> u8 list) list \<Rightarrow> 'w \<Rightarrow> (rtl8139 \<times> 'w) res" where
  "nic_init fuel ps MAPPER pci rx tx w =
     rbind (semaphore_new 0 128) (\<lambda>irqs.
     let nic = \<lparr>nic_pci = pci, nic_vector = 0x26, rx_buf = snd rx, rx_buf_addr = fst rx, tx_bufs = map snd tx,
           tx_buf_addrs = map fst tx, next_tx_desc = 0, pending_irqs = irqs\<rparr>;
         w = write_control_register ps (dev_bdf pci) 0x0005 w
     in rbind (nic_outb ps nic REG_CONFIG_1 0x0 w) (\<lambda>w.
     rbind (nic_outb ps nic REG_COMMAND 0x10 w) (\<lambda>w.
     rbind (await_reset fuel ps nic w) (\<lambda>w.
     rbind (mm_phys_addr MAPPER (rx_buf_addr nic)) (\<lambda>p.
     rbind (case p of Some rx_addr \<Rightarrow> nic_outl ps nic REG_RBSTART (ucast rx_addr) w | None \<Rightarrow> Inl ExplicitPanic) (\<lambda>w.
     rbind (rfold (set_tx_buf ps MAPPER nic) [0..<4] w) (\<lambda>w.
     rbind (nic_outl ps nic REG_RCR (0xf OR push_bit 7 1) w) (\<lambda>w.
     rbind (nic_outb ps nic REG_COMMAND 0x0c w) (\<lambda>w.
     rbind (nic_outw ps nic REG_IMR (0x0005 OR push_bit 4 1) w) (\<lambda>w.
     Inr (nic, w)))))))))))"

definition nic_id :: "'w ports \<Rightarrow> rtl8139 \<Rightarrow> 'w \<Rightarrow> (mac_address \<times> 'w) res" where
  "nic_id ps nic w =
     rbind (rfold (\<lambda>i (mac, w). rbind (nic_inb ps nic (of_nat i) w) (\<lambda>(v, w). Inr (mac[i := v], w))) [0..<6] (replicate 6 0, w))
       (\<lambda>(mac, w). rbind (mac_from mac) (\<lambda>mac. Inr (mac, w)))"

definition transmit ::
  "'w ports \<Rightarrow> mapper option \<Rightarrow> mac_address \<Rightarrow> vlan_tag option list \<Rightarrow> ether_type \<Rightarrow> writer \<Rightarrow> rtl8139 \<times> 'w \<Rightarrow> (rtl8139 \<times> 'w) res" where
  "transmit ps MAPPER dest vlan_tags ethertype writer s =
     (let (nic, w) = s in
      rbind (nic_id ps nic w) (\<lambda>(src, w).
      rbind (checked_add (next_tx_desc nic) 1) (\<lambda>n.
      let tx_i = unat (next_tx_desc nic); nic = nic\<lparr>next_tx_desc := n mod 4\<rparr> in
      rbind (index (tx_bufs nic) tx_i) (\<lambda>tx_buf.
      rbind (build_frame tx_buf dest src vlan_tags ethertype writer) (\<lambda>(frame, tx_buf).
      let nic = nic\<lparr>tx_bufs := (tx_bufs nic)[tx_i := tx_buf]\<rparr> in
      rbind (index (tx_buf_addrs nic) tx_i) (\<lambda>addr.
      rbind (mm_phys_addr MAPPER addr) (\<lambda>p.
      case p of
        None \<Rightarrow> Inl ExplicitPanic
      | Some pa \<Rightarrow>
          rbind (nic_outl ps nic (REG_TSAD0 + of_nat (tx_i * 4)) (ucast pa) w) (\<lambda>w.
          rbind (nic_outl ps nic (REG_TSD0 + of_nat (tx_i * 4)) (of_nat (frame_len frame) AND 0x1fff) w) (\<lambda>w.
          Inr (nic, w))))))))))"

section \<open>The device\<close>

text \<open>
  What the device does, as its data sheet has it, of what matters for transmission: four descriptors with
  an address each, and the frames it was told to send, as address and length; writing the size of a
  descriptor starts the transmission from its address. The station address is in the first six registers.
\<close>

record nic_state =
  tsad :: "nat \<Rightarrow> u32"
  sent :: "(u32 \<times> u32) list"

text \<open>The first base address register of the function holds an address of the port space, and reading the
  configuration space does not change the state \<open>st\<close> of the device.\<close>

definition io_space :: "'w ports \<Rightarrow> (u32 \<Rightarrow> u32) \<Rightarrow> bdf \<Rightarrow> u16 \<Rightarrow> ('w \<Rightarrow> 'd) \<Rightarrow> bool" where
  "io_space ps cfg b iobase st \<longleftrightarrow>
     (\<forall>x. static_config ps (\<lambda>w. st w = x) cfg) \<and>
     (ucast (drop_bit 16 (reg_of cfg b 0xC AND 0x00FF0000)) :: u8) AND 0x7f = 0 \<and>
     reg_of cfg b 0x10 = ucast iobase OR 1 \<and> iobase AND 0x3 = 0 \<and> unat iobase + 0x100 \<le> 2 ^ 16"

definition nic_hw :: "'w ports \<Rightarrow> (u32 \<Rightarrow> u32) \<Rightarrow> bdf \<Rightarrow> u16 \<Rightarrow> ('w \<Rightarrow> nic_state) \<Rightarrow> u8 list \<Rightarrow> bool" where
  "nic_hw ps cfg b iobase st mac \<longleftrightarrow>
     io_space ps cfg b iobase st \<and> length mac = 6 \<and>
     (\<forall>w i. i < 6 \<longrightarrow> fst (port_in8 ps (iobase + of_nat i) w) = mac ! i \<and> st (snd (port_in8 ps (iobase + of_nat i) w)) = st w) \<and>
     (\<forall>w i v. i < 4 \<longrightarrow>
        st (port_out32 ps (iobase + (REG_TSAD0 + of_nat (i * 4))) v w) = (st w)\<lparr>tsad := (tsad (st w))(i := v)\<rparr> \<and>
        st (port_out32 ps (iobase + (REG_TSD0 + of_nat (i * 4))) v w) = (st w)\<lparr>sent := sent (st w) @ [(tsad (st w) i, v AND 0x1fff)]\<rparr>)"

lemma bar_base:
  fixes iobase :: u16
  assumes "iobase AND 0x3 = 0"
  shows "(ucast iobase OR 1 :: u32) AND 1 \<noteq> 0" "ucast ((ucast iobase OR 1 :: u32) AND NOT 0x3) = iobase"
proof -
  have m: "(0x3 :: 'a :: len word) = mask 2" by (simp add: mask_eq_exp_minus_1)
  have low: "\<not> bit iobase n" if "n < 2" for n
  proof -
    have "bit (iobase AND mask 2) n \<longleftrightarrow> bit iobase n" using that by (simp add: bit_simps)
    then show ?thesis using assms unfolding m by simp
  qed
  show "ucast ((ucast iobase OR 1 :: u32) AND NOT 0x3) = iobase"
    unfolding m by (rule bit_word_eqI) (auto simp: bit_simps bit_1_iff, metis low not_less)
  have "bit ((ucast iobase OR 1 :: u32) AND 1) 0" by (simp add: bit_simps)
  then show "(ucast iobase OR 1 :: u32) AND 1 \<noteq> 0" by (metis bit_0_eq bot_apply bot_bool_def)
qed

lemma ioaddr_io:
  assumes hw: "io_space ps cfg (dev_bdf (nic_pci nic)) iobase st" and "unat offset < 0x100"
  obtains w' where "ioaddr ps nic offset w = Inr (iobase + offset, w')" "st w' = st w"
proof -
  let ?b = "dev_bdf (nic_pci nic)"
  have sc: "static_config ps (\<lambda>v. st v = st w) cfg" using hw by (simp add: io_space_def)
  obtain w1 where w1: "pci_inl ps ?b 0xC w = (reg_of cfg ?b 0xC, w1)" "st w1 = st w" by (rule pci_inl_static[OF sc]) auto
  obtain w2 where w2: "pci_inl ps ?b 0x10 w1 = (reg_of cfg ?b 0x10, w2)" "st w2 = st w" by (rule pci_inl_static[OF sc w1(2)])
  have h: "(ucast (drop_bit 16 (reg_of cfg ?b 0xC AND 0x00FF0000)) :: u8) AND 0x7f = 0" "reg_of cfg ?b 0x10 = ucast iobase OR 1"
    "iobase AND 0x3 = 0" "unat iobase + 0x100 \<le> 2 ^ 16" using hw by (simp_all add: io_space_def)
  have bar: "read_bar_register ps ?b BAR0 w = (ucast iobase OR 1, w2)"
    using w1(1) w2(1) h(1,2) by (simp add: read_bar_register_def read_header_type_def)
  have "checked_add iobase offset = Inr (iobase + offset)" unfolding checked_add_eq_Inr using h(4) assms(2) by simp
  then show ?thesis using that w2(2) bar bar_base[OF h(3)] by (simp add: ioaddr_def)
qed

lemma ioaddr_hw:
  assumes "nic_hw ps cfg (dev_bdf (nic_pci nic)) iobase st mac" and "unat offset < 0x100"
  obtains w' where "ioaddr ps nic offset w = Inr (iobase + offset, w')" "st w' = st w"
proof -
  have "io_space ps cfg (dev_bdf (nic_pci nic)) iobase st" using assms(1) by (simp add: nic_hw_def)
  then show ?thesis by (rule ioaddr_io[OF _ assms(2)]) (rule that)
qed

lemma nic_inb_hw:
  assumes hw: "nic_hw ps cfg (dev_bdf (nic_pci nic)) iobase st mac" and "i < 6"
  obtains w' where "nic_inb ps nic (of_nat i) w = Inr (mac ! i, w')" "st w' = st w"
proof -
  have "unat (of_nat i :: u16) < 0x100" using assms(2) by (simp add: unat_of_nat)
  then obtain w1 where w1: "ioaddr ps nic (of_nat i) w = Inr (iobase + of_nat i, w1)" "st w1 = st w" by (rule ioaddr_hw[OF hw])
  obtain v w' where r: "port_in8 ps (iobase + of_nat i) w1 = (v, w')" by fastforce
  have "fst (port_in8 ps (iobase + of_nat i) w1) = mac ! i \<and> st (snd (port_in8 ps (iobase + of_nat i) w1)) = st w1"
    using hw assms(2) by (simp add: nic_hw_def)
  then show ?thesis using that[of w'] w1 r by (simp add: nic_inb_def)
qed

lemma nic_id_loop:
  assumes hw: "nic_hw ps cfg (dev_bdf (nic_pci nic)) iobase st mac" and "n \<le> 6"
  shows "\<exists>w'. rfold (\<lambda>i (mac, w). rbind (nic_inb ps nic (of_nat i) w) (\<lambda>(v, w). Inr (mac[i := v], w))) [0..<n] (replicate 6 0, w)
    = Inr (take n mac @ replicate (6 - n) 0, w') \<and> st w' = st w"
  using assms(2)
proof (induction n)
  case (Suc n)
  then obtain w1 where w1: "rfold (\<lambda>i (mac, w). rbind (nic_inb ps nic (of_nat i) w) (\<lambda>(v, w). Inr (mac[i := v], w))) [0..<n] (replicate 6 0, w)
    = Inr (take n mac @ replicate (6 - n) 0, w1)" "st w1 = st w" by auto
  have n: "n < 6" and len: "length mac = 6" using Suc.prems hw by (simp_all add: nic_hw_def)
  obtain w2 where w2: "nic_inb ps nic (of_nat n) w1 = Inr (mac ! n, w2)" "st w2 = st w1" by (rule nic_inb_hw[OF hw n])
  have "6 - n = Suc (6 - Suc n)" using n by simp
  then have "(take n mac @ replicate (6 - n) 0)[n := mac ! n] = take (Suc n) mac @ replicate (6 - Suc n) 0"
    using n len by (simp add: list_update_append take_Suc_conv_app_nth)
  then show ?case using w1 w2 by (simp add: rfold_append)
qed simp

lemma nic_id_hw:
  assumes hw: "nic_hw ps cfg (dev_bdf (nic_pci nic)) iobase st (mac_bytes a)"
  obtains w' where "nic_id ps nic w = Inr (a, w')" "st w' = st w"
proof -
  obtain w' where "rfold (\<lambda>i (mac, w). rbind (nic_inb ps nic (of_nat i) w) (\<lambda>(v, w). Inr (mac[i := v], w))) [0..<6] (replicate 6 0, w)
    = Inr (mac_bytes a, w')" "st w' = st w" using nic_id_loop[OF hw, of 6 w] by auto
  then show ?thesis using that by (simp add: nic_id_def)
qed

lemma descriptor_offset:
  assumes "i < 4"
  shows "unat (REG_TSAD0 + of_nat (i * 4)) < 0x100" "unat (REG_TSD0 + of_nat (i * 4)) < 0x100"
  using assms by (simp_all add: REG_TSAD0_def REG_TSD0_def unat_word_ariths unat_of_nat)

lemma nic_outl_hw:
  assumes hw: "nic_hw ps cfg (dev_bdf (nic_pci nic)) iobase st mac" and "i < 4"
  shows "\<exists>w'. nic_outl ps nic (REG_TSAD0 + of_nat (i * 4)) v w = Inr w' \<and> st w' = (st w)\<lparr>tsad := (tsad (st w))(i := v)\<rparr>"
    and "\<exists>w'. nic_outl ps nic (REG_TSD0 + of_nat (i * 4)) v w = Inr w' \<and> st w' = (st w)\<lparr>sent := sent (st w) @ [(tsad (st w) i, v AND 0x1fff)]\<rparr>"
proof -
  have d: "st (port_out32 ps (iobase + (REG_TSAD0 + of_nat (i * 4))) v w) = (st w)\<lparr>tsad := (tsad (st w))(i := v)\<rparr>"
    "st (port_out32 ps (iobase + (REG_TSD0 + of_nat (i * 4))) v w) = (st w)\<lparr>sent := sent (st w) @ [(tsad (st w) i, v AND 0x1fff)]\<rparr>" for w
    using hw assms(2) by (simp_all add: nic_hw_def)
  obtain w1 where w1: "ioaddr ps nic (REG_TSAD0 + of_nat (i * 4)) w = Inr (iobase + (REG_TSAD0 + of_nat (i * 4)), w1)" "st w1 = st w"
    by (rule ioaddr_hw[OF hw descriptor_offset(1)[OF assms(2)]])
  show "\<exists>w'. nic_outl ps nic (REG_TSAD0 + of_nat (i * 4)) v w = Inr w' \<and> st w' = (st w)\<lparr>tsad := (tsad (st w))(i := v)\<rparr>"
    using w1 d(1)[of w1] by (simp add: nic_outl_def outl_def)
  obtain w2 where w2: "ioaddr ps nic (REG_TSD0 + of_nat (i * 4)) w = Inr (iobase + (REG_TSD0 + of_nat (i * 4)), w2)" "st w2 = st w"
    by (rule ioaddr_hw[OF hw descriptor_offset(2)[OF assms(2)]])
  show "\<exists>w'. nic_outl ps nic (REG_TSD0 + of_nat (i * 4)) v w = Inr w' \<and> st w' = (st w)\<lparr>sent := sent (st w) @ [(tsad (st w) i, v AND 0x1fff)]\<rparr>"
    using w2 d(2)[of w2] by (simp add: nic_outl_def outl_def)
qed

text \<open>The buffers of a card that \<open>init\<close> has set up.\<close>

definition nic_wf :: "rtl8139 \<Rightarrow> bool" where
  "nic_wf nic \<longleftrightarrow> length (rx_buf nic) = RX_BUF_SIZE_WITH_WRAP \<and> length (tx_bufs nic) = 4 \<and> length (tx_buf_addrs nic) = 4 \<and>
     (\<forall>b\<in>set (tx_bufs nic). length b = TX_BUF_SIZE) \<and> next_tx_desc nic < 4"

lemma size_bits: "n \<le> TX_BUF_SIZE \<Longrightarrow> (of_nat n AND 0x1fff :: u32) = of_nat n"
proof -
  assume "n \<le> TX_BUF_SIZE"
  then have "take_bit 13 n = n" by (simp add: TX_BUF_SIZE_def take_bit_nat_eq_self_iff)
  then have "of_nat n AND mask 13 = (of_nat n :: u32)" by (metis take_bit_eq_mask take_bit_of_nat)
  moreover have "(0x1fff :: u32) = mask 13" by (simp add: mask_eq_exp_minus_1)
  ultimately show ?thesis by (simp only:)
qed

lemma transmit_hw:
  assumes hw: "nic_hw ps cfg (dev_bdf (nic_pci nic)) iobase st (mac_bytes src)" and wf: "nic_wf nic"
    and i: "i = unat (next_tx_desc nic)" and pa: "mm_phys_addr MAPPER (tx_buf_addrs nic ! i) = Inr (Some pa)"
    and wr: "writer (drop (14 + length (tag_bytes tags)) (tx_bufs nic ! i)) = Inr (len, rest)" "len \<le> length rest"
      "14 + length (tag_bytes tags) + length rest = TX_BUF_SIZE"
  shows "\<exists>w'. transmit ps MAPPER dest tags et writer (nic, w) =
      Inr (nic\<lparr>next_tx_desc := (next_tx_desc nic + 1) mod 4, tx_bufs := (tx_bufs nic)[i := frame_header dest src tags et @ rest]\<rparr>, w') \<and>
    sent (st w') = sent (st w) @ [(ucast pa, of_nat (14 + length (tag_bytes tags) + len))]"
proof -
  have i4: "i < 4" using wf i by (simp add: nic_wf_def word_less_nat_alt)
  have buf: "tx_bufs nic ! i \<in> set (tx_bufs nic)" "index (tx_bufs nic) i = Inr (tx_bufs nic ! i)"
    "index (tx_buf_addrs nic) i = Inr (tx_buf_addrs nic ! i)" using wf i4 by (simp_all add: nic_wf_def index_def)
  have lb: "length (tx_bufs nic ! i) = TX_BUF_SIZE" using wf buf(1) by (simp add: nic_wf_def)
  obtain w1 where w1: "nic_id ps nic w = Inr (src, w1)" "st w1 = st w" by (rule nic_id_hw[OF hw])
  have nx: "checked_add (next_tx_desc nic) 1 = Inr (next_tx_desc nic + 1)"
    unfolding checked_add_eq_Inr using i4 i by simp
  have fr: "build_frame (tx_bufs nic ! i) dest src tags et writer =
      Inr (\<lparr>frame_bytes = frame_header dest src tags et @ take len rest\<rparr>, frame_header dest src tags et @ rest)"
    using wr lb by (intro build_frame_layout) simp_all
  let ?nic = "nic\<lparr>next_tx_desc := (next_tx_desc nic + 1) mod 4, tx_bufs := (tx_bufs nic)[i := frame_header dest src tags et @ rest]\<rparr>"
  have hw': "nic_hw ps cfg (dev_bdf (nic_pci ?nic)) iobase st (mac_bytes src)" using hw by simp
  obtain w2 where w2: "nic_outl ps ?nic (REG_TSAD0 + of_nat (i * 4)) (ucast pa) w1 = Inr w2" "st w2 = (st w1)\<lparr>tsad := (tsad (st w1))(i := ucast pa)\<rparr>"
    using nic_outl_hw(1)[OF hw' i4] by blast
  let ?len = "of_nat (14 + length (tag_bytes tags) + len) :: u32"
  have sz: "?len AND 0x1fff = ?len" using wr(2,3) by (intro size_bits) simp
  obtain w3 where w3: "nic_outl ps ?nic (REG_TSD0 + of_nat (i * 4)) (?len AND 0x1fff) w2 = Inr w3"
    "st w3 = (st w2)\<lparr>sent := sent (st w2) @ [(tsad (st w2) i, (?len AND 0x1fff) AND 0x1fff)]\<rparr>"
    using nic_outl_hw(2)[OF hw' i4] by blast
  have ui: "ucast (next_tx_desc nic) = (of_nat i :: u16)" by (simp add: i)
  have fl: "frame_len \<lparr>frame_bytes = frame_header dest src tags et @ take len rest\<rparr> = 14 + length (tag_bytes tags) + len"
    using wr(2) by (simp add: frame_len_def)
  have "transmit ps MAPPER dest tags et writer (nic, w) = Inr (?nic, w3)"
    using w1(1) nx buf(2,3) fr pa w2(1) w3(1) i[symmetric] ui by (simp add: transmit_def fl Let_def)
  then show ?thesis using w1(2) w2(2) w3(2) sz by (intro exI[of _ w3]) (simp only: sz, simp)
qed

section \<open>Properties\<close>

text \<open>C19: Transmission: on a card that behaves as its data sheet has it, with its buffers mapped and a writer that
  fills at most the space it gets, \<open>transmit\<close> returns; the next of the four buffers holds the frame with the
  destination given, the address of the card as source, the tags, the ethertype and the payload, the card has
  been told to send exactly that frame, from the physical address of the buffer and with its length, and
  the following call will use the following buffer.\<close>

theorem transmit_sends_frame:
  assumes "nic_hw ps cfg (dev_bdf (nic_pci nic)) iobase st (mac_bytes src)" and "nic_wf nic" and "i = unat (next_tx_desc nic)"
    and "mm_phys_addr MAPPER (tx_buf_addrs nic ! i) = Inr (Some pa)"
    and "writer (drop (14 + length (tag_bytes tags)) (tx_bufs nic ! i)) = Inr (len, rest)" and "len \<le> length rest"
    and "14 + length (tag_bytes tags) + length rest = TX_BUF_SIZE"
  shows "\<exists>nic' w'. transmit ps MAPPER dest tags et writer (nic, w) = Inr (nic', w') \<and> nic_wf nic' \<and>
    take (14 + length (tag_bytes tags) + len) (tx_bufs nic' ! i) =
      mac_bytes dest @ mac_bytes src @ tag_bytes tags @ ethertype_as_bytes et @ take len rest \<and>
    (\<forall>j. j \<noteq> i \<longrightarrow> tx_bufs nic' ! j = tx_bufs nic ! j) \<and> unat (next_tx_desc nic') = (i + 1) mod 4 \<and>
    sent (st w') = sent (st w) @ [(ucast pa, of_nat (14 + length (tag_bytes tags) + len))]"
proof -
  let ?nic = "nic\<lparr>next_tx_desc := (next_tx_desc nic + 1) mod 4, tx_bufs := (tx_bufs nic)[i := frame_header dest src tags et @ rest]\<rparr>"
  have i4: "i < 4" using assms(2,3) by (simp add: nic_wf_def word_less_nat_alt)
  have u: "unat ((next_tx_desc nic + 1) mod 4) = (i + 1) mod 4"
    using i4 assms(3) by (simp add: unat_mod unat_word_ariths)
  have "unat ((next_tx_desc nic + 1) mod 4) < 4" unfolding u by simp
  then have wf: "nic_wf ?nic"
    using assms(2,7) by (auto simp: nic_wf_def word_less_nat_alt dest!: subsetD[OF set_update_subset_insert])
  have "take (14 + length (tag_bytes tags) + len) (frame_header dest src tags et @ rest) = frame_header dest src tags et @ take len rest"
    by simp
  then have "take (14 + length (tag_bytes tags) + len) (tx_bufs ?nic ! i) =
      mac_bytes dest @ mac_bytes src @ tag_bytes tags @ ethertype_as_bytes et @ take len rest"
    using assms(2) i4 by (simp add: nic_wf_def frame_header_def)
  then show ?thesis using transmit_hw[OF assms(1-4), where writer = writer and tags = tags and len = len and rest = rest and dest = dest and et = et and w = w]
      assms(5-7) wf u by (auto intro!: exI[of _ ?nic])
qed

text \<open>A card at port 0xc000 of device 0:3.0, the first buffer of which is mapped.\<close>

definition sample_nic_ports :: "(u32 \<times> nic_state) ports" where
  "sample_nic_ports = \<lparr>port_out8 = (\<lambda>_ _ w. w), port_in8 = (\<lambda>p w. (ucast (p - 0xc000) + 1, w)), port_out16 = (\<lambda>_ _ w. w),
     port_in16 = (\<lambda>_ w. (0, w)),
     port_out32 = (\<lambda>p v (sel, s). if p = CONFIG_ADDRESS then (v, s)
       else if 0xc020 \<le> p \<and> p < 0xc030 then (sel, s\<lparr>tsad := (tsad s)(unat (p - 0xc020) div 4 := v)\<rparr>)
       else if 0xc010 \<le> p \<and> p < 0xc020 then (sel, s\<lparr>sent := sent s @ [(tsad s (unat (p - 0xc010) div 4), v AND 0x1fff)]\<rparr>)
       else (sel, s)),
     port_in32 = (\<lambda>p (sel, s). (if p = CONFIG_DATA \<and> sel = 0x80001810 then 0xc001 else 0, (sel, s)))\<rparr>"

definition sample_nic :: rtl8139 where
  "sample_nic = \<lparr>nic_pci = pci_info (\<lambda>_. 0) (BDF 0 3 0), nic_vector = 0x26, rx_buf = replicate RX_BUF_SIZE_WITH_WRAP 0, rx_buf_addr = 0x500000,
     tx_bufs = replicate 4 (replicate TX_BUF_SIZE 0), tx_buf_addrs = [0x400000, 0x401000, 0x402000, 0x403000], next_tx_desc = 0,
     pending_irqs = \<lparr>sem_count = 0, sem_max = 128, waiting = [], releasing = []\<rparr>\<rparr>"

lemma sample_nic_wf: "nic_wf sample_nic"
  by (simp add: nic_wf_def sample_nic_def)

lemma sample_nic_static:
  "static_config sample_nic_ports (\<lambda>w. snd w = x) (\<lambda>a. if a = 0x80001810 then 0xc001 else 0)"
  by (auto simp: static_config_def sample_nic_ports_def CONFIG_ADDRESS_def CONFIG_DATA_def)

lemma sample_nic_in8:
  assumes "i < 6"
  shows "port_in8 sample_nic_ports (0xc000 + of_nat i) w = ([1, 2, 3, 4, 5, 6] ! i, w)"
proof -
  have "i = 0 \<or> i = 1 \<or> i = 2 \<or> i = 3 \<or> i = 4 \<or> i = 5" using assms by linarith
  then show ?thesis unfolding sample_nic_ports_def by (elim disjE) simp_all
qed

lemma sample_nic_out32:
  assumes "i < 4"
  shows "port_out32 sample_nic_ports (0xc000 + (REG_TSAD0 + of_nat (i * 4))) v w = (fst w, (snd w)\<lparr>tsad := (tsad (snd w))(i := v)\<rparr>)"
    and "port_out32 sample_nic_ports (0xc000 + (REG_TSD0 + of_nat (i * 4))) v w = (fst w, (snd w)\<lparr>sent := sent (snd w) @ [(tsad (snd w) i, v AND 0x1fff)]\<rparr>)"
proof -
  have "i = 0 \<or> i = 1 \<or> i = 2 \<or> i = 3" using assms by linarith
  then show "port_out32 sample_nic_ports (0xc000 + (REG_TSAD0 + of_nat (i * 4))) v w = (fst w, (snd w)\<lparr>tsad := (tsad (snd w))(i := v)\<rparr>)"
    and "port_out32 sample_nic_ports (0xc000 + (REG_TSD0 + of_nat (i * 4))) v w = (fst w, (snd w)\<lparr>sent := sent (snd w) @ [(tsad (snd w) i, v AND 0x1fff)]\<rparr>)"
    unfolding sample_nic_ports_def REG_TSAD0_def REG_TSD0_def CONFIG_ADDRESS_def by (elim disjE; simp add: split_beta)+
qed

lemma sample_nic_hw:
  "nic_hw sample_nic_ports (\<lambda>a. if a = 0x80001810 then 0xc001 else 0) (dev_bdf (nic_pci sample_nic)) 0xc000 snd (mac_bytes (MACAddress 1 2 3 4 5 6))"
proof -
  have "mac_bytes (MACAddress 1 2 3 4 5 6) = [1, 2, 3, 4, 5, 6]" by simp
  then show ?thesis
    unfolding nic_hw_def io_space_def
    by (simp add: sample_nic_static sample_nic_in8 sample_nic_out32 sample_nic_def reg_of_def config_address_def del: of_nat_mult)
qed

lemma sample_mapped:
  obtains m where "mm_phys_addr (Some m) 0x400000 = Inr (Some 0x5000)"
proof -
  obtain m where m: "mapper_map sample_mapper 0x5000 0x400000 = Inr (Ok (), m)"
    by (rule sample_map[of "0x5000" "0x400000"]) (simp_all add: MASK_11_0_def)
  have "\<forall>v. phys_addr m v = (if v AND MASK_47_12 = 0x400000 AND MASK_47_12 then Inr (Some ((0x5000 AND MASK_51_12) OR (v AND MASK_11_0)))
       else phys_addr sample_mapper v)"
    using mapper_map_translate[OF sample_ready sample_no_huge sample_room m] by blast
  then show ?thesis using that[of m] by (simp add: mm_phys_addr_def MASK_47_12_def MASK_51_12_def MASK_11_0_def)
qed

theorem transmit_sends_frame_witness:
  "\<exists>m nic' w'. transmit sample_nic_ports (Some m) (MACAddress 9 9 9 9 9 9) [None, None] ARP (\<lambda>b. Inr (2, 42 # 43 # drop 2 b))
      (sample_nic, (0, \<lparr>tsad = \<lambda>_. 0, sent = []\<rparr>)) = Inr (nic', w') \<and> sent (snd w') = [(0x5000, 16)]"
proof -
  obtain m where m: "mm_phys_addr (Some m) 0x400000 = Inr (Some 0x5000)" by (rule sample_mapped)
  have t: "tag_bytes [None, None] = []" by (simp add: tag_bytes_def)
  have a: "tx_buf_addrs sample_nic ! 0 = 0x400000" "0 = unat (next_tx_desc sample_nic)" "tx_bufs sample_nic ! 0 = replicate TX_BUF_SIZE 0"
    by (simp_all add: sample_nic_def)
  have m': "mm_phys_addr (Some m) (tx_buf_addrs sample_nic ! 0) = Inr (Some 0x5000)" using m a(1) by simp
  show ?thesis
    using transmit_sends_frame[OF sample_nic_hw sample_nic_wf a(2) m', where tags = "[None, None]" and len = 2 and et = ARP
        and writer = "\<lambda>b. Inr (2, 42 # 43 # drop 2 b)" and rest = "42 # 43 # drop 2 (drop 14 (replicate TX_BUF_SIZE 0))"
        and dest = "MACAddress 9 9 9 9 9 9" and w = "(0, \<lparr>tsad = \<lambda>_. 0, sent = []\<rparr>)"]
    by (force simp: t a(3) TX_BUF_SIZE_def)
qed

end
