(* ===== verification/Receive_Ring.thy ===== *)
theory Receive_Ring
  imports Semaphore_Sched Pci "HOL-Library.Sublist"
begin

text \<open>
  The receive ring of a network interface (\<open>src/net/mod.rs\<close>): four buffers between the task that takes
  frames off the card and the task that handles them, with a semaphore that counts the empty buffers and
  one that counts the full ones. Each task may be preempted between its calls; the guard of a buffer
  disables interrupts, so that filling a buffer and signalling, and reading one and signalling, are not
  interrupted.
\<close>

section \<open>Model\<close>

text \<open>A buffer of \<open>RxBuf\<close>, which holds 1526 bytes of which \<open>len\<close> are in use.\<close>

record net_buf =
  nb_bytes :: "u8 list"
  nb_len :: nat

record interface =
  if_device :: bdf
  bufs :: "net_buf list"
  recv_empty :: semaphore
  recv_full :: semaphore
  recv_head :: usize
  recv_tail :: usize

definition net_buf_new :: "u8 list \<Rightarrow> net_buf" where
  "net_buf_new data = \<lparr>nb_bytes = data, nb_len = 0\<rparr>"

text \<open>The boxes of the buffers, with whatever is in them, are an argument.\<close>

definition interface_new :: "bdf \<Rightarrow> u8 list list \<Rightarrow> interface res" where
  "interface_new dev boxes =
     rbind (semaphore_new 4 4) (\<lambda>empty.
     rbind (semaphore_new 0 4) (\<lambda>full.
     Inr \<lparr>if_device = dev, bufs = map net_buf_new boxes, recv_empty = empty, recv_full = full,
          recv_head = 0, recv_tail = 0\<rparr>))"

text \<open>\<open>wait\<close> and \<open>signal\<close> up to where they return, or to where the task blocks for the first time.\<close>

definition wait_call :: "'k sched_api \<Rightarrow> u64 \<Rightarrow> semaphore \<Rightarrow> 'k \<Rightarrow> (bool \<times> semaphore \<times> 'k) res" where
  "wait_call api now s k =
     rbind (wait_round api now s k) (\<lambda>(through, s, k).
     if through then rbind (wake_popped api (pop_releasing s) k) (\<lambda>(s, k). Inr (True, s, k))
     else Inr (False, s, k))"

definition signal_call :: "'k sched_api \<Rightarrow> u64 \<Rightarrow> semaphore \<Rightarrow> 'k \<Rightarrow> (bool \<times> semaphore \<times> 'k) res" where
  "signal_call api now s k =
     rbind (signal_round api now s k) (\<lambda>(through, s, k).
     if through then rbind (wake_popped api (pop_waiting s) k) (\<lambda>(s, k). Inr (True, s, k))
     else Inr (False, s, k))"

definition recv_store :: "u8 list \<Rightarrow> interface \<Rightarrow> interface res" where
  "recv_store data net =
     rbind (checked_add (recv_head net) 1) (\<lambda>n.
     let next_buf = unat (recv_head net); net = net\<lparr>recv_head := n mod 4\<rparr> in
     rbind (index (bufs net) next_buf) (\<lambda>buf.
     rbind (write_slice (nb_bytes buf) 0 data) (\<lambda>b.
     Inr (net\<lparr>bufs := (bufs net)[next_buf := \<lparr>nb_bytes = b, nb_len = length data\<rparr>]\<rparr>))))"

text \<open>Whether the call went through to its end; a frame that finds no empty buffer is dropped.\<close>

definition recv_frame :: "'k sched_api \<Rightarrow> u64 \<Rightarrow> u8 list \<Rightarrow> interface \<times> 'k \<Rightarrow> (bool \<times> interface \<times> 'k) res" where
  "recv_frame api now data s =
     (let (net, k) = s in
      rbind (try_wait api (recv_empty net) k) (\<lambda>(ok, e, k).
      let net = net\<lparr>recv_empty := e\<rparr> in
      if \<not> ok then Inr (True, net, k)
      else
        rbind (recv_store data net) (\<lambda>net.
        rbind (signal_call api now (recv_full net) k) (\<lambda>(through, f, k).
        Inr (through, net\<lparr>recv_full := f\<rparr>, k)))))"

text \<open>The buffer that \<open>handle_frame\<close> reads.\<close>

definition next_frame :: "interface \<Rightarrow> (u8 list \<times> interface) res" where
  "next_frame net =
     rbind (checked_add (recv_tail net) 1) (\<lambda>n.
     let next_buf = unat (recv_tail net); net = net\<lparr>recv_tail := n mod 4\<rparr> in
     rbind (index (bufs net) next_buf) (\<lambda>buf.
     rbind (slice (nb_bytes buf) 0 (nb_len buf)) (\<lambda>data.
     Inr (data, net))))"

section \<open>The ring under interleaving\<close>

text \<open>
  The interface with where its two tasks are, whether between taking an empty buffer and filling it, or
  between taking a full buffer and giving it back, and the history of the frames stored and handled.
\<close>

record ring =
  ring_net :: interface
  filling :: bool
  emptying :: bool
  stored :: "u8 list list"
  handled :: "u8 list list"

text \<open>The queues of a semaphore change as tasks block and are woken; the count does not.\<close>

definition same_count :: "semaphore \<Rightarrow> semaphore \<Rightarrow> bool" where
  "same_count s s' \<longleftrightarrow> sem_count s' = sem_count s \<and> sem_max s' = sem_max s"

inductive ring_step :: "ring \<Rightarrow> ring \<Rightarrow> bool" where
  begin_store: "\<not> filling x \<Longrightarrow> try_take (recv_empty (ring_net x)) = Some e \<Longrightarrow>
    ring_step x (x\<lparr>ring_net := (ring_net x)\<lparr>recv_empty := e\<rparr>, filling := True\<rparr>)"
| end_store: "filling x \<Longrightarrow> recv_store data (ring_net x) = Inr net \<Longrightarrow> try_give (recv_full net) = Some f \<Longrightarrow>
    ring_step x (x\<lparr>ring_net := net\<lparr>recv_full := f\<rparr>, filling := False, stored := stored x @ [data]\<rparr>)"
| begin_handle: "\<not> emptying x \<Longrightarrow> try_take (recv_full (ring_net x)) = Some f \<Longrightarrow>
    ring_step x (x\<lparr>ring_net := (ring_net x)\<lparr>recv_full := f\<rparr>, emptying := True\<rparr>)"
| end_handle: "emptying x \<Longrightarrow> next_frame (ring_net x) = Inr (data, net) \<Longrightarrow> try_give (recv_empty net) = Some e \<Longrightarrow>
    ring_step x (x\<lparr>ring_net := net\<lparr>recv_empty := e\<rparr>, emptying := False, handled := handled x @ [data]\<rparr>)"
| queues: "same_count (recv_empty (ring_net x)) e \<Longrightarrow> same_count (recv_full (ring_net x)) f \<Longrightarrow>
    ring_step x (x\<lparr>ring_net := (ring_net x)\<lparr>recv_empty := e, recv_full := f\<rparr>\<rparr>)"

definition ring_start :: "interface \<Rightarrow> ring" where
  "ring_start net = \<lparr>ring_net = net, filling = False, emptying = False, stored = [], handled = []\<rparr>"

section \<open>Well-formedness\<close>

definition buf_wf :: "net_buf \<Rightarrow> bool" where
  "buf_wf b \<longleftrightarrow> length (nb_bytes b) = 1526 \<and> nb_len b \<le> 1526"

definition net_wf :: "interface \<Rightarrow> bool" where
  "net_wf net \<longleftrightarrow> length (bufs net) = 4 \<and> (\<forall>b \<in> set (bufs net). buf_wf b) \<and> recv_head net < 4 \<and> recv_tail net < 4 \<and>
     sem_max (recv_empty net) = 4 \<and> sem_count (recv_empty net) \<le> 4 \<and> sem_max (recv_full net) = 4 \<and> sem_count (recv_full net) \<le> 4"

lemma mod_4_less [simp]: "(n :: usize) mod 4 < 4"
  by (simp add: word_less_nat_alt unat_mod)

lemma next_index:
  assumes "(h :: usize) < 4"
  shows "checked_add h 1 = Inr (h + 1)" and "unat ((h + 1) mod 4) = (unat h + 1) mod 4" and "unat h < 4"
proof -
  show h: "unat h < 4" using assms by (simp add: word_less_nat_alt)
  have u: "unat (h + 1) = unat h + 1" using unat_add_usize[of h 1] h by simp
  show "checked_add h 1 = Inr (h + 1)" using h u by (simp add: checked_add_eq_Inr)
  show "unat ((h + 1) mod 4) = (unat h + 1) mod 4" using u by (simp add: unat_mod)
qed

lemma recv_store_eq:
  assumes "net_wf net"
  shows "recv_store data net = (if length data \<le> 1526 then
      Inr (net\<lparr>recv_head := (recv_head net + 1) mod 4, bufs := (bufs net)[unat (recv_head net) :=
        \<lparr>nb_bytes = data @ drop (length data) (nb_bytes (bufs net ! unat (recv_head net))), nb_len = length data\<rparr>]\<rparr>)
    else Inl OutOfBounds)"
proof -
  have h: "recv_head net < 4" "unat (recv_head net) < length (bufs net)" using assms next_index(3)[of "recv_head net"] by (auto simp: net_wf_def)
  have "length (nb_bytes (bufs net ! unat (recv_head net))) = 1526" using assms nth_mem[OF h(2)] by (auto simp: net_wf_def buf_wf_def)
  then show ?thesis using h next_index(1)[OF h(1)] by (simp add: recv_store_def index_def write_slice_def Let_def)
qed

lemma next_frame_eq:
  assumes "net_wf net"
  shows "next_frame net = Inr (take (nb_len (bufs net ! unat (recv_tail net))) (nb_bytes (bufs net ! unat (recv_tail net))),
     net\<lparr>recv_tail := (recv_tail net + 1) mod 4\<rparr>)"
proof -
  have h: "recv_tail net < 4" "unat (recv_tail net) < length (bufs net)" using assms next_index(3)[of "recv_tail net"] by (auto simp: net_wf_def)
  have "buf_wf (bufs net ! unat (recv_tail net))" using assms nth_mem[OF h(2)] by (auto simp: net_wf_def)
  then show ?thesis using h next_index(1)[OF h(1)] by (simp add: next_frame_def index_def slice_def Let_def buf_wf_def)
qed

lemma recv_store_wf:
  assumes "net_wf net" and "recv_store data net = Inr net'"
  shows "net_wf net'"
proof -
  have "unat (recv_head net) < length (bufs net)" using assms(1) next_index(3)[of "recv_head net"] by (auto simp: net_wf_def)
  then have "buf_wf (bufs net ! unat (recv_head net))" using assms(1) nth_mem by (auto simp: net_wf_def)
  then show ?thesis using assms by (auto simp: recv_store_eq net_wf_def buf_wf_def dest!: set_update_subset_insert[THEN subsetD] split: if_splits)
qed

lemma next_frame_wf: "net_wf net \<Longrightarrow> next_frame net = Inr (data, net') \<Longrightarrow> net_wf net'"
  by (auto simp: next_frame_eq) (auto simp: net_wf_def)

section \<open>First in, first out\<close>

definition waiting_frames :: "ring \<Rightarrow> nat" where
  "waiting_frames x = unat (sem_count (recv_full (ring_net x))) + of_bool (emptying x)"

definition frame_at :: "interface \<Rightarrow> nat \<Rightarrow> u8 list" where
  "frame_at net i = take (nb_len (bufs net ! i)) (nb_bytes (bufs net ! i))"

text \<open>The positions, with \<open>n\<close> frames from the tail on.\<close>

definition ring_ok :: "nat \<Rightarrow> nat \<Rightarrow> nat \<Rightarrow> (nat \<Rightarrow> 'f) \<Rightarrow> 'f list \<Rightarrow> 'f list \<Rightarrow> bool" where
  "ring_ok n h t fr st hs \<longleftrightarrow> h < 4 \<and> t < 4 \<and> n \<le> 4 \<and> h = (t + n) mod 4 \<and> length st = length hs + n \<and>
     hs = take (length hs) st \<and> (\<forall>j < n. fr ((t + j) mod 4) = st ! (length hs + j))"

lemma ring_positions:
  assumes "(j :: nat) < n" and "n < 4"
  shows "(t + j) mod 4 \<noteq> (t + n) mod 4"
proof
  assume "(t + j) mod 4 = (t + n) mod 4"
  then have "4 dvd (t + n) - (t + j)" using assms(1) by (intro mod_eq_dvd_iff_nat[THEN iffD1]) simp_all
  then have "4 \<le> n - j" using assms(1) by (intro dvd_imp_le) simp_all
  then show False using assms by linarith
qed

lemma ring_ok_push:
  assumes "ring_ok n h t fr st hs" and "n < 4"
  shows "ring_ok (Suc n) ((h + 1) mod 4) t (fr(h := b)) (st @ [b]) hs"
proof -
  note r = assms(1)[unfolded ring_ok_def]
  have h: "h = (t + n) mod 4" and l: "length st = length hs + n" using r by auto
  have "(fr(h := b)) ((t + j) mod 4) = (st @ [b]) ! (length hs + j)" if j: "j < Suc n" for j
  proof (cases "j = n")
    case True
    then show ?thesis using h l by (simp add: nth_append)
  next
    case False
    then have "(t + j) mod 4 \<noteq> h" using j assms(2) h ring_positions[of j n t] by simp
    then show ?thesis using r j False l by (simp add: nth_append)
  qed
  moreover have "(h + 1) mod 4 = (t + Suc n) mod 4" using h by (simp add: mod_Suc_eq)
  ultimately show ?thesis using r assms(2) by (auto simp: ring_ok_def)
qed

lemma ring_ok_pop:
  assumes "ring_ok (Suc n) h t fr st hs"
  shows "ring_ok n h ((t + 1) mod 4) fr st (hs @ [fr t])" and "fr t = st ! length hs"
proof -
  note r = assms[unfolded ring_ok_def]
  have fr: "fr ((t + j) mod 4) = st ! (length hs + j)" if "j < Suc n" for j using r that by blast
  show t: "fr t = st ! length hs" using fr[of 0] r by simp
  have "fr (((t + 1) mod 4 + j) mod 4) = st ! (length (hs @ [fr t]) + j)" if "j < n" for j
    using fr[of "Suc j"] that by (simp add: mod_simps)
  moreover have "hs @ [fr t] = take (length (hs @ [fr t])) st"
    using r t by (simp add: take_Suc_conv_app_nth)
  moreover have "h = ((t + 1) mod 4 + n) mod 4" using r by (simp add: mod_simps)
  ultimately show "ring_ok n h ((t + 1) mod 4) fr st (hs @ [fr t])" using r by (auto simp: ring_ok_def)
qed

definition ring_inv :: "ring \<Rightarrow> bool" where
  "ring_inv x \<longleftrightarrow>
     net_wf (ring_net x) \<and>
     unat (sem_count (recv_empty (ring_net x))) + waiting_frames x + of_bool (filling x) = 4 \<and>
     ring_ok (waiting_frames x) (unat (recv_head (ring_net x))) (unat (recv_tail (ring_net x))) (frame_at (ring_net x)) (stored x) (handled x)"

lemma ring_inv_start:
  assumes "interface_new dev boxes = Inr net" and "length boxes = 4" and "\<forall>b \<in> set boxes. length b = 1526"
  shows "ring_inv (ring_start net)"
  using assms by (auto simp: interface_new_def semaphore_new_def res_simps ring_inv_def ring_start_def waiting_frames_def net_wf_def
      buf_wf_def net_buf_new_def ring_ok_def)

lemma take_4:
  assumes "try_take s = Some s'" and "sem_max s = 4" and "sem_count s \<le> 4"
  shows "sem_max s' = 4" and "sem_count s' \<le> 4" and "unat (sem_count s) = Suc (unat (sem_count s'))"
  using try_take_Some[OF assms(1)] assms(2,3) by simp_all

lemma give_4:
  assumes "try_give s = Some s'" and "sem_max s = 4" and "sem_count s \<le> 4"
  shows "sem_max s' = 4" and "sem_count s' \<le> 4" and "unat (sem_count s') = Suc (unat (sem_count s))"
  using try_give_Some[OF assms(1)] assms(2,3) by simp_all

lemma give_4_ok: "sem_max s = 4 \<Longrightarrow> unat (sem_count s) < 4 \<Longrightarrow> \<exists>s'. try_give s = Some s'"
  by (auto simp: try_give_def word_less_nat_alt)

lemma frame_at_upd [simp]: "frame_at (net\<lparr>recv_empty := e\<rparr>) = frame_at net" "frame_at (net\<lparr>recv_full := e\<rparr>) = frame_at net"
  "frame_at (net\<lparr>recv_tail := t\<rparr>) = frame_at net"
  by (auto simp: frame_at_def)

lemma ring_inv_begin_store:
  assumes "ring_inv x" and "\<not> filling x" and "try_take (recv_empty (ring_net x)) = Some e"
  shows "ring_inv (x\<lparr>ring_net := (ring_net x)\<lparr>recv_empty := e\<rparr>, filling := True\<rparr>)"
proof -
  have "sem_max (recv_empty (ring_net x)) = 4" "sem_count (recv_empty (ring_net x)) \<le> 4" using assms(1) by (auto simp: ring_inv_def net_wf_def)
  note t = take_4[OF assms(3) this]
  show ?thesis using assms(1,2) t by (simp add: ring_inv_def waiting_frames_def net_wf_def)
qed

lemma ring_inv_begin_handle:
  assumes "ring_inv x" and "\<not> emptying x" and "try_take (recv_full (ring_net x)) = Some f"
  shows "ring_inv (x\<lparr>ring_net := (ring_net x)\<lparr>recv_full := f\<rparr>, emptying := True\<rparr>)"
proof -
  have "sem_max (recv_full (ring_net x)) = 4" "sem_count (recv_full (ring_net x)) \<le> 4" using assms(1) by (auto simp: ring_inv_def net_wf_def)
  note t = take_4[OF assms(3) this]
  show ?thesis using assms(1,2) t by (simp add: ring_inv_def waiting_frames_def net_wf_def)
qed

lemma frame_at_store:
  assumes "net_wf net" and "recv_store data net = Inr net'"
  shows "frame_at net' = (frame_at net)(unat (recv_head net) := data)" and "unat (recv_head net') = (unat (recv_head net) + 1) mod 4"
    and "recv_tail net' = recv_tail net" and "recv_empty net' = recv_empty net" and "recv_full net' = recv_full net"
proof -
  have h: "recv_head net < 4" "unat (recv_head net) < length (bufs net)" using assms(1) next_index(3)[of "recv_head net"] by (auto simp: net_wf_def)
  have e: "net' = net\<lparr>recv_head := (recv_head net + 1) mod 4, bufs := (bufs net)[unat (recv_head net) :=
        \<lparr>nb_bytes = data @ drop (length data) (nb_bytes (bufs net ! unat (recv_head net))), nb_len = length data\<rparr>]\<rparr>"
    using assms(2) by (simp add: recv_store_eq[OF assms(1)] split: if_splits)
  show "frame_at net' = (frame_at net)(unat (recv_head net) := data)" using h(2) by (auto simp: e frame_at_def nth_list_update)
  show "unat (recv_head net') = (unat (recv_head net) + 1) mod 4" using next_index(2)[OF h(1)] by (simp add: e)
  show "recv_tail net' = recv_tail net" "recv_empty net' = recv_empty net" "recv_full net' = recv_full net" by (simp_all add: e)
qed

lemma ring_inv_end_store:
  assumes "ring_inv x" and "filling x" and s: "recv_store data (ring_net x) = Inr net" and g: "try_give (recv_full net) = Some f"
  shows "ring_inv (x\<lparr>ring_net := net\<lparr>recv_full := f\<rparr>, filling := False, stored := stored x @ [data]\<rparr>)"
proof -
  have wf: "net_wf (ring_net x)" using assms(1) by (simp add: ring_inv_def)
  note st = frame_at_store[OF wf s] and wf' = recv_store_wf[OF wf s]
  have "sem_max (recv_full net) = 4" "sem_count (recv_full net) \<le> 4" using wf' by (auto simp: net_wf_def)
  note t = give_4[OF g this]
  have r: "ring_ok (waiting_frames x) (unat (recv_head (ring_net x))) (unat (recv_tail (ring_net x))) (frame_at (ring_net x)) (stored x) (handled x)"
    and n: "waiting_frames x < 4" using assms(1,2) by (auto simp: ring_inv_def)
  show ?thesis using assms(1,2) wf' t st ring_ok_push[OF r n, of data]
    by (simp add: ring_inv_def waiting_frames_def net_wf_def)
qed

lemma ring_inv_end_handle:
  assumes "ring_inv x" and e: "emptying x" and s: "next_frame (ring_net x) = Inr (data, net)" and g: "try_give (recv_empty net) = Some e'"
  shows "ring_inv (x\<lparr>ring_net := net\<lparr>recv_empty := e'\<rparr>, emptying := False, handled := handled x @ [data]\<rparr>)"
    and "data = stored x ! length (handled x)"
proof -
  have wf: "net_wf (ring_net x)" using assms(1) by (simp add: ring_inv_def)
  then have h: "recv_tail (ring_net x) < 4" by (simp add: net_wf_def)
  have d: "data = frame_at (ring_net x) (unat (recv_tail (ring_net x)))" and n: "net = (ring_net x)\<lparr>recv_tail := (recv_tail (ring_net x) + 1) mod 4\<rparr>"
    using s by (simp_all add: next_frame_eq[OF wf] frame_at_def)
  have wf': "net_wf net" by (rule next_frame_wf[OF wf s])
  have "sem_max (recv_empty net) = 4" "sem_count (recv_empty net) \<le> 4" using wf' by (auto simp: net_wf_def)
  note t = give_4[OF g this]
  let ?n = "unat (sem_count (recv_full (ring_net x)))"
  have r: "ring_ok (Suc ?n) (unat (recv_head (ring_net x))) (unat (recv_tail (ring_net x))) (frame_at (ring_net x)) (stored x) (handled x)"
    using assms(1) e by (simp add: ring_inv_def waiting_frames_def)
  show "data = stored x ! length (handled x)" using ring_ok_pop(2)[OF r] d by simp
  show "ring_inv (x\<lparr>ring_net := net\<lparr>recv_empty := e'\<rparr>, emptying := False, handled := handled x @ [data]\<rparr>)"
    using assms(1) e wf' t ring_ok_pop(1)[OF r] next_index(2)[OF h]
    by (simp add: ring_inv_def waiting_frames_def net_wf_def n d)
qed

lemma ring_inv_step: "ring_step x y \<Longrightarrow> ring_inv x \<Longrightarrow> ring_inv y"
proof (induction rule: ring_step.induct)
  case (queues x e f)
  then show ?case by (simp add: ring_inv_def waiting_frames_def net_wf_def same_count_def)
qed (simp_all add: ring_inv_begin_store ring_inv_end_store ring_inv_begin_handle ring_inv_end_handle(1))

lemma ring_inv_reach:
  assumes "ring_step\<^sup>*\<^sup>* x y" and "ring_inv x"
  shows "ring_inv y"
  using assms by (induction rule: rtranclp_induct) (auto intro: ring_inv_step)

text \<open>In a state of the ring, what the two tasks do next goes through.\<close>

lemma store_progress:
  assumes "ring_inv x" and "filling x" and "length data \<le> 1526"
  shows "\<exists>net f. recv_store data (ring_net x) = Inr net \<and> try_give (recv_full net) = Some f"
proof -
  have wf: "net_wf (ring_net x)" using assms(1) by (simp add: ring_inv_def)
  obtain net where n: "recv_store data (ring_net x) = Inr net" using assms(3) by (simp add: recv_store_eq[OF wf])
  have "unat (sem_count (recv_full (ring_net x))) < 4" using assms(1,2) by (auto simp: ring_inv_def waiting_frames_def)
  moreover have "sem_max (recv_full (ring_net x)) = 4" using wf by (simp add: net_wf_def)
  ultimately obtain f where "try_give (recv_full net) = Some f"
    using give_4_ok[of "recv_full net"] frame_at_store(5)[OF wf n] by auto
  then show ?thesis using n by blast
qed

lemma handle_progress:
  assumes "ring_inv x" and "emptying x"
  shows "\<exists>net e. next_frame (ring_net x) = Inr (stored x ! length (handled x), net) \<and> try_give (recv_empty net) = Some e"
proof -
  have wf: "net_wf (ring_net x)" using assms(1) by (simp add: ring_inv_def)
  note n = next_frame_eq[OF wf]
  have "unat (sem_count (recv_empty (ring_net x))) < 4" using assms by (auto simp: ring_inv_def waiting_frames_def)
  moreover have "sem_max (recv_empty (ring_net x)) = 4" using wf by (simp add: net_wf_def)
  ultimately obtain e where e: "try_give (recv_empty (ring_net x)) = Some e"
    using give_4_ok by blast
  show ?thesis using ring_inv_end_handle(2)[OF assms n] e n by simp
qed

section \<open>The calls\<close>

lemma same_count_refl [simp]: "same_count s s"
  by (simp add: same_count_def)

lemma pop_waiting_eq: "pop_waiting s = (if waiting s = [] then None else Some (hd (waiting s)), s\<lparr>waiting := tl (waiting s)\<rparr>)"
  by (cases "waiting s") (simp_all add: pop_waiting_def)

lemma pop_releasing_empty: "releasing s = [] \<Longrightarrow> pop_releasing s = (None, s)"
  by (simp add: pop_releasing_def)

text \<open>What the calls rely on besides: dropping the lock does not switch.\<close>

locale waking_sched = blocking_sched +
  assumes unlock_current: "kinv k \<Longrightarrow> api_lock api k = Inr k1 \<Longrightarrow> api_current api (api_unlock api k1) = api_current api k"
begin

lemma try_wait_free:
  assumes "releasing s = []"
  shows "try_wait api s k = (case try_take s of None \<Rightarrow> Inr (False, s, k) | Some s' \<Rightarrow> Inr (True, s', k))"
proof -
  have "pop_releasing s' = (None, s')" if "try_take s = Some s'" for s'
    using that assms by (intro pop_releasing_empty) (auto simp: try_take_def split: if_splits)
  then show ?thesis by (simp add: try_wait_def wake_popped_def split: option.split)
qed

lemma lock_wake_ok:
  assumes "kinv k" and "u \<in> known k" and "u \<noteq> api_current api k"
  obtains k' where "lock_wake api u k = Inr k'" "kinv k'" "run k' = insert u (run k)" "known k' = known k"
proof -
  obtain k1 where k1: "api_lock api k = Inr k1" using lock_ok[OF assms(1)] by blast
  show ?thesis using wake_ok[OF assms(1) k1 assms(2,3)] k1 that by (auto simp: lock_wake_def)
qed

text \<open>A signal below the maximum goes through and wakes the first task that waits.\<close>

lemma signal_through_law:
  assumes "kinv k" and g: "try_give s = Some s'" and w: "set (waiting s) \<subseteq> known k - {api_current api k}"
  obtains k' where "signal_call api now s k = Inr (True, s'\<lparr>waiting := tl (waiting s)\<rparr>, k')" "kinv k'"
    "run k' = run k \<union> set (take 1 (waiting s))" "known k' = known k"
proof -
  obtain k1 where k1: "api_lock api k = Inr k1" using lock_ok[OF assms(1)] by blast
  let ?k = "api_unlock api k1"
  have d: "kinv ?k" "run ?k = run k" "known ?k = known k" "api_current api k1 = api_current api k" using lock_drop[OF assms(1) k1] by auto
  have q: "waiting s' = waiting s" using g by (auto simp: try_give_def split: if_splits)
  have r: "signal_round api now s k = Inr (True, s', ?k)" using k1 g by (simp add: signal_round_def)
  show ?thesis
  proof (cases "waiting s")
    case Nil
    then have "s'\<lparr>waiting := []\<rparr> = s'" using q by (metis semaphore.surjective semaphore.update_convs(3))
    then show ?thesis using that[of ?k] r d q Nil by (simp add: signal_call_def pop_waiting_eq wake_popped_def)
  next
    case (Cons u us)
    have "u \<noteq> api_current api ?k" using w Cons unlock_current[OF assms(1) k1] by auto
    then obtain k' where "lock_wake api u ?k = Inr k'" "kinv k'" "run k' = insert u (run ?k)" "known k' = known ?k"
      using lock_wake_ok[OF d(1), of u] w Cons d(3) by auto
    then show ?thesis using that[of k'] r d q Cons by (simp add: signal_call_def pop_waiting_eq wake_popped_def)
  qed
qed

text \<open>The call that stores a frame, as steps of the ring.\<close>

lemma recv_frame_law:
  assumes x: "ring_inv x" "\<not> filling x" and k: "kinv k" and len: "length data \<le> 1526"
    and q: "releasing (recv_empty (ring_net x)) = []" "set (waiting (recv_full (ring_net x))) \<subseteq> known k - {api_current api k}"
  shows "\<exists>net' k'. recv_frame api now data (ring_net x, k) = Inr (True, net', k') \<and> kinv k' \<and>
    (if sem_count (recv_empty (ring_net x)) = 0 then net' = ring_net x \<and> k' = k
     else ring_step\<^sup>*\<^sup>* x (x\<lparr>ring_net := net', stored := stored x @ [data]\<rparr>) \<and>
       run k' = run k \<union> set (take 1 (waiting (recv_full (ring_net x)))) \<and> releasing (recv_empty net') = [] \<and>
       waiting (recv_full net') = tl (waiting (recv_full (ring_net x))))"
proof (cases "try_take (recv_empty (ring_net x))")
  case None
  then show ?thesis using k by (simp add: recv_frame_def try_wait_free[OF q(1)] try_take_def word_gt_0 split: if_splits)
next
  case (Some e)
  let ?x1 = "x\<lparr>ring_net := (ring_net x)\<lparr>recv_empty := e\<rparr>, filling := True\<rparr>"
  have s1: "ring_step x ?x1" by (rule begin_store[OF x(2) Some])
  have i1: "ring_inv ?x1" by (rule ring_inv_step[OF s1 x(1)])
  obtain net f where n: "recv_store data (ring_net ?x1) = Inr net" "try_give (recv_full net) = Some f"
    using store_progress[OF i1 _ len] by auto
  have wf: "net_wf (ring_net ?x1)" using i1 by (simp add: ring_inv_def)
  have full: "recv_full net = recv_full (ring_net x)" using frame_at_store(5)[OF wf n(1)] by simp
  let ?x2 = "?x1\<lparr>ring_net := net\<lparr>recv_full := f\<rparr>, filling := False, stored := stored ?x1 @ [data]\<rparr>"
  have s2: "ring_step ?x1 ?x2" by (rule end_store[OF _ n]) simp
  obtain k' where k': "signal_call api now (recv_full net) k = Inr (True, f\<lparr>waiting := tl (waiting (recv_full net))\<rparr>, k')" "kinv k'"
    "run k' = run k \<union> set (take 1 (waiting (recv_full net)))"
    using signal_through_law[OF k n(2), of now] q(2) full by metis
  let ?f = "f\<lparr>waiting := tl (waiting (recv_full net))\<rparr>"
  let ?x3 = "?x2\<lparr>ring_net := (ring_net ?x2)\<lparr>recv_empty := recv_empty (ring_net ?x2), recv_full := ?f\<rparr>\<rparr>"
  have s3: "ring_step ?x2 ?x3" by (rule queues) (simp_all add: same_count_def)
  have "ring_step\<^sup>*\<^sup>* x ?x3" using s1 s2 s3 by (meson r_into_rtranclp rtranclp_trans)
  moreover have "?x3 = x\<lparr>ring_net := net\<lparr>recv_full := ?f\<rparr>, stored := stored x @ [data]\<rparr>" using x(2) by (cases x) simp
  ultimately have "ring_step\<^sup>*\<^sup>* x (x\<lparr>ring_net := net\<lparr>recv_full := ?f\<rparr>, stored := stored x @ [data]\<rparr>)" by simp
  moreover have "recv_frame api now data (ring_net x, k) = Inr (True, net\<lparr>recv_full := ?f\<rparr>, k')"
    using n k'(1) Some by (simp add: recv_frame_def try_wait_free[OF q(1)])
  moreover have "sem_count (recv_empty (ring_net x)) \<noteq> 0" using Some by (auto simp: try_take_def split: if_splits)
  moreover have "releasing e = []" using Some q(1) by (auto simp: try_take_def split: if_splits)
  then have "releasing (recv_empty net) = []" using frame_at_store(4)[OF wf n(1)] by simp
  ultimately show ?thesis using k'(2,3) full by auto
qed

end

interpretation kernel_waking: waking_sched "kernel_api sp ca" "check_runtime sp ca" "sched_ready sp ca" runnable_tasks known_tasks
proof
  show "api_current (kernel_api sp ca) (api_unlock (kernel_api sp ca) k1) = api_current (kernel_api sp ca) k"
    if "sched_ready sp ca k" "api_lock (kernel_api sp ca) k = Inr k1" for k k1
    by (rule readyE[OF that[simplified]]) (simp add: drop_ready(3))
qed

section \<open>Properties\<close>

definition sample_boxes :: "u8 list list" where
  "sample_boxes = replicate 4 (replicate 1526 0)"

definition sample_net :: interface where
  "sample_net = \<lparr>if_device = BDF 0 3 0, bufs = map net_buf_new sample_boxes,
     recv_empty = \<lparr>sem_count = 4, sem_max = 4, waiting = [], releasing = []\<rparr>,
     recv_full = \<lparr>sem_count = 0, sem_max = 4, waiting = [0], releasing = []\<rparr>, recv_head = 0, recv_tail = 0\<rparr>"

lemma sample_net_new:
  obtains net where "interface_new (BDF 0 3 0) sample_boxes = Inr net" "length sample_boxes = 4"
    "\<forall>b \<in> set sample_boxes. length b = 1526" "ring_step (ring_start net) (ring_start sample_net)"
proof -
  have "ring_step (ring_start (sample_net\<lparr>recv_full := (recv_full sample_net)\<lparr>waiting := []\<rparr>\<rparr>)) (ring_start sample_net)"
    using queues[of "ring_start (sample_net\<lparr>recv_full := (recv_full sample_net)\<lparr>waiting := []\<rparr>\<rparr>)" "recv_empty sample_net" "recv_full sample_net"]
    by (simp add: same_count_def ring_start_def)
  then show ?thesis
    using that[of "sample_net\<lparr>recv_full := (recv_full sample_net)\<lparr>waiting := []\<rparr>\<rparr>"]
    by (simp add: interface_new_def semaphore_new_def sample_net_def sample_boxes_def)
qed

lemma sample1_known: "0 \<in> known_tasks sample_kernel1"
  using sample1_runnable by (auto simp: runnable_abs known_tasks_def)

lemma sample_stored:
  obtains net where "ring_step\<^sup>*\<^sup>* (ring_start sample_net) \<lparr>ring_net = net, filling = False, emptying = True, stored = [[1, 2, 3]], handled = []\<rparr>"
proof -
  obtain net0 where n: "interface_new (BDF 0 3 0) sample_boxes = Inr net0" "length sample_boxes = 4"
    "\<forall>b \<in> set sample_boxes. length b = 1526" "ring_step (ring_start net0) (ring_start sample_net)" by (rule sample_net_new)
  have i: "ring_inv (ring_start sample_net)" by (rule ring_inv_step[OF n(4) ring_inv_start[OF n(1-3)]])
  obtain net' where s: "ring_step\<^sup>*\<^sup>* (ring_start sample_net) ((ring_start sample_net)\<lparr>ring_net := net', stored := stored (ring_start sample_net) @ [[1, 2, 3]]\<rparr>)"
    using kernel_waking.recv_frame_law[OF i _ sample1_ready, of "[1, 2, 3]" 0] sample1_known sample1_current
    by (force simp: ring_start_def sample_net_def split: if_splits)
  let ?x = "(ring_start sample_net)\<lparr>ring_net := net', stored := stored (ring_start sample_net) @ [[1, 2, 3]]\<rparr>"
  have "ring_inv ?x" by (rule ring_inv_reach[OF s i])
  then have "unat (sem_count (recv_full net')) = 1" by (simp add: ring_inv_def ring_ok_def waiting_frames_def ring_start_def)
  then have "sem_count (recv_full net') \<noteq> 0" by auto
  then obtain f where f: "try_take (recv_full (ring_net ?x)) = Some f" by (auto simp: try_take_def word_gt_0)
  have "ring_step ?x (?x\<lparr>ring_net := (ring_net ?x)\<lparr>recv_full := f\<rparr>, emptying := True\<rparr>)"
    by (rule begin_handle[OF _ f]) (simp add: ring_start_def)
  from rtranclp.rtrancl_into_rtrancl[OF s this] show ?thesis using that by (simp add: ring_start_def)
qed

text \<open>C7: The receive ring: however the two tasks interleave, the frames handled are the first of those stored, in
  order and unchanged, at most four are waiting, the task that has taken an empty buffer fills it and signals
  without blocking, and the task that has taken a full buffer reads the next frame and signals without
  blocking, so neither ever blocks with the lock of a buffer held.\<close>

theorem ring_fifo:
  assumes "interface_new dev boxes = Inr net" and "length boxes = 4" and "\<forall>b \<in> set boxes. length b = 1526"
    and "ring_step\<^sup>*\<^sup>* (ring_start net) x"
  shows "prefix (handled x) (stored x) \<and> length (stored x) \<le> length (handled x) + 4 \<and>
    (filling x \<longrightarrow> (\<forall>data. length data \<le> 1526 \<longrightarrow>
      (\<exists>net f. recv_store data (ring_net x) = Inr net \<and> try_give (recv_full net) = Some f))) \<and>
    (emptying x \<longrightarrow> (\<exists>net e. next_frame (ring_net x) = Inr (stored x ! length (handled x), net) \<and> try_give (recv_empty net) = Some e))"
proof -
  have i: "ring_inv x" by (rule ring_inv_reach[OF assms(4) ring_inv_start[OF assms(1-3)]])
  then have "handled x = take (length (handled x)) (stored x)" "length (stored x) \<le> length (handled x) + 4"
    by (auto simp: ring_inv_def ring_ok_def)
  moreover from this(1) have "prefix (handled x) (stored x)" by (metis take_is_prefix)
  ultimately show ?thesis using store_progress[OF i] handle_progress[OF i] by blast
qed

theorem ring_fifo_witness:
  "\<exists>x net e. ring_step\<^sup>*\<^sup>* (ring_start sample_net) x \<and> stored x = [[1, 2, 3]] \<and>
     next_frame (ring_net x) = Inr ([1, 2, 3], net) \<and> try_give (recv_empty net) = Some e"
proof -
  obtain net0 where n: "interface_new (BDF 0 3 0) sample_boxes = Inr net0" "length sample_boxes = 4"
    "\<forall>b \<in> set sample_boxes. length b = 1526" "ring_step (ring_start net0) (ring_start sample_net)" by (rule sample_net_new)
  obtain net where s: "ring_step\<^sup>*\<^sup>* (ring_start sample_net) \<lparr>ring_net = net, filling = False, emptying = True, stored = [[1, 2, 3]], handled = []\<rparr>"
    by (rule sample_stored)
  from converse_rtranclp_into_rtranclp[of ring_step, OF n(4) this] have
    "ring_step\<^sup>*\<^sup>* (ring_start net0) \<lparr>ring_net = net, filling = False, emptying = True, stored = [[1, 2, 3]], handled = []\<rparr>" .
  from ring_fifo[OF n(1-3) this] s show ?thesis by fastforce
qed

text \<open>Property: Receiving a frame: when the scheduler is in order, nobody is blocked in a signal, and the tasks waiting
  for a frame exist and are not the caller, then \<open>recv_frame\<close> returns. If there is an empty buffer the frame is
  appended to the frames stored and the first waiting task becomes runnable; otherwise nothing changes and
  the frame is lost.\<close>

theorem recv_frame_stores:
  assumes "interface_new dev boxes = Inr net" and "length boxes = 4" and "\<forall>b \<in> set boxes. length b = 1526"
    and "ring_step\<^sup>*\<^sup>* (ring_start net) x" and "\<not> filling x" and "sched_ready sp ca k" and "length data \<le> 1526"
    and "releasing (recv_empty (ring_net x)) = []" and "set (waiting (recv_full (ring_net x))) \<subseteq> known_tasks k - {current_task (cpu k)}"
  shows "\<exists>net' k'. recv_frame (kernel_api sp ca) now data (ring_net x, k) = Inr (True, net', k') \<and> sched_ready sp ca k' \<and>
    (if sem_count (recv_empty (ring_net x)) = 0 then net' = ring_net x \<and> k' = k
     else ring_step\<^sup>*\<^sup>* (ring_start net) (x\<lparr>ring_net := net', stored := stored x @ [data]\<rparr>) \<and>
       runnable_tasks k' = runnable_tasks k \<union> set (take 1 (waiting (recv_full (ring_net x)))))"
proof -
  have i: "ring_inv x" by (rule ring_inv_reach[OF assms(4) ring_inv_start[OF assms(1-3)]])
  obtain net' k' where r: "recv_frame (kernel_api sp ca) now data (ring_net x, k) = Inr (True, net', k')" "sched_ready sp ca k'"
    "if sem_count (recv_empty (ring_net x)) = 0 then net' = ring_net x \<and> k' = k
     else ring_step\<^sup>*\<^sup>* x (x\<lparr>ring_net := net', stored := stored x @ [data]\<rparr>) \<and>
       runnable_tasks k' = runnable_tasks k \<union> set (take 1 (waiting (recv_full (ring_net x))))"
    using kernel_waking.recv_frame_law[OF i assms(5-8), of now] assms(9) by auto
  then show ?thesis using rtranclp_trans[OF assms(4), of "x\<lparr>ring_net := net', stored := stored x @ [data]\<rparr>"] by auto
qed

theorem recv_frame_stores_witness:
  "\<exists>net' k'. recv_frame (kernel_api bool_spin sample_code) 0 [1, 2, 3] (sample_net, sample_kernel1) = Inr (True, net', k') \<and>
     runnable_tasks k' = {0, 1} \<and> net' \<noteq> sample_net"
proof -
  obtain net0 where n: "interface_new (BDF 0 3 0) sample_boxes = Inr net0" "length sample_boxes = 4"
    "\<forall>b \<in> set sample_boxes. length b = 1526" "ring_step (ring_start net0) (ring_start sample_net)" by (rule sample_net_new)
  have q: "\<not> filling (ring_start sample_net)" "length [1, 2, 3 :: u8] \<le> 1526" "releasing (recv_empty (ring_net (ring_start sample_net))) = []"
    "set (waiting (recv_full (ring_net (ring_start sample_net)))) \<subseteq> known_tasks sample_kernel1 - {current_task (cpu sample_kernel1)}"
    using sample1_known by (simp_all add: ring_start_def sample_net_def sample1_current)
  obtain net' k' where r: "recv_frame (kernel_api bool_spin sample_code) 0 [1, 2, 3] (sample_net, sample_kernel1) = Inr (True, net', k')"
    "runnable_tasks k' = {0, 1}" "ring_step\<^sup>*\<^sup>* (ring_start net0) \<lparr>ring_net = net', filling = False, emptying = False, stored = [[1, 2, 3]], handled = []\<rparr>"
    using recv_frame_stores[OF n(1-3) r_into_rtranclp[of ring_step, OF n(4)] q(1) sample1_ready q(2-4), of 0]
    by (auto simp: ring_start_def sample_net_def sample1_runnable)
  have "ring_inv \<lparr>ring_net = net', filling = False, emptying = False, stored = [[1, 2, 3]], handled = []\<rparr>"
    by (rule ring_inv_reach[OF r(3) ring_inv_start[OF n(1-3)]])
  then have "sem_count (recv_full net') \<noteq> sem_count (recv_full sample_net)"
    by (auto simp: ring_inv_def ring_ok_def waiting_frames_def sample_net_def)
  then show ?thesis using r(1,2) by metis
qed

end
