(* ===== verification/Arp.thy ===== *)
theory Arp
  imports Ethernet
begin

text \<open>
  ARP packets (\<open>src/net/arp.rs\<close>): reading the fields of a packet, whose address lengths are bytes of the
  packet itself, the builder, and the writer of replies that the network stack passes to the driver.
\<close>

section \<open>Model\<close>

datatype opcode = Request | Reply | Unknown

definition opcode_from :: "u16 \<Rightarrow> opcode" where
  "opcode_from value = (if value = 1 then Request else if value = 2 then Reply else Unknown)"

fun opcode_to :: "opcode \<Rightarrow> u16" where
  "opcode_to Request = 1"
| "opcode_to Reply = 2"
| "opcode_to Unknown = 0"

text \<open>\<open>u16::to_be_bytes\<close> and \<open>u16::from_be_bytes\<close>\<close>

definition to_be_bytes :: "u16 \<Rightarrow> u8 list" where
  "to_be_bytes w = [ucast (drop_bit 8 w), ucast w]"

fun from_be_bytes :: "u8 list \<Rightarrow> u16 res" where
  "from_be_bytes [a, b] = Inr (push_bit 8 (ucast a) OR ucast b)"
| "from_be_bytes _ = Inl OutOfBounds"

record arp =
  arp_bytes :: "u8 list"

definition arp_from_bytes :: "u8 list \<Rightarrow> arp" where
  "arp_from_bytes bytes = \<lparr>arp_bytes = bytes\<rparr>"

definition arp_len :: "arp \<Rightarrow> nat" where
  "arp_len a = length (arp_bytes a)"

definition hardware_address_space :: "arp \<Rightarrow> u16 res" where
  "hardware_address_space a = rbind (slice (arp_bytes a) 0 2) from_be_bytes"

definition protocol_address_space :: "arp \<Rightarrow> u16 res" where
  "protocol_address_space a = rbind (slice (arp_bytes a) 2 4) from_be_bytes"

definition hardware_address_length :: "arp \<Rightarrow> u8 res" where
  "hardware_address_length a = index (arp_bytes a) 4"

definition protocol_address_length :: "arp \<Rightarrow> u8 res" where
  "protocol_address_length a = index (arp_bytes a) 5"

definition arp_opcode :: "arp \<Rightarrow> u16 res" where
  "arp_opcode a = rbind (slice (arp_bytes a) 6 8) from_be_bytes"

definition sender_hardware_address :: "arp \<Rightarrow> u8 list res" where
  "sender_hardware_address a =
     rbind (hardware_address_length a) (\<lambda>hlen. slice (arp_bytes a) 8 (8 + unat hlen))"

definition sender_protocol_address :: "arp \<Rightarrow> u8 list res" where
  "sender_protocol_address a =
     rbind (hardware_address_length a) (\<lambda>hlen.
     let start = 8 + unat hlen in
     rbind (protocol_address_length a) (\<lambda>plen. slice (arp_bytes a) start (start + unat plen)))"

definition target_hardware_address :: "arp \<Rightarrow> u8 list res" where
  "target_hardware_address a =
     rbind (hardware_address_length a) (\<lambda>hlen.
     rbind (protocol_address_length a) (\<lambda>plen.
     let start = 8 + unat hlen + unat plen in
     slice (arp_bytes a) start (start + unat hlen)))"

definition target_protocol_address :: "arp \<Rightarrow> u8 list res" where
  "target_protocol_address a =
     rbind (hardware_address_length a) (\<lambda>hlen.
     rbind (protocol_address_length a) (\<lambda>plen.
     let start = 8 + unat hlen + unat plen + unat hlen in
     slice (arp_bytes a) start (start + unat plen)))"

subsection \<open>Building packets\<close>

record arp_builder =
  ab_buf :: "u8 list"
  ab_pos :: nat

definition arp_builder_new :: "u8 list \<Rightarrow> arp_builder" where
  "arp_builder_new buf = \<lparr>ab_buf = buf, ab_pos = 0\<rparr>"

text \<open>\<open>self.buf[self.pos..self.pos + n].copy_from_slice(bytes); self.pos += n\<close>, which for one byte is the
  indexed store.\<close>

definition ab_put :: "u8 list \<Rightarrow> arp_builder \<Rightarrow> arp_builder res" where
  "ab_put bytes b =
     rbind (write_slice (ab_buf b) (ab_pos b) bytes) (\<lambda>buf.
     Inr (b\<lparr>ab_buf := buf, ab_pos := ab_pos b + length bytes\<rparr>))"

definition put_hardware_address_space :: "u16 \<Rightarrow> arp_builder \<Rightarrow> arp_builder res" where
  "put_hardware_address_space space b = ab_put (to_be_bytes space) b"

definition put_protocol_address_space :: "u16 \<Rightarrow> arp_builder \<Rightarrow> arp_builder res" where
  "put_protocol_address_space space b = ab_put (to_be_bytes space) b"

definition put_hardware_address_length :: "u8 \<Rightarrow> arp_builder \<Rightarrow> arp_builder res" where
  "put_hardware_address_length len b = ab_put [len] b"

definition put_protocol_address_length :: "u8 \<Rightarrow> arp_builder \<Rightarrow> arp_builder res" where
  "put_protocol_address_length len b = ab_put [len] b"

definition put_opcode :: "opcode \<Rightarrow> arp_builder \<Rightarrow> arp_builder res" where
  "put_opcode op b = ab_put (to_be_bytes (opcode_to op)) b"

definition put_sender_hardware_address :: "u8 list \<Rightarrow> arp_builder \<Rightarrow> arp_builder res" where
  "put_sender_hardware_address address b = ab_put address b"

definition put_sender_protocol_address :: "u8 list \<Rightarrow> arp_builder \<Rightarrow> arp_builder res" where
  "put_sender_protocol_address address b = ab_put address b"

definition put_target_hardware_address :: "u8 list \<Rightarrow> arp_builder \<Rightarrow> arp_builder res" where
  "put_target_hardware_address address b = ab_put address b"

definition put_target_protocol_address :: "u8 list \<Rightarrow> arp_builder \<Rightarrow> (arp \<times> u8 list) res" where
  "put_target_protocol_address address b =
     rbind (ab_put address b) (\<lambda>b.
     rbind (slice (ab_buf b) 0 (ab_pos b)) (\<lambda>bytes. Inr (\<lparr>arp_bytes = bytes\<rparr>, ab_buf b)))"

text \<open>The closure that \<open>reply_writer\<close> returns: arguments are read from the request as the chain reaches
  them.\<close>

definition reply_writer :: "u8 list \<Rightarrow> mac_address \<Rightarrow> writer" where
  "reply_writer recv_bytes sha buf =
     (let request = arp_from_bytes recv_bytes in
      rbind (hardware_address_space request) (\<lambda>hs.
      rbind (put_hardware_address_space hs (arp_builder_new buf)) (\<lambda>b.
      rbind (protocol_address_space request) (\<lambda>ps.
      rbind (put_protocol_address_space ps b) (\<lambda>b.
      rbind (hardware_address_length request) (\<lambda>hlen.
      rbind (put_hardware_address_length hlen b) (\<lambda>b.
      rbind (protocol_address_length request) (\<lambda>plen.
      rbind (put_protocol_address_length plen b) (\<lambda>b.
      rbind (put_opcode Reply b) (\<lambda>b.
      rbind (put_sender_hardware_address (mac_bytes sha) b) (\<lambda>b.
      rbind (target_protocol_address request) (\<lambda>tpa.
      rbind (put_sender_protocol_address tpa b) (\<lambda>b.
      rbind (sender_hardware_address request) (\<lambda>rsha.
      rbind (put_target_hardware_address rsha b) (\<lambda>b.
      rbind (target_protocol_address request) (\<lambda>tpa.
      rbind (put_target_protocol_address tpa b) (\<lambda>(reply, buf).
      Inr (arp_len reply, buf))))))))))))))))))"

section \<open>Lemmas\<close>

interpretation arp_bytes_builder: byte_builder ab_buf ab_pos ab_put
  by unfold_locales (auto simp: ab_put_def write_slice_def)

lemma built_arp_new: "built ab_buf ab_pos buf [] (arp_builder_new buf)"
  by (simp add: built_def arp_builder_new_def)

lemmas put_defs =
  put_hardware_address_space_def put_protocol_address_space_def put_hardware_address_length_def
  put_protocol_address_length_def put_opcode_def put_sender_hardware_address_def
  put_sender_protocol_address_def put_target_hardware_address_def

lemma opcode_roundtrip: "op \<noteq> Unknown \<Longrightarrow> opcode_from (opcode_to op) = op"
  by (cases op) (simp_all add: opcode_from_def)

lemma length_to_be_bytes [simp]: "length (to_be_bytes w) = 2"
  by (simp add: to_be_bytes_def)

lemma from_to_be_bytes [simp]: "from_be_bytes (to_be_bytes w) = Inr w"
proof -
  have "push_bit 8 (ucast (ucast (drop_bit 8 w) :: u8)) OR ucast (ucast w :: u8) = w"
    by (rule bit_word_eqI) (auto simp: bit_simps)
  then show ?thesis by (simp add: to_be_bytes_def)
qed

text \<open>The layout of a packet, and its fields.\<close>

definition arp_layout ::
  "u16 \<Rightarrow> u16 \<Rightarrow> u8 \<Rightarrow> u8 \<Rightarrow> u16 \<Rightarrow> u8 list \<Rightarrow> u8 list \<Rightarrow> u8 list \<Rightarrow> u8 list \<Rightarrow> u8 list" where
  "arp_layout hs ps hlen plen op sha spa tha tpa =
     to_be_bytes hs @ to_be_bytes ps @ [hlen, plen] @ to_be_bytes op @ sha @ spa @ tha @ tpa"

definition arp_addresses :: "u8 \<Rightarrow> u8 \<Rightarrow> u8 list \<Rightarrow> u8 list \<Rightarrow> u8 list \<Rightarrow> u8 list \<Rightarrow> bool" where
  "arp_addresses hlen plen sha spa tha tpa \<longleftrightarrow>
     length sha = unat hlen \<and> length spa = unat plen \<and> length tha = unat hlen \<and> length tpa = unat plen"

lemma arp_head_reads:
  "hardware_address_space \<lparr>arp_bytes = arp_layout hs ps hlen plen op sha spa tha tpa @ pad\<rparr> = Inr hs"
  "protocol_address_space \<lparr>arp_bytes = arp_layout hs ps hlen plen op sha spa tha tpa @ pad\<rparr> = Inr ps"
  "hardware_address_length \<lparr>arp_bytes = arp_layout hs ps hlen plen op sha spa tha tpa @ pad\<rparr> = Inr hlen"
  "protocol_address_length \<lparr>arp_bytes = arp_layout hs ps hlen plen op sha spa tha tpa @ pad\<rparr> = Inr plen"
  "arp_opcode \<lparr>arp_bytes = arp_layout hs ps hlen plen op sha spa tha tpa @ pad\<rparr> = Inr op"
  by (simp_all add: hardware_address_space_def protocol_address_space_def hardware_address_length_def
    protocol_address_length_def arp_opcode_def arp_layout_def slice_def index_def nth_append)

lemma drop_arp_layout:
  "drop (8 + n) (arp_layout hs ps hlen plen op sha spa tha tpa @ pad) = drop n (sha @ spa @ tha @ tpa @ pad)"
proof -
  have "drop 8 (arp_layout hs ps hlen plen op sha spa tha tpa @ pad) = sha @ spa @ tha @ tpa @ pad"
    by (simp add: arp_layout_def to_be_bytes_def)
  then show ?thesis by (metis add.commute drop_drop)
qed

lemma length_arp_layout [simp]:
  "length (arp_layout hs ps hlen plen op sha spa tha tpa) = 8 + length sha + length spa + length tha + length tpa"
  by (simp add: arp_layout_def)

lemma slice_arp_layout:
  assumes "n + m \<le> length (sha @ spa @ tha @ tpa)"
  shows "slice (arp_layout hs ps hlen plen op sha spa tha tpa @ pad) (8 + n) (8 + n + m) =
    Inr (take m (drop n (sha @ spa @ tha @ tpa @ pad)))"
  using assms drop_arp_layout[of n hs ps hlen plen op sha spa tha tpa pad] by (simp add: slice_def del: drop_append)

lemma arp_address_reads:
  assumes "arp_addresses hlen plen sha spa tha tpa"
  shows "sender_hardware_address \<lparr>arp_bytes = arp_layout hs ps hlen plen op sha spa tha tpa @ pad\<rparr> = Inr sha"
    and "sender_protocol_address \<lparr>arp_bytes = arp_layout hs ps hlen plen op sha spa tha tpa @ pad\<rparr> = Inr spa"
    and "target_hardware_address \<lparr>arp_bytes = arp_layout hs ps hlen plen op sha spa tha tpa @ pad\<rparr> = Inr tha"
    and "target_protocol_address \<lparr>arp_bytes = arp_layout hs ps hlen plen op sha spa tha tpa @ pad\<rparr> = Inr tpa"
proof -
  note reads = arp_head_reads[of hs ps hlen plen op sha spa tha tpa pad]
  note part = slice_arp_layout[of _ _ sha spa tha tpa hs ps hlen plen op pad]
  have len: "length sha = unat hlen" "length spa = unat plen" "length tha = unat hlen" "length tpa = unat plen"
    using assms by (simp_all add: arp_addresses_def)
  show "sender_hardware_address \<lparr>arp_bytes = arp_layout hs ps hlen plen op sha spa tha tpa @ pad\<rparr> = Inr sha"
    using reads part[of 0 "unat hlen"] len by (simp add: sender_hardware_address_def)
  show "sender_protocol_address \<lparr>arp_bytes = arp_layout hs ps hlen plen op sha spa tha tpa @ pad\<rparr> = Inr spa"
    using reads part[of "unat hlen" "unat plen"] len by (simp add: sender_protocol_address_def Let_def)
  show "target_hardware_address \<lparr>arp_bytes = arp_layout hs ps hlen plen op sha spa tha tpa @ pad\<rparr> = Inr tha"
    using reads part[of "unat hlen + unat plen" "unat hlen"] len
    by (simp add: target_hardware_address_def Let_def add.assoc)
  show "target_protocol_address \<lparr>arp_bytes = arp_layout hs ps hlen plen op sha spa tha tpa @ pad\<rparr> = Inr tpa"
    using reads part[of "unat hlen + unat plen + unat hlen" "unat plen"] len
    by (simp add: target_protocol_address_def Let_def add.assoc)
qed

text \<open>When a packet is long enough for its own address lengths, and only then, its last field is read.\<close>

lemma target_protocol_address_Inr:
  "(\<exists>tpa. target_protocol_address a = Inr tpa) \<longleftrightarrow>
     6 \<le> arp_len a \<and> 8 + 2 * unat (arp_bytes a ! 4) + 2 * unat (arp_bytes a ! 5) \<le> arp_len a"
  by (auto simp: target_protocol_address_def hardware_address_length_def protocol_address_length_def
    index_def slice_def arp_len_def Let_def)

lemma target_protocol_address_Inl:
  "target_protocol_address a = Inl e \<Longrightarrow> e = OutOfBounds"
  by (auto simp: target_protocol_address_def hardware_address_length_def protocol_address_length_def
    index_def slice_def Let_def split: if_splits)

text \<open>The chain of the reply, as the chunks it puts one after the other.\<close>

lemma reply_chain:
  assumes req: "recv = arp_layout hs ps hlen plen op rsha rspa rtha rtpa @ pad"
    and adr: "arp_addresses hlen plen rsha rspa rtha rtpa"
    and b: "rfold ab_put [to_be_bytes hs, to_be_bytes ps, [hlen], [plen], to_be_bytes 2, mac_bytes sha, rtpa, rsha, rtpa]
      (arp_builder_new buf) = Inr b"
    and pos: "ab_pos b \<le> length (ab_buf b)"
  shows "reply_writer recv sha buf = Inr (ab_pos b, ab_buf b)"
proof -
  obtain b1 b2 b3 b4 b5 b6 b7 b8 where "ab_put (to_be_bytes hs) (arp_builder_new buf) = Inr b1"
      "ab_put (to_be_bytes ps) b1 = Inr b2" "ab_put [hlen] b2 = Inr b3" "ab_put [plen] b3 = Inr b4"
      "ab_put (to_be_bytes 2) b4 = Inr b5" "ab_put (mac_bytes sha) b5 = Inr b6" "ab_put rtpa b6 = Inr b7"
      "ab_put rsha b7 = Inr b8" "ab_put rtpa b8 = Inr b"
    using b by (auto simp: rbind_eq_Inr)
  then show ?thesis
    using pos by (simp add: reply_writer_def Let_def req arp_from_bytes_def arp_address_reads[OF adr] arp_head_reads
      put_defs put_target_protocol_address_def arp_len_def slice_def)
qed

lemma reply_writer_layout:
  assumes "recv = arp_layout hs ps hlen plen op rsha rspa rtha rtpa @ pad"
    and "arp_addresses hlen plen rsha rspa rtha rtpa"
    and out: "out = arp_layout hs ps hlen plen 2 (mac_bytes sha) rtpa rsha rtpa" and fits: "length out \<le> length buf"
  shows "reply_writer recv sha buf = Inr (length out, out @ drop (length out) buf)"
proof -
  let ?chunks = "[to_be_bytes hs, to_be_bytes ps, [hlen], [plen], to_be_bytes 2, mac_bytes sha, rtpa, rsha, rtpa]"
  have c: "concat ?chunks = out" by (simp add: out arp_layout_def)
  obtain b where b: "rfold ab_put ?chunks (arp_builder_new buf) = Inr b" "built ab_buf ab_pos buf out b"
    using arp_bytes_builder.put_all_built[OF built_arp_new, of ?chunks buf] c fits by (metis append_Nil length_append)
  show ?thesis
    using reply_chain[OF assms(1,2) b(1)] b(2) by (simp add: built_def)
qed

section \<open>Properties\<close>

text \<open>C31: The reply to an ARP request, as the stack writes it into a transmit buffer with room for it: every
  request with 6-byte hardware addresses is answered by a packet of the same length, address spaces and
  address lengths, whose opcode is \<open>Reply\<close>, whose sender is this interface with the protocol address that
  was asked for, and whose target hardware address is the one of the asking host. The target protocol
  address, which should be the one of the asking host, is the one that was asked for.\<close>

theorem arp_reply:
  assumes "arp_addresses hlen plen rsha rspa rtha rtpa" and "unat hlen = 6" and "20 + 2 * unat plen \<le> length buf"
  shows "\<exists>buf'. reply_writer (arp_layout hs ps hlen plen op rsha rspa rtha rtpa @ pad) sha buf = Inr (20 + 2 * unat plen, buf') \<and>
    length buf' = length buf \<and>
    (let reply = arp_from_bytes (take (20 + 2 * unat plen) buf') in
      hardware_address_space reply = Inr hs \<and> protocol_address_space reply = Inr ps \<and>
      hardware_address_length reply = Inr hlen \<and> protocol_address_length reply = Inr plen \<and>
      arp_opcode reply = Inr (opcode_to Reply) \<and>
      sender_hardware_address reply = Inr (mac_bytes sha) \<and> sender_protocol_address reply = Inr rtpa \<and>
      target_hardware_address reply = Inr rsha \<and> target_protocol_address reply = Inr rtpa)"
proof -
  let ?out = "arp_layout hs ps hlen plen 2 (mac_bytes sha) rtpa rsha rtpa"
  have len: "length ?out = 20 + 2 * unat plen" and adr: "arp_addresses hlen plen (mac_bytes sha) rtpa rsha rtpa"
    using assms(1,2) by (simp_all add: arp_layout_def arp_addresses_def)
  have "reply_writer (arp_layout hs ps hlen plen op rsha rspa rtha rtpa @ pad) sha buf
      = Inr (20 + 2 * unat plen, ?out @ drop (20 + 2 * unat plen) buf)"
    using reply_writer_layout[OF refl assms(1) refl, of hs ps sha buf op pad] assms(3) unfolding len by blast
  moreover have "take (20 + 2 * unat plen) (?out @ drop (20 + 2 * unat plen) buf) = ?out @ []"
    using len by simp
  ultimately show ?thesis
    using len assms(3) by (simp add: arp_from_bytes_def arp_head_reads[where pad = "[]", simplified]
      arp_address_reads[OF adr, where pad = "[]", simplified])
qed

theorem arp_reply_witness:
  "\<exists>buf'. reply_writer (arp_layout 1 0x800 6 4 1 [1, 2, 3, 4, 5, 6] [192, 168, 16, 1] [0, 0, 0, 0, 0, 0] [192, 168, 16, 40] @ [0, 0])
      (MACAddress 7 8 9 10 11 12) (replicate 46 0) = Inr (20 + 2 * unat (4 :: u8), buf') \<and>
    length buf' = length (replicate 46 (0 :: u8)) \<and>
    (let reply = arp_from_bytes (take (20 + 2 * unat (4 :: u8)) buf') in
      hardware_address_space reply = Inr 1 \<and> protocol_address_space reply = Inr 0x800 \<and>
      hardware_address_length reply = Inr 6 \<and> protocol_address_length reply = Inr 4 \<and>
      arp_opcode reply = Inr (opcode_to Reply) \<and>
      sender_hardware_address reply = Inr (mac_bytes (MACAddress 7 8 9 10 11 12)) \<and>
      sender_protocol_address reply = Inr [192, 168, 16, 40] \<and>
      target_hardware_address reply = Inr [1, 2, 3, 4, 5, 6] \<and> target_protocol_address reply = Inr [192, 168, 16, 40])"
  by (rule arp_reply) (simp_all add: arp_addresses_def)

end
