(* ===== verification/Network.thy ===== *)
theory Network
  imports Nic Receive_Ring Arp Rust_Collections
begin

text \<open>
  What the network stack does with a received frame (\<open>src/net/mod.rs\<close>): an ARP request for the address of
  this host is answered through the card of the interface, and every other frame is dropped. Writing to
  the log is left out, reading the fields that are logged is not.
\<close>

section \<open>Model\<close>

datatype error_type = InvalidFrame | UnknownError

record net_error =
  error_type :: error_type
  message :: string

type_synonym nics = "(bdf \<times> rtl8139) list"

definition respond ::
  "'w ports \<Rightarrow> mapper option \<Rightarrow> bdf \<Rightarrow> u8 list \<Rightarrow> nics \<times> 'w \<Rightarrow> ((unit, net_error) rust_result \<times> nics \<times> 'w) res" where
  "respond ps mp dev buf s =
     (let (NICS, w) = s in
      case try_from_bytes buf of
        Err e \<Rightarrow> Inr (Err \<lparr>error_type = InvalidFrame, message = e\<rparr>, NICS, w)
      | Ok f \<Rightarrow>
          rbind (frame_src f) (\<lambda>_.
          rbind (frame_dest f) (\<lambda>_.
          rbind (frame_ethertype f) (\<lambda>_.
          rbind (frame_ethertype f) (\<lambda>et.
          case et of
            ARP \<Rightarrow>
              rbind (frame_payload f) (\<lambda>p.
              rbind (target_protocol_address (arp_from_bytes p)) (\<lambda>tpa.
              if tpa = [192, 168, 16, 40]
              then
                rbind (expect (map_of NICS dev)) (\<lambda>nic.
                rbind (frame_payload f) (\<lambda>p.
                rbind (nic_id ps nic w) (\<lambda>(own, w).
                rbind (frame_dest f) (\<lambda>dest.
                rbind (transmit ps mp dest [None, None] ARP (reply_writer p own) (nic, w)) (\<lambda>(nic, w).
                Inr (Ok (), btm_insert dev nic NICS, w))))))
              else Inr (Ok (), NICS, w)))
          | Other a b \<Rightarrow> Inr (Ok (), NICS, w))))))"

text \<open>The result is \<open>None\<close> when the task blocked on the way.\<close>

definition handle_frame ::
  "'w ports \<Rightarrow> mapper option \<Rightarrow> 'k sched_api \<Rightarrow> u64 \<Rightarrow> interface \<times> nics \<times> 'k \<times> 'w \<Rightarrow>
   ((unit, net_error) rust_result option \<times> interface \<times> nics \<times> 'k \<times> 'w) res" where
  "handle_frame ps mp api now s =
     (let (net, NICS, k, w) = s in
      rbind (wait_call api now (recv_full net) k) (\<lambda>(through, f, k).
      let net = net\<lparr>recv_full := f\<rparr> in
      if \<not> through then Inr (None, net, NICS, k, w)
      else
        rbind (next_frame net) (\<lambda>(buf, net).
        rbind (respond ps mp (if_device net) buf (NICS, w)) (\<lambda>(result, NICS, w).
        rbind (signal_call api now (recv_empty net) k) (\<lambda>(through, e, k).
        Inr (if through then Some result else None, net\<lparr>recv_empty := e\<rparr>, NICS, k, w))))))"

section \<open>Lemmas\<close>

context waking_sched
begin

lemma wait_through_law:
  assumes "kinv k" and t: "try_take s = Some s'" and q: "releasing s = []"
  obtains k' where "wait_call api now s k = Inr (True, s', k')" "kinv k'" "run k' = run k" "known k' = known k"
    "api_current api k' = api_current api k"
proof -
  obtain k1 where k1: "api_lock api k = Inr k1" using lock_ok[OF assms(1)] by blast
  have "pop_releasing s' = (None, s')" using t q by (intro pop_releasing_empty) (auto simp: try_take_def split: if_splits)
  then have "wait_call api now s k = Inr (True, s', api_unlock api k1)"
    using k1 t by (simp add: wait_call_def wait_round_def wake_popped_def)
  then show ?thesis using that lock_drop[OF assms(1) k1] unlock_current[OF assms(1) k1] by auto
qed

text \<open>The call that handles a frame, as steps of the ring.\<close>

lemma handle_frame_law:
  assumes x: "ring_inv x" "\<not> emptying x" and k: "kinv k" and c: "sem_count (recv_full (ring_net x)) \<noteq> 0"
    and q: "releasing (recv_full (ring_net x)) = []" "waiting (recv_empty (ring_net x)) = []"
    and r: "respond ps mp (if_device (ring_net x)) (stored x ! length (handled x)) (NICS, w) = Inr (result, NICS', w')"
  shows "\<exists>net' k'. handle_frame ps mp api now (ring_net x, NICS, k, w) = Inr (Some result, net', NICS', k', w') \<and> kinv k' \<and>
    run k' = run k \<and> ring_step\<^sup>*\<^sup>* x (x\<lparr>ring_net := net', handled := handled x @ [stored x ! length (handled x)]\<rparr>)"
proof -
  obtain f where f: "try_take (recv_full (ring_net x)) = Some f" using c by (auto simp: try_take_def word_gt_0)
  let ?x1 = "x\<lparr>ring_net := (ring_net x)\<lparr>recv_full := f\<rparr>, emptying := True\<rparr>"
  have s1: "ring_step x ?x1" by (rule begin_handle[OF x(2) f])
  have i1: "ring_inv ?x1" by (rule ring_inv_step[OF s1 x(1)])
  obtain k1 where k1: "wait_call api now (recv_full (ring_net x)) k = Inr (True, f, k1)" "kinv k1" "run k1 = run k" "known k1 = known k"
    by (rule wait_through_law[OF k f q(1)])
  obtain net e where n: "next_frame (ring_net ?x1) = Inr (stored x ! length (handled x), net)" "try_give (recv_empty net) = Some e"
    using handle_progress[OF i1] by auto
  have "net_wf (ring_net ?x1)" using i1 by (simp add: ring_inv_def)
  then have same: "recv_empty net = recv_empty (ring_net x)" "if_device net = if_device (ring_net x)"
    using n(1) by (auto simp: next_frame_eq)
  let ?x2 = "?x1\<lparr>ring_net := net\<lparr>recv_empty := e\<rparr>, emptying := False, handled := handled ?x1 @ [stored x ! length (handled x)]\<rparr>"
  have s2: "ring_step ?x1 ?x2" by (rule end_handle[OF _ n]) simp
  have "set (waiting (recv_empty net)) \<subseteq> known k1 - {api_current api k1}" using q(2) same by simp
  then obtain k' where k': "signal_call api now (recv_empty net) k1 = Inr (True, e\<lparr>waiting := tl (waiting (recv_empty net))\<rparr>, k')" "kinv k'"
    "run k' = run k1 \<union> set (take 1 (waiting (recv_empty net)))"
    using signal_through_law[OF k1(2) n(2), of now] by metis
  have "waiting e = []" using n(2) q(2) same by (auto simp: try_give_def split: if_splits)
  then have e: "e\<lparr>waiting := tl (waiting (recv_empty net))\<rparr> = e" using q(2) same by (cases e) simp
  have "handle_frame ps mp api now (ring_net x, NICS, k, w) = Inr (Some result, net\<lparr>recv_empty := e\<rparr>, NICS', k', w')"
    using k1(1) n(1) r k'(1) same(2) by (simp add: handle_frame_def e)
  moreover have "?x2 = x\<lparr>ring_net := net\<lparr>recv_empty := e\<rparr>, handled := handled x @ [stored x ! length (handled x)]\<rparr>" using x(2) by (cases x) simp
  moreover have "ring_step\<^sup>*\<^sup>* x ?x2" using s1 s2 by (meson r_into_rtranclp rtranclp_trans)
  ultimately show ?thesis using k'(2,3) k1(3) q(2) same by auto
qed

lemma handle_frame_fails:
  assumes x: "ring_inv x" "\<not> emptying x" and k: "kinv k" and c: "sem_count (recv_full (ring_net x)) \<noteq> 0"
    and q: "releasing (recv_full (ring_net x)) = []"
    and r: "respond ps mp (if_device (ring_net x)) (stored x ! length (handled x)) (NICS, w) = Inl e"
  shows "handle_frame ps mp api now (ring_net x, NICS, k, w) = Inl e"
proof -
  obtain f where f: "try_take (recv_full (ring_net x)) = Some f" using c by (auto simp: try_take_def word_gt_0)
  let ?x1 = "x\<lparr>ring_net := (ring_net x)\<lparr>recv_full := f\<rparr>, emptying := True\<rparr>"
  have i1: "ring_inv ?x1" by (rule ring_inv_step[OF begin_handle[OF x(2) f] x(1)])
  obtain k1 where k1: "wait_call api now (recv_full (ring_net x)) k = Inr (True, f, k1)"
    by (rule wait_through_law[OF k f q])
  obtain net where n: "next_frame (ring_net ?x1) = Inr (stored x ! length (handled x), net)"
    using handle_progress[OF i1] by auto
  have "net_wf (ring_net ?x1)" using i1 by (simp add: ring_inv_def)
  then have "if_device net = if_device (ring_net x)" using n by (auto simp: next_frame_eq)
  then show ?thesis using k1 n r by (simp add: handle_frame_def)
qed

end

text \<open>An ARP request as it arrives: header, packet, padding and checksum.\<close>

definition arp_frame ::
  "mac_address \<Rightarrow> mac_address \<Rightarrow> vlan_tag option list \<Rightarrow> u16 \<Rightarrow> u16 \<Rightarrow> u16 \<Rightarrow> u8 list \<Rightarrow> u8 list \<Rightarrow> u8 list \<Rightarrow> u8 list \<Rightarrow> u8 list \<Rightarrow> u8 list \<Rightarrow> u8 list" where
  "arp_frame dest src tags hs ps op sha spa tha tpa pad crc =
     frame_header dest src tags ARP @ (arp_layout hs ps 6 4 op sha spa tha tpa @ pad) @ crc"

abbreviation own_address :: "u8 list" where
  "own_address \<equiv> [192, 168, 16, 40]"

lemma respond_arp:
  assumes hw: "nic_hw ps cfg (dev_bdf (nic_pci nic)) iobase st (mac_bytes own)" and wf: "nic_wf nic" and nic: "map_of NICS dev = Some nic"
    and i: "i = unat (next_tx_desc nic)" and pa: "mm_phys_addr mp (tx_buf_addrs nic ! i) = Inr (Some pa)"
    and fr: "fr = arp_frame dest src tags hs pr op rsha rspa rtha own_address pad crc" and crc: "length crc = 4"
    and len: "64 \<le> length fr" "length fr \<le> 1534"
    and adr: "length rsha = 6" "length rspa = 4" "length rtha = 6"
  shows "\<exists>nic' w'. respond ps mp dev fr (NICS, w) = Inr (Ok (), btm_insert dev nic' NICS, w') \<and>
    sent (st w') = sent (st w) @ [(ucast pa, 42)] \<and>
    take 42 (tx_bufs nic' ! i) = frame_header dest own [] ARP @ arp_layout hs pr 6 4 2 (mac_bytes own) own_address rsha own_address"
proof -
  let ?p = "arp_layout hs pr 6 4 op rsha rspa rtha own_address @ pad"
  let ?out = "arp_layout hs pr 6 4 2 (mac_bytes own) own_address rsha own_address"
  let ?f = "\<lparr>frame_bytes = fr\<rparr>"
  have a: "arp_addresses 6 4 rsha rspa rtha own_address" using adr by (simp add: arp_addresses_def)
  have reads: "frame_src ?f = Inr src" "frame_dest ?f = Inr dest" "frame_ethertype ?f = Inr ARP" "frame_payload ?f = Inr ?p"
    unfolding fr arp_frame_def using crc
    by (simp_all only: frame_src_header frame_dest_header frame_ethertype_header frame_payload_header plain_ethertype.simps)
  have i4: "i < 4" using wf i by (simp add: nic_wf_def word_less_nat_alt)
  then have lb: "length (tx_bufs nic ! i) = TX_BUF_SIZE" using wf by (simp add: nic_wf_def)
  have lo: "length ?out = 28" using adr by simp
  let ?rest = "?out @ drop 28 (drop 14 (tx_bufs nic ! i))"
  have wr: "reply_writer ?p own (drop 14 (tx_bufs nic ! i)) = Inr (28, ?rest)"
    using reply_writer_layout[OF refl a refl, of hs pr own "drop 14 (tx_bufs nic ! i)" op pad] lb lo by (simp add: TX_BUF_SIZE_def)
  have t: "tag_bytes [None, None] = []" by (simp add: tag_bytes_def)
  obtain w1 where w1: "nic_id ps nic w = Inr (own, w1)" "st w1 = st w" by (rule nic_id_hw[OF hw])
  let ?nic = "nic\<lparr>next_tx_desc := (next_tx_desc nic + 1) mod 4, tx_bufs := (tx_bufs nic)[i := frame_header dest own [None, None] ARP @ ?rest]\<rparr>"
  obtain w2 where w2: "transmit ps mp dest [None, None] ARP (reply_writer ?p own) (nic, w1) = Inr (?nic, w2)"
    "sent (st w2) = sent (st w1) @ [(ucast pa, 42)]"
    using transmit_hw[OF hw wf i pa, where writer = "reply_writer ?p own" and tags = "[None, None]" and len = 28 and rest = ?rest
        and dest = dest and et = ARP and w = w1] wr lb lo t by (auto simp: TX_BUF_SIZE_def)
  have "target_protocol_address (arp_from_bytes ?p) = Inr own_address" using arp_address_reads(4)[OF a] by (simp add: arp_from_bytes_def)
  then have "respond ps mp dev fr (NICS, w) = Inr (Ok (), btm_insert dev ?nic NICS, w2)"
    using len reads nic w1(1) w2(1) by (simp add: respond_def try_from_bytes_def)
  moreover have "take 42 (tx_bufs ?nic ! i) = frame_header dest own [] ARP @ ?out"
    using wf i4 lo t by (simp add: nic_wf_def frame_header_def tag_bytes_def)
  ultimately show ?thesis using w1(2) w2(2) by (intro exI[of _ ?nic] exI[of _ w2]) simp
qed

text \<open>The counts of the semaphores of the ring stay within their bounds.\<close>

definition sem_ok :: "semaphore \<Rightarrow> bool" where
  "sem_ok s \<longleftrightarrow> sem_max s = 4 \<and> sem_count s \<le> 4"

lemma sem_ok_queues [simp]: "sem_ok (s\<lparr>waiting := q\<rparr>) = sem_ok s" "sem_ok (s\<lparr>releasing := q\<rparr>) = sem_ok s"
  by (simp_all add: sem_ok_def)

lemma sem_ok_take: "try_take s = Some s' \<Longrightarrow> sem_ok s \<Longrightarrow> sem_ok s'"
  using take_4 by (auto simp: sem_ok_def)

lemma sem_ok_give: "try_give s = Some s' \<Longrightarrow> sem_ok s \<Longrightarrow> sem_ok s'"
  using give_4 by (auto simp: sem_ok_def)

lemma sem_ok_popped: "wake_popped api (pop_releasing s) k = Inr (s', k') \<Longrightarrow> sem_ok s \<Longrightarrow> sem_ok s'"
  "wake_popped api (pop_waiting s) k = Inr (s', k') \<Longrightarrow> sem_ok s \<Longrightarrow> sem_ok s'"
  by (auto simp: wake_popped_def pop_releasing_def pop_waiting_eq sem_ok_def res_simps split: list.splits option.splits if_splits)

lemma sem_ok_try_wait: "try_wait api s k = Inr (b, s', k') \<Longrightarrow> sem_ok s \<Longrightarrow> sem_ok s'"
  by (auto simp: try_wait_def res_simps split: option.splits dest: sem_ok_take sem_ok_popped)

lemma sem_ok_wait: "wait_call api now s k = Inr (b, s', k') \<Longrightarrow> sem_ok s \<Longrightarrow> sem_ok s'"
  by (auto simp: wait_call_def wait_round_def res_simps
      split: option.splits if_splits dest: sem_ok_take sem_ok_popped)

lemma sem_ok_signal: "signal_call api now s k = Inr (b, s', k') \<Longrightarrow> sem_ok s \<Longrightarrow> sem_ok s'"
  by (auto simp: signal_call_def signal_round_def res_simps
      split: option.splits if_splits dest: sem_ok_give sem_ok_popped)

lemma net_wf_sems:
  "net_wf net \<Longrightarrow> sem_ok (recv_empty net)" "net_wf net \<Longrightarrow> sem_ok (recv_full net)"
  "net_wf net \<Longrightarrow> sem_ok e \<Longrightarrow> net_wf (net\<lparr>recv_empty := e\<rparr>)" "net_wf net \<Longrightarrow> sem_ok e \<Longrightarrow> net_wf (net\<lparr>recv_full := e\<rparr>)"
  by (auto simp: net_wf_def sem_ok_def)

lemma recv_frame_wf:
  assumes "net_wf net" and "recv_frame api now data (net, k) = Inr (b, net', k')"
  shows "net_wf net'"
proof -
  obtain ok e k1 where t: "try_wait api (recv_empty net) k = Inr (ok, e, k1)" using assms(2) by (auto simp: recv_frame_def res_simps)
  have wf: "net_wf (net\<lparr>recv_empty := e\<rparr>)" using assms(1) sem_ok_try_wait[OF t] net_wf_sems by blast
  show ?thesis
  proof (cases ok)
    case True
    then obtain net1 f where "recv_store data (net\<lparr>recv_empty := e\<rparr>) = Inr net1" "signal_call api now (recv_full net1) k1 = Inr (b, f, k')"
      "net' = net1\<lparr>recv_full := f\<rparr>" using assms(2) t by (auto simp: recv_frame_def res_simps)
    then show ?thesis using recv_store_wf[OF wf] sem_ok_signal net_wf_sems by metis
  qed (use assms(2) t wf in \<open>auto simp: recv_frame_def\<close>)
qed

lemma handle_frame_wf:
  assumes "net_wf net" and "handle_frame ps mp api now (net, NICS, k, w) = Inr (r, net', NICS', k', w')"
  shows "net_wf net'"
proof -
  obtain through f k1 where t: "wait_call api now (recv_full net) k = Inr (through, f, k1)" using assms(2) by (auto simp: handle_frame_def res_simps)
  have wf: "net_wf (net\<lparr>recv_full := f\<rparr>)" using assms(1) sem_ok_wait[OF t] net_wf_sems by blast
  show ?thesis
  proof (cases through)
    case True
    then obtain buf net1 b e where n: "next_frame (net\<lparr>recv_full := f\<rparr>) = Inr (buf, net1)" "signal_call api now (recv_empty net1) k1 = Inr (b, e, k')"
      "net' = net1\<lparr>recv_empty := e\<rparr>" using assms(2) t by (auto simp: handle_frame_def res_simps)
    have "net_wf net1" by (rule next_frame_wf[OF wf n(1)])
    then show ?thesis using sem_ok_signal[OF n(2)] net_wf_sems n(3) by blast
  qed (use assms(2) t wf in \<open>auto simp: handle_frame_def\<close>)
qed

lemma interface_new_wf:
  assumes "interface_new dev boxes = Inr net" and "length boxes = 4" and "\<forall>b \<in> set boxes. length b = 1526"
  shows "net_wf net"
  using ring_inv_start[OF assms] by (simp add: ring_inv_def ring_start_def)

section \<open>Properties\<close>

lemma sample_waiting:
  assumes "length fr \<le> 1526"
  obtains net net0 where "interface_new (BDF 0 3 0) sample_boxes = Inr net0"
    "ring_step\<^sup>*\<^sup>* (ring_start net0) \<lparr>ring_net = net, filling = False, emptying = False, stored = [fr], handled = []\<rparr>"
    "if_device net = BDF 0 3 0" "sem_count (recv_full net) \<noteq> 0" "releasing (recv_full net) = []" "waiting (recv_empty net) = []"
proof -
  obtain net0 where n: "interface_new (BDF 0 3 0) sample_boxes = Inr net0" "length sample_boxes = 4"
    "\<forall>b \<in> set sample_boxes. length b = 1526" "ring_step (ring_start net0) (ring_start sample_net)" by (rule sample_net_new)
  have i: "ring_inv (ring_start sample_net)" by (rule ring_inv_step[OF n(4) ring_inv_start[OF n(1-3)]])
  let ?e = "(recv_empty sample_net)\<lparr>sem_count := 3\<rparr>"
  let ?x = "(ring_start sample_net)\<lparr>ring_net := sample_net\<lparr>recv_empty := ?e\<rparr>, filling := True\<rparr>"
  have s1: "ring_step (ring_start sample_net) ?x"
    using begin_store[of "ring_start sample_net" ?e] by (simp add: ring_start_def sample_net_def try_take_def)
  have wf: "net_wf (ring_net ?x)" using ring_inv_step[OF s1 i] by (simp add: ring_inv_def)
  obtain net f where s: "recv_store fr (ring_net ?x) = Inr net" "try_give (recv_full net) = Some f"
    using store_progress[OF ring_inv_step[OF s1 i] _ assms] by auto
  have "ring_step ?x (?x\<lparr>ring_net := net\<lparr>recv_full := f\<rparr>, filling := False, stored := stored ?x @ [fr]\<rparr>)" by (rule end_store[OF _ s]) simp
  with n(4) s1 have "ring_step\<^sup>*\<^sup>* (ring_start net0) (?x\<lparr>ring_net := net\<lparr>recv_full := f\<rparr>, filling := False, stored := stored ?x @ [fr]\<rparr>)"
    by (meson r_into_rtranclp rtranclp_trans)
  moreover have "if_device net = BDF 0 3 0" using s(1) assms unfolding recv_store_eq[OF wf] by (auto simp: sample_net_def)
  moreover have "recv_full net = recv_full sample_net" "recv_empty net = ?e" using frame_at_store(4,5)[OF wf s(1)] by simp_all
  ultimately show ?thesis using that[OF n(1), of "net\<lparr>recv_full := f\<rparr>"] s(2) by (auto simp: ring_start_def sample_net_def try_give_def)
qed

text \<open>C10: An ARP request is answered: when the next frame of the ring is a request for the address of this host,
  with padding and checksum and any VLAN tags, the scheduler is in order and the card of the interface
  behaves as its data sheet has it, \<open>handle_frame\<close> returns without error and without blocking, the frame has
  moved to the frames handled, no task changed its state, and the card has been told to send exactly one
  frame, the reply, from the transmit buffer whose turn it was. It carries the address of the card and of
  the asking host, but its header is addressed to the destination of the request, not to its source.\<close>

theorem arp_request_answered:
  assumes "interface_new dev boxes = Inr net" and "length boxes = 4" and "\<forall>b \<in> set boxes. length b = 1526"
    and "ring_step\<^sup>*\<^sup>* (ring_start net) x" and "\<not> emptying x" and "sched_ready sp ca k"
    and "sem_count (recv_full (ring_net x)) \<noteq> 0" and "releasing (recv_full (ring_net x)) = []" and "waiting (recv_empty (ring_net x)) = []"
    and "stored x ! length (handled x) = fr" and "fr = arp_frame dest src tags hs pr op rsha rspa rtha [192, 168, 16, 40] pad crc"
    and "64 \<le> length fr" and "length fr \<le> 1534" and "length crc = 4" and "length rsha = 6" and "length rspa = 4" and "length rtha = 6"
    and "nic_hw ps cfg (dev_bdf (nic_pci nic)) iobase st (mac_bytes own)" and "nic_wf nic"
    and "map_of NICS (if_device (ring_net x)) = Some nic" and "i = unat (next_tx_desc nic)"
    and "mm_phys_addr mp (tx_buf_addrs nic ! i) = Inr (Some pa)"
  shows "\<exists>net' nic' k' w'. handle_frame ps mp (kernel_api sp ca) now (ring_net x, NICS, k, w) =
      Inr (Some (Ok ()), net', btm_insert (if_device (ring_net x)) nic' NICS, k', w') \<and>
    ring_step\<^sup>*\<^sup>* (ring_start net) (x\<lparr>ring_net := net', handled := handled x @ [fr]\<rparr>) \<and>
    sched_ready sp ca k' \<and> runnable_tasks k' = runnable_tasks k \<and>
    sent (st w') = sent (st w) @ [(ucast pa, 42)] \<and>
    take 42 (tx_bufs nic' ! i) = mac_bytes dest @ mac_bytes own @ [0x08, 0x06] @
      arp_layout hs pr 6 4 (opcode_to Reply) (mac_bytes own) [192, 168, 16, 40] rsha [192, 168, 16, 40]"
proof -
  have inv: "ring_inv x" by (rule ring_inv_reach[OF assms(4) ring_inv_start[OF assms(1-3)]])
  obtain nic' w' where r: "respond ps mp (if_device (ring_net x)) fr (NICS, w) = Inr (Ok (), btm_insert (if_device (ring_net x)) nic' NICS, w')"
    "sent (st w') = sent (st w) @ [(ucast pa, 42)]"
    "take 42 (tx_bufs nic' ! i) = frame_header dest own [] ARP @ arp_layout hs pr 6 4 2 (mac_bytes own) own_address rsha own_address"
    using respond_arp[OF assms(18-22) assms(11,14,12,13,15-17), of w] by blast
  then obtain net' k' where h: "handle_frame ps mp (kernel_api sp ca) now (ring_net x, NICS, k, w) =
      Inr (Some (Ok ()), net', btm_insert (if_device (ring_net x)) nic' NICS, k', w')" "sched_ready sp ca k'" "runnable_tasks k' = runnable_tasks k"
    "ring_step\<^sup>*\<^sup>* x (x\<lparr>ring_net := net', handled := handled x @ [fr]\<rparr>)"
    using kernel_waking.handle_frame_law[OF inv assms(5-9)] assms(10) by metis
  have "ring_step\<^sup>*\<^sup>* (ring_start net) (x\<lparr>ring_net := net', handled := handled x @ [fr]\<rparr>)" using assms(4) h(4) by (rule rtranclp_trans)
  then show ?thesis using h(1-3) r(2,3) by (auto simp: frame_header_def tag_bytes_def)
qed

definition sample_request :: "u8 list" where
  "sample_request = arp_frame (MACAddress 255 255 255 255 255 255) (MACAddress 9 9 9 9 9 9) [] 1 0x800 1
     [9, 9, 9, 9, 9, 9] [192, 168, 16, 1] [0, 0, 0, 0, 0, 0] [192, 168, 16, 40] (replicate 18 0) [1, 2, 3, 4]"

theorem arp_request_answered_witness:
  "\<exists>net m net' nics' k' w'. handle_frame sample_nic_ports (Some m) (kernel_api bool_spin sample_code) 0
      (net, [(BDF 0 3 0, sample_nic)], sample_kernel1, (0, \<lparr>tsad = \<lambda>_. 0, sent = []\<rparr>)) = Inr (Some (Ok ()), net', nics', k', w') \<and>
     sent (snd w') = [(0x5000, 42)]"
proof -
  have len: "length sample_request = 64" by (simp add: sample_request_def arp_frame_def tag_bytes_def)
  then have "length sample_request \<le> 1526" by simp
  then obtain net net0 where n: "interface_new (BDF 0 3 0) sample_boxes = Inr net0"
    "ring_step\<^sup>*\<^sup>* (ring_start net0) \<lparr>ring_net = net, filling = False, emptying = False, stored = [sample_request], handled = []\<rparr>"
    "if_device net = BDF 0 3 0" "sem_count (recv_full net) \<noteq> 0" "releasing (recv_full net) = []" "waiting (recv_empty net) = []"
    by (rule sample_waiting)
  obtain m where m: "mm_phys_addr (Some m) 0x400000 = Inr (Some 0x5000)" by (rule sample_mapped)
  have a: "tx_buf_addrs sample_nic ! 0 = 0x400000" "0 = unat (next_tx_desc sample_nic)" by (simp_all add: sample_nic_def)
  have b: "length sample_boxes = 4" "\<forall>b \<in> set sample_boxes. length b = 1526" by (auto simp: sample_boxes_def)
  show ?thesis
    using arp_request_answered[OF n(1) b n(2) _ sample1_ready _ _ _ _ sample_request_def _ _ _ _ _ _ sample_nic_hw sample_nic_wf _ a(2),
        where mp = "Some m" and pa = "0x5000" and NICS = "[(BDF 0 3 0, sample_nic)]" and now = 0 and w = "(0, \<lparr>tsad = \<lambda>_. 0, sent = []\<rparr>)"]
      n(3-6) m a(1) len by force
qed

text \<open>Property: A frame can stop the kernel: a frame of valid length that carries an ARP packet whose length fields ask
  for more bytes than the packet has makes \<open>handle_frame\<close> panic, whatever the state of the card.\<close>

theorem malformed_arp_panics:
  assumes "interface_new dev boxes = Inr net" and "length boxes = 4" and "\<forall>b \<in> set boxes. length b = 1526"
    and "ring_step\<^sup>*\<^sup>* (ring_start net) x" and "\<not> emptying x" and "sched_ready sp ca k"
    and "sem_count (recv_full (ring_net x)) \<noteq> 0" and "releasing (recv_full (ring_net x)) = []"
    and "stored x ! length (handled x) = fr" and "fr = frame_header dest src tags ARP @ p @ crc"
    and "64 \<le> length fr" and "length fr \<le> 1534" and "length crc = 4"
    and "length p < 6 \<or> length p < 8 + 2 * unat (p ! 4) + 2 * unat (p ! 5)"
  shows "handle_frame ps mp (kernel_api sp ca) now (ring_net x, NICS, k, w) = Inl OutOfBounds"
proof -
  have inv: "ring_inv x" by (rule ring_inv_reach[OF assms(4) ring_inv_start[OF assms(1-3)]])
  have reads: "frame_src \<lparr>frame_bytes = fr\<rparr> = Inr src" "frame_dest \<lparr>frame_bytes = fr\<rparr> = Inr dest"
    "frame_ethertype \<lparr>frame_bytes = fr\<rparr> = Inr ARP" "frame_payload \<lparr>frame_bytes = fr\<rparr> = Inr p"
    unfolding assms(10) using assms(13)
    by (simp_all only: frame_src_header frame_dest_header frame_ethertype_header frame_payload_header plain_ethertype.simps)
  have "\<nexists>tpa. target_protocol_address (arp_from_bytes p) = Inr tpa"
    using target_protocol_address_Inr[of "arp_from_bytes p"] assms(14) by (auto simp: arp_from_bytes_def arp_len_def)
  then have "target_protocol_address (arp_from_bytes p) = Inl OutOfBounds"
    using target_protocol_address_Inl by (metis sum.exhaust)
  then have "respond ps mp (if_device (ring_net x)) fr (NICS, w) = Inl OutOfBounds"
    using assms(11,12) reads by (simp add: respond_def try_from_bytes_def)
  then show ?thesis using kernel_waking.handle_frame_fails[OF inv assms(5-8)] assms(9) by metis
qed

theorem malformed_arp_panics_witness:
  "\<exists>net. handle_frame sample_nic_ports None (kernel_api bool_spin sample_code) 0
     (net, [], sample_kernel1, (0, \<lparr>tsad = \<lambda>_. 0, sent = []\<rparr>)) = Inl OutOfBounds"
proof -
  let ?p = "[0, 1, 8, 0, 255, 4] @ replicate 40 0 :: u8 list"
  let ?fr = "frame_header (MACAddress 255 255 255 255 255 255) (MACAddress 9 9 9 9 9 9) [] ARP @ ?p @ [1, 2, 3, 4]"
  have len: "length ?fr = 64" by (simp add: tag_bytes_def)
  then have "length ?fr \<le> 1526" by simp
  then obtain net net0 where n: "interface_new (BDF 0 3 0) sample_boxes = Inr net0"
    "ring_step\<^sup>*\<^sup>* (ring_start net0) \<lparr>ring_net = net, filling = False, emptying = False, stored = [?fr], handled = []\<rparr>"
    "if_device net = BDF 0 3 0" "sem_count (recv_full net) \<noteq> 0" "releasing (recv_full net) = []" "waiting (recv_empty net) = []"
    by (rule sample_waiting)
  have b: "length sample_boxes = 4" "\<forall>b \<in> set sample_boxes. length b = 1526" by (auto simp: sample_boxes_def)
  have p: "length ?p < 6 \<or> length ?p < 8 + 2 * unat (?p ! 4) + 2 * unat (?p ! 5)" by simp
  have "64 \<le> length ?fr" "length ?fr \<le> 1534" using len by simp_all
  from malformed_arp_panics[OF n(1) b n(2) _ sample1_ready _ _ _ refl this _ p, where now = 0 and mp = None and NICS = "[]"
      and ps = sample_nic_ports and w = "(0, \<lparr>tsad = \<lambda>_. 0, sent = []\<rparr>)"] n(4,5)
  show ?thesis by (auto simp del: frame_header_def)
qed

text \<open>The interfaces that the operations produce from new ones, in any order.\<close>

inductive net_states :: "'w ports \<Rightarrow> 'k sched_api \<Rightarrow> interface \<Rightarrow> bool" for ps api where
  fresh: "interface_new dev boxes = Inr net \<Longrightarrow> length boxes = 4 \<Longrightarrow> \<forall>b \<in> set boxes. length b = 1526 \<Longrightarrow> net_states ps api net"
| received: "net_states ps api net \<Longrightarrow> recv_frame api now data (net, k) = Inr (b, net', k') \<Longrightarrow> net_states ps api net'"
| served: "net_states ps api net \<Longrightarrow> handle_frame ps mp api now (net, NICS, k, w) = Inr (r, net', NICS', k', w') \<Longrightarrow> net_states ps api net'"

text \<open>C38: The type of an interface: it has four buffers of 1526 bytes whose lengths are within them, both positions
  are below four and both counts at most four. That holds of a new interface and after any sequence of
  calls of \<open>recv_frame\<close> and \<open>handle_frame\<close>, whatever the scheduler, the cards and the memory mapping do.\<close>

theorem interface_well_formed:
  assumes "net_states ps api net"
  shows "length (bufs net) = 4 \<and> (\<forall>b \<in> set (bufs net). length (nb_bytes b) = 1526 \<and> nb_len b \<le> 1526) \<and>
    recv_head net < 4 \<and> recv_tail net < 4 \<and> sem_count (recv_empty net) \<le> 4 \<and> sem_count (recv_full net) \<le> 4"
proof -
  have "net_wf net" using assms by induction (auto intro: interface_new_wf recv_frame_wf handle_frame_wf)
  then show ?thesis by (simp add: net_wf_def buf_wf_def)
qed

theorem interface_well_formed_witness:
  "\<exists>net net' k'. recv_frame (kernel_api bool_spin sample_code) 0 [1, 2, 3] (net, sample_kernel1) = Inr (True, net', k') \<and>
     length (bufs net') = 4 \<and> recv_head net' < 4"
proof -
  obtain net where n: "interface_new (BDF 0 3 0) sample_boxes = Inr net" "length sample_boxes = 4"
    "\<forall>b \<in> set sample_boxes. length b = 1526" by (rule sample_net_new)
  have "releasing (recv_empty net) = []" "waiting (recv_full net) = []"
    using n(1) by (auto simp: interface_new_def semaphore_new_def)
  then obtain net' k' where r: "recv_frame (kernel_api bool_spin sample_code) 0 [1, 2, 3] (net, sample_kernel1) = Inr (True, net', k')"
    using kernel_waking.recv_frame_law[OF ring_inv_start[OF n] _ sample1_ready, of "[1, 2, 3]" 0] by (auto simp: ring_start_def)
  from interface_well_formed[OF received[OF fresh[OF n, of sample_nic_ports] this]] show ?thesis using r by blast
qed

end
