(* ===== verification/Nic_Receive.thy ===== *)
theory Nic_Receive
  imports Network Apic
begin

text \<open>
  Receiving on the RTL8139 (\<open>process_receive\<close> and \<open>rtl8139_handler\<close> of \<open>src/drivers/net/rtl8139.rs\<close>). The card
  appends frames to a ring in memory, each behind a header of four bytes; the interrupt handler counts
  the interrupts in a semaphore, and the task of the driver takes the frames off the ring and hands them
  to the network stack of the device. Writing to the log is left out.
\<close>

section \<open>Model\<close>

fun from_le_bytes :: "u8 list \<Rightarrow> u16 res" where
  "from_le_bytes [a, b] = Inr (push_bit 8 (ucast b) OR ucast a)"
| "from_le_bytes _ = Inl ExpectFailed"

text \<open>
  The loop over the frames, with a bound on its rounds, and \<open>deliver\<close> for what the network stack does with
  a frame. The flag of \<open>deliver\<close> and of the loop says whether the call went through or the task blocked.
\<close>

fun rx_loop ::
  "nat \<Rightarrow> 'w ports \<Rightarrow> rtl8139 \<Rightarrow> (u8 list \<Rightarrow> 's \<Rightarrow> (bool \<times> 's) res) \<Rightarrow> usize \<Rightarrow> usize \<Rightarrow> 's \<times> 'w \<Rightarrow> (bool \<times> 's \<times> 'w) res" where
  "rx_loop 0 ps nic deliver cbr capr (s, w) = Inl Diverges"
| "rx_loop (Suc fuel) ps nic deliver cbr capr (s, w) =
     rbind (nic_inb ps nic REG_COMMAND w) (\<lambda>(cr, w).
     if cr AND 0x1 = 0x1 then Inr (True, s, w)
     else if cbr = capr then Inr (True, s, w)
     else
       rbind (slice_from (rx_buf nic) (unat capr)) (\<lambda>buf.
       rbind (split_at buf 2) (\<lambda>(rsr, remaining).
       rbind (from_le_bytes rsr) (\<lambda>_.
       rbind (split_at remaining 2) (\<lambda>(fs, remaining).
       rbind (from_le_bytes fs) (\<lambda>frame_size.
       rbind (slice remaining 0 (unat frame_size)) (\<lambda>frame.
       rbind (deliver frame s) (\<lambda>(through, s).
       if \<not> through then Inr (False, s, w)
       else
         rbind (checked_add capr 4) (\<lambda>c.
         rbind (checked_add c (ucast frame_size)) (\<lambda>c.
         rbind (checked_add c 3) (\<lambda>c.
         let capr = (c AND NOT 3) mod of_nat RX_BUF_SIZE in
         rbind (nic_outw ps nic REG_CAPR (ucast capr - 0x10) w) (\<lambda>w.
         rx_loop fuel ps nic deliver cbr capr (s, w)))))))))))))"

type_synonym stacks = "(bdf \<times> interface) list"

definition deliver_frame :: "'k sched_api \<Rightarrow> u64 \<Rightarrow> bdf \<Rightarrow> u8 list \<Rightarrow> stacks \<times> 'k \<Rightarrow> (bool \<times> stacks \<times> 'k) res" where
  "deliver_frame api now dev frame s =
     (let (stack, k) = s in
      rbind (expect (map_of stack dev)) (\<lambda>net.
      rbind (recv_frame api now frame (net, k)) (\<lambda>(through, net, k).
      Inr (through, btm_insert dev net stack, k))))"

definition process_receive ::
  "nat \<Rightarrow> 'w ports \<Rightarrow> 'k sched_api \<Rightarrow> u64 \<Rightarrow> rtl8139 \<times> stacks \<times> 'k \<times> 'w \<Rightarrow> (bool \<times> rtl8139 \<times> stacks \<times> 'k \<times> 'w) res" where
  "process_receive fuel ps api now s =
     (let (nic, stack, k, w) = s in
      rbind (wait_call api now (pending_irqs nic) k) (\<lambda>(through, p, k).
      let nic = nic\<lparr>pending_irqs := p\<rparr> in
      if \<not> through then Inr (False, nic, stack, k, w)
      else
        rbind (nic_inw ps nic REG_CBR w) (\<lambda>(cbr, w).
        rbind (nic_inw ps nic REG_CAPR w) (\<lambda>(c, w).
        rbind (checked_add (ucast c) 0x10) (\<lambda>c.
        rbind (rx_loop fuel ps nic (deliver_frame api now (dev_bdf (nic_pci nic))) (ucast cbr) (c mod of_nat RX_BUF_SIZE) ((stack, k), w))
          (\<lambda>(through, (stack, k), w). Inr (through, nic, stack, k, w)))))))"

definition handle_irq :: "'w ports \<Rightarrow> 'k sched_api \<Rightarrow> bdf \<times> rtl8139 \<Rightarrow> nics \<times> 'k \<times> 'w \<Rightarrow> (nics \<times> 'k \<times> 'w) res" where
  "handle_irq ps api bn s =
     (let (b, n) = bn; (NICS, k, w) = s in
      rbind (nic_inw ps n REG_ISR w) (\<lambda>(status, w).
      rbind (nic_outw ps n REG_ISR 0x05 w) (\<lambda>w.
      if status AND 1 = 1
      then rbind (try_signal api (pending_irqs n) k) (\<lambda>(_, p, k). Inr (btm_insert b (n\<lparr>pending_irqs := p\<rparr>) NICS, k, w))
      else Inr (NICS, k, w))))"

definition rtl8139_handler ::
  "'w ports \<Rightarrow> 'w mmio \<Rightarrow> local_apic \<Rightarrow> 'k sched_api \<Rightarrow> u64 \<Rightarrow> nics \<times> 'k \<times> 'w \<Rightarrow> (nics \<times> 'k \<times> 'w) res" where
  "rtl8139_handler ps mm lapic api vector s =
     rbind (rfold (handle_irq ps api) (filter (\<lambda>(_, n). nic_vector n = ucast vector) (fst s)) s) (\<lambda>(NICS, k, w).
     rbind (end_of_interrupt mm lapic w) (\<lambda>w. Inr (NICS, k, w)))"

section \<open>The ring in memory\<close>

definition to_le_bytes :: "u16 \<Rightarrow> u8 list" where
  "to_le_bytes v = [ucast v, ucast (drop_bit 8 v)]"

definition next_pos :: "nat \<Rightarrow> nat \<Rightarrow> nat" where
  "next_pos pos n = (pos + n + 7) div 4 * 4 mod RX_BUF_SIZE"

text \<open>The frames, with their status words, from a position of the buffer up to another.\<close>

fun rx_layout :: "u8 list \<Rightarrow> nat \<Rightarrow> (u16 \<times> u8 list) list \<Rightarrow> nat \<Rightarrow> bool" where
  "rx_layout buf pos [] cbr \<longleftrightarrow> pos = cbr"
| "rx_layout buf pos ((rsr, d) # fs) cbr \<longleftrightarrow>
     pos \<noteq> cbr \<and> pos + 4 + length d \<le> length buf \<and> length d < 2 ^ 16 \<and>
     take (4 + length d) (drop pos buf) = to_le_bytes rsr @ to_le_bytes (of_nat (length d)) @ d \<and>
     rx_layout buf (next_pos pos (length d)) fs cbr"

text \<open>
  What the card does, as its data sheet has it, of what matters for reception: the registers of the
  positions, that of the driver 16 below the position it stands for, and the flag in the command register
  that the buffer is empty, which is not set while there is a frame before \<open>cbr\<close>.
\<close>

definition rx_hw :: "'w ports \<Rightarrow> (u32 \<Rightarrow> u32) \<Rightarrow> bdf \<Rightarrow> u16 \<Rightarrow> ('w \<Rightarrow> u16) \<Rightarrow> u16 \<Rightarrow> bool" where
  "rx_hw ps cfg b iobase capr cbr \<longleftrightarrow>
     io_space ps cfg b iobase capr \<and> unat cbr < RX_BUF_SIZE \<and>
     (\<forall>w. fst (port_in16 ps (iobase + REG_CBR) w) = cbr \<and> capr (snd (port_in16 ps (iobase + REG_CBR) w)) = capr w) \<and>
     (\<forall>w. fst (port_in16 ps (iobase + REG_CAPR) w) = capr w \<and> capr (snd (port_in16 ps (iobase + REG_CAPR) w)) = capr w) \<and>
     (\<forall>w v. capr (port_out16 ps (iobase + REG_CAPR) v w) = v) \<and>
     (\<forall>w. (fst (port_in8 ps (iobase + REG_COMMAND) w) AND 1 = 1 \<longrightarrow> (unat (capr w) + 16) mod RX_BUF_SIZE = unat cbr) \<and>
        capr (snd (port_in8 ps (iobase + REG_COMMAND) w)) = capr w)"

section \<open>Lemmas\<close>

lemma from_to_le_bytes: "from_le_bytes (to_le_bytes v) = Inr v"
proof -
  have "push_bit 8 (ucast (ucast (drop_bit 8 v) :: u8)) OR ucast (ucast v :: u8) = v"
    by (rule bit_word_eqI) (auto simp: bit_simps)
  then show ?thesis by (simp add: to_le_bytes_def)
qed

lemma length_to_le_bytes [simp]: "length (to_le_bytes v) = 2"
  by (simp add: to_le_bytes_def)

text \<open>The registers through the card.\<close>

lemma rx_regs:
  assumes hw: "rx_hw ps cfg (dev_bdf (nic_pci nic)) iobase capr cbr"
  shows "\<exists>w'. nic_inw ps nic REG_CBR w = Inr (cbr, w') \<and> capr w' = capr w"
    and "\<exists>w'. nic_inw ps nic REG_CAPR w = Inr (capr w, w') \<and> capr w' = capr w"
    and "\<exists>w'. nic_outw ps nic REG_CAPR v w = Inr w' \<and> capr w' = v"
    and "\<exists>cr w'. nic_inb ps nic REG_COMMAND w = Inr (cr, w') \<and> capr w' = capr w \<and>
      (cr AND 1 = 1 \<longrightarrow> (unat (capr w) + 16) mod RX_BUF_SIZE = unat cbr)"
proof -
  have io: "\<exists>w'. ioaddr ps nic r w = Inr (iobase + r, w') \<and> capr w' = capr w" if "unat r < 0x100" for r w
    using hw that ioaddr_io[of ps cfg nic iobase capr r] by (metis rx_hw_def)
  have in16: "fst (port_in16 ps (iobase + REG_CBR) w) = cbr" "capr (snd (port_in16 ps (iobase + REG_CBR) w)) = capr w"
    "fst (port_in16 ps (iobase + REG_CAPR) w) = capr w" "capr (snd (port_in16 ps (iobase + REG_CAPR) w)) = capr w"
    "capr (port_out16 ps (iobase + REG_CAPR) v w) = v" for w v using hw by (simp_all add: rx_hw_def)
  have in8: "fst (port_in8 ps (iobase + REG_COMMAND) w) AND 1 = 1 \<longrightarrow> (unat (capr w) + 16) mod RX_BUF_SIZE = unat cbr"
    "capr (snd (port_in8 ps (iobase + REG_COMMAND) w)) = capr w" for w using hw by (simp_all add: rx_hw_def)
  have r: "unat REG_CBR < 0x100" "unat REG_CAPR < 0x100" "unat REG_COMMAND < 0x100" by (simp_all add: REG_CBR_def REG_CAPR_def REG_COMMAND_def)
  show "\<exists>w'. nic_inw ps nic REG_CBR w = Inr (cbr, w') \<and> capr w' = capr w"
    using io[OF r(1), of w] in16(1,2) by (auto simp: nic_inw_def inw_def prod_eq_iff)
  show "\<exists>w'. nic_inw ps nic REG_CAPR w = Inr (capr w, w') \<and> capr w' = capr w"
    using io[OF r(2), of w] in16(3,4) by (auto simp: nic_inw_def inw_def prod_eq_iff)
  show "\<exists>w'. nic_outw ps nic REG_CAPR v w = Inr w' \<and> capr w' = v"
    using io[OF r(2), of w] in16(5) by (auto simp: nic_outw_def outw_def)
  show "\<exists>cr w'. nic_inb ps nic REG_COMMAND w = Inr (cr, w') \<and> capr w' = capr w \<and>
      (cr AND 1 = 1 \<longrightarrow> (unat (capr w) + 16) mod RX_BUF_SIZE = unat cbr)"
  proof -
    obtain w1 where w1: "ioaddr ps nic REG_COMMAND w = Inr (iobase + REG_COMMAND, w1)" "capr w1 = capr w" using io[OF r(3)] by blast
    show ?thesis using w1 in8[of w1] by (auto simp: nic_inb_def prod_eq_iff)
  qed
qed

text \<open>One frame: its header and its bytes as the loop reads them.\<close>

lemma rx_header:
  assumes t: "take (4 + length d) (drop pos buf) = to_le_bytes rsr @ to_le_bytes (of_nat (length d)) @ d"
    and "pos + 4 + length d \<le> length buf" and "length d < 2 ^ 16"
  obtains rest where "slice_from buf pos = Inr (to_le_bytes rsr @ to_le_bytes (of_nat (length d)) @ d @ rest)"
    "unat (of_nat (length d) :: u16) = length d"
proof -
  have "drop pos buf = take (4 + length d) (drop pos buf) @ drop (4 + length d) (drop pos buf)" by (metis append_take_drop_id)
  then have "drop pos buf = to_le_bytes rsr @ to_le_bytes (of_nat (length d)) @ d @ drop (4 + length d) (drop pos buf)" unfolding t by simp
  moreover have "unat (of_nat (length d) :: u16) = length d" using assms(3) by (simp add: unat_of_nat)
  ultimately show ?thesis using that assms(2) by (metis slice_from_def add_leE)
qed

lemma round_down_4: "unat ((x :: usize) AND NOT 3) = unat x div 4 * 4"
proof -
  have m: "(3 :: usize) = mask 2" by (simp add: mask_eq_exp_minus_1)
  have u: "unat (take_bit 2 x) = unat x mod 4" by (simp add: take_bit_eq_mod unat_mod)
  then have "take_bit 2 x \<le> x" by (simp add: word_le_nat_alt)
  moreover have "(x AND NOT 3) + take_bit 2 x = x"
  proof -
    have "(x AND NOT 3) AND take_bit 2 x = 0" unfolding m by (rule bit_word_eqI) (simp add: bit_simps)
    then have "(x AND NOT 3) + take_bit 2 x = (x AND NOT 3) OR take_bit 2 x" by (rule disjunctive_add_eq_or)
    also have "\<dots> = x" unfolding m by (rule bit_word_eqI) (auto simp: bit_simps)
    finally show ?thesis .
  qed
  then have "x AND NOT 3 = x - take_bit 2 x" by (simp add: eq_diff_eq)
  ultimately show ?thesis using u by (simp add: unat_sub minus_mod_eq_div_mult)
qed

lemma next_capr:
  assumes "unat capr < RX_BUF_SIZE" and "n < 2 ^ 16"
  shows "\<exists>c c' c''. checked_add (capr :: usize) 4 = Inr c \<and> checked_add c (of_nat n) = Inr c' \<and> checked_add c' 3 = Inr c'' \<and>
    unat ((c'' AND NOT 3) mod of_nat RX_BUF_SIZE) = next_pos (unat capr) n"
proof -
  have n: "unat (of_nat n :: usize) = n" using assms(2) by (simp add: unat_of_nat)
  have c: "unat (capr + 4) = unat capr + 4" using assms(1) by (subst unat_add_usize) (simp_all add: RX_BUF_SIZE_def)
  have c': "unat (capr + 4 + of_nat n) = unat capr + 4 + n" using assms c n by (subst unat_add_usize) (simp_all add: RX_BUF_SIZE_def)
  have c'': "unat (capr + 4 + of_nat n + 3) = unat capr + n + 7" using assms c' by (subst unat_add_usize) (simp_all add: RX_BUF_SIZE_def)
  have "unat ((capr + 4 + of_nat n + 3) AND NOT 3) = (unat capr + n + 7) div 4 * 4"
    using round_down_4[of "capr + 4 + of_nat n + 3"] c'' by simp
  then show ?thesis using assms c c' c'' n
    by (intro exI[of _ "capr + 4"] exI[of _ "capr + 4 + of_nat n"] exI[of _ "capr + 4 + of_nat n + 3"])
      (simp add: checked_add_eq_Inr unat_mod next_pos_def RX_BUF_SIZE_def)
qed

lemma capr_register:
  assumes "unat (c :: usize) < RX_BUF_SIZE"
  shows "(unat (ucast c - 0x10 :: u16) + 16) mod RX_BUF_SIZE = unat c"
proof -
  have u: "unat (ucast c :: u16) = unat c" using assms by (simp add: unsigned_ucast_eq take_bit_eq_mod RX_BUF_SIZE_def)
  show ?thesis
  proof (cases "0x10 \<le> (ucast c :: u16)")
    case True
    then have "unat (ucast c - 0x10 :: u16) = unat c - 16" "16 \<le> unat c" using u by (simp_all add: unat_sub word_le_nat_alt)
    then show ?thesis using assms by simp
  next
    case False
    then have "unat c < 16" using u by (simp add: word_le_nat_alt)
    then have "unat (ucast c - 0x10 :: u16) = unat c + 2 ^ 16 - 16" using u unat_sub_if_size[of "ucast c :: u16" "0x10"] by (simp add: word_size)
    then show ?thesis using assms mod_mult_self2[of "unat c" 8192 8] by (simp add: RX_BUF_SIZE_def add.commute)
  qed
qed

text \<open>Delivering frames one after the other, each without blocking.\<close>

fun delivers :: "('f \<Rightarrow> 's \<Rightarrow> (bool \<times> 's) res) \<Rightarrow> 'f list \<Rightarrow> 's \<Rightarrow> 's \<Rightarrow> bool" where
  "delivers f [] s s' \<longleftrightarrow> s' = s"
| "delivers f (d # ds) s s' \<longleftrightarrow> (\<exists>s1. f d s = Inr (True, s1) \<and> delivers f ds s1 s')"

lemma next_pos_less: "next_pos pos n < RX_BUF_SIZE"
  by (simp add: next_pos_def RX_BUF_SIZE_def)

lemma unat_widen: "unat (ucast (v :: u16) :: usize) = unat v"
  using unat_less_exp[of v] by (simp add: unsigned_ucast_eq take_bit_eq_mod)

lemma rx_loop_delivers:
  assumes hw: "rx_hw ps cfg (dev_bdf (nic_pci nic)) iobase capr cbr"
    and "rx_layout (rx_buf nic) (unat c) fs (unat cbr)" and "unat (c :: usize) < RX_BUF_SIZE" and "(unat (capr w) + 16) mod RX_BUF_SIZE = unat c"
    and "delivers deliver (map snd fs) s s'" and "length fs < fuel"
  shows "\<exists>w'. rx_loop fuel ps nic deliver (ucast cbr) c (s, w) = Inr (True, s', w') \<and> (unat (capr w') + 16) mod RX_BUF_SIZE = unat cbr"
  using assms(2-)
proof (induction fs arbitrary: fuel c w s)
  case Nil
  then obtain n where f: "fuel = Suc n" by (cases fuel) auto
  obtain cr w1 where w1: "nic_inb ps nic REG_COMMAND w = Inr (cr, w1)" "capr w1 = capr w" using rx_regs(4)[OF hw] by blast
  have "ucast cbr = c" using Nil.prems(1) unat_widen[of cbr] by (simp add: word_unat_eq_iff)
  then show ?case using w1 Nil.prems f by simp
next
  case (Cons rd fs)
  obtain n where f: "fuel = Suc n" "length fs < n" using Cons.prems(5) by (cases fuel) auto
  obtain rsr d where rd: "rd = (rsr, d)" by (cases rd)
  have lay: "unat c \<noteq> unat cbr" "unat c + 4 + length d \<le> length (rx_buf nic)" "length d < 2 ^ 16"
    "take (4 + length d) (drop (unat c) (rx_buf nic)) = to_le_bytes rsr @ to_le_bytes (of_nat (length d)) @ d"
    "rx_layout (rx_buf nic) (next_pos (unat c) (length d)) fs (unat cbr)" using Cons.prems(1) rd by simp_all
  obtain s1 where s1: "deliver d s = Inr (True, s1)" "delivers deliver (map snd fs) s1 s'" using Cons.prems(4) rd by auto
  obtain cr w1 where w1: "nic_inb ps nic REG_COMMAND w = Inr (cr, w1)" "capr w1 = capr w" "cr AND 1 \<noteq> 1"
    using rx_regs(4)[OF hw, of w] Cons.prems(3) lay(1) by auto
  have ne: "ucast cbr \<noteq> c" using lay(1) unat_widen[of cbr] by metis
  obtain rest where h: "slice_from (rx_buf nic) (unat c) = Inr (to_le_bytes rsr @ to_le_bytes (of_nat (length d)) @ d @ rest)"
    "unat (of_nat (length d) :: u16) = length d" by (rule rx_header[OF lay(4,2,3)])
  obtain c1 c2 c3 where c: "checked_add c 4 = Inr c1" "checked_add c1 (of_nat (length d)) = Inr c2" "checked_add c2 3 = Inr c3"
    "unat ((c3 AND NOT 3) mod of_nat RX_BUF_SIZE) = next_pos (unat c) (length d)" using next_capr[OF Cons.prems(2) lay(3)] by blast
  have uc: "(ucast (of_nat (length d) :: u16) :: usize) = of_nat (length d)" using h(2) lay(3) unat_widen[of "of_nat (length d)"] by (simp add: word_unat_eq_iff unat_of_nat)
  let ?c = "(c3 AND NOT 3) mod of_nat RX_BUF_SIZE"
  have lt: "unat ?c < RX_BUF_SIZE" using c(4) next_pos_less by simp
  obtain w2 where w2: "nic_outw ps nic REG_CAPR (ucast ?c - 0x10) w1 = Inr w2" "capr w2 = ucast ?c - 0x10" using rx_regs(3)[OF hw] by blast
  have "rx_loop fuel ps nic deliver (ucast cbr) c (s, w) = rx_loop n ps nic deliver (ucast cbr) ?c (s1, w2)"
    using f(1) w1(1,3) ne h s1(1) c(1-3) w2(1) uc by (simp add: split_at_def slice_def from_to_le_bytes Let_def)
  moreover have "\<exists>w'. rx_loop n ps nic deliver (ucast cbr) ?c (s1, w2) = Inr (True, s', w') \<and> (unat (capr w') + 16) mod RX_BUF_SIZE = unat cbr"
    using Cons.IH[of ?c w2 s1 n] lay(5) lt c(4) capr_register[OF lt] s1(2) f(2) w2(2) by simp
  ultimately show ?case by simp
qed

text \<open>How many empty buffers the ring has left.\<close>

lemma ring_room:
  assumes "ring_inv x" and "\<not> filling x"
  shows "unat (sem_count (recv_empty (ring_net x))) + length (stored x) = 4 + length (handled x)"
  using assms by (auto simp: ring_inv_def ring_ok_def)

context waking_sched
begin

lemma deliver_ring:
  assumes "ring_inv x" and "\<not> filling x" and "kinv k" and "\<forall>d \<in> set ds. length d \<le> 1526"
    and "releasing (recv_empty (ring_net x)) = []" and "set (waiting (recv_full (ring_net x))) \<subseteq> known k - {api_current api k}"
    and "length (waiting (recv_full (ring_net x))) \<le> 1" and "map_of stack dev = Some (ring_net x)"
  shows "\<exists>x' stack' k'. delivers (deliver_frame api now dev) ds (stack, k) (stack', k') \<and> map_of stack' dev = Some (ring_net x') \<and>
    ring_step\<^sup>*\<^sup>* x x' \<and> stored x' = stored x @ take (unat (sem_count (recv_empty (ring_net x)))) ds \<and> handled x' = handled x \<and> kinv k' \<and>
    (\<forall>b. b \<noteq> dev \<longrightarrow> map_of stack' b = map_of stack b)"
  using assms
proof (induction ds arbitrary: x stack k)
  case Nil
  then show ?case by (intro exI[of _ x] exI[of _ stack] exI[of _ k]) simp
next
  case (Cons d ds)
  have len: "length d \<le> 1526" "\<forall>d \<in> set ds. length d \<le> 1526" using Cons.prems(4) by simp_all
  obtain net' k1 where r: "recv_frame api now d (ring_net x, k) = Inr (True, net', k1)" "kinv k1"
    "if sem_count (recv_empty (ring_net x)) = 0 then net' = ring_net x \<and> k1 = k
     else ring_step\<^sup>*\<^sup>* x (x\<lparr>ring_net := net', stored := stored x @ [d]\<rparr>) \<and> releasing (recv_empty net') = [] \<and>
       waiting (recv_full net') = tl (waiting (recv_full (ring_net x)))"
    using recv_frame_law[OF Cons.prems(1-3) len(1) Cons.prems(5,6), of now] by (auto split: if_splits)
  have d: "deliver_frame api now dev d (stack, k) = Inr (True, btm_insert dev net' stack, k1)"
    using r(1) Cons.prems(8) by (simp add: deliver_frame_def)
  show ?case
  proof (cases "sem_count (recv_empty (ring_net x)) = 0")
    case True
    then have e: "net' = ring_net x" "k1 = k" using r(3) by auto
    have m: "map_of (btm_insert dev net' stack) dev = Some (ring_net x)" using e(1) by (simp add: map_of_btm_insert)
    show ?thesis
      using Cons.IH[OF Cons.prems(1-3) len(2) Cons.prems(5-7) m] d e True by (auto simp: map_of_btm_insert)
  next
    case False
    let ?x = "x\<lparr>ring_net := net', stored := stored x @ [d]\<rparr>"
    have s: "ring_step\<^sup>*\<^sup>* x ?x" and q: "releasing (recv_empty (ring_net ?x)) = []" "waiting (recv_full (ring_net ?x)) = tl (waiting (recv_full (ring_net x)))"
      using r(3) False by auto
    have w: "waiting (recv_full (ring_net ?x)) = []" using q(2) Cons.prems(7) by (cases "waiting (recv_full (ring_net x))") auto
    have i: "ring_inv ?x" by (rule ring_inv_reach[OF s Cons.prems(1)])
    have fl: "\<not> filling ?x" using Cons.prems(2) by simp
    have m: "map_of (btm_insert dev net' stack) dev = Some (ring_net ?x)" by (simp add: map_of_btm_insert)
    obtain x' stack' k' where h: "delivers (deliver_frame api now dev) ds (btm_insert dev net' stack, k1) (stack', k')"
      "map_of stack' dev = Some (ring_net x')" "ring_step\<^sup>*\<^sup>* ?x x'"
      "stored x' = stored ?x @ take (unat (sem_count (recv_empty (ring_net ?x)))) ds" "handled x' = handled ?x" "kinv k'"
      "\<forall>b. b \<noteq> dev \<longrightarrow> map_of stack' b = map_of (btm_insert dev net' stack) b"
      using Cons.IH[OF i fl r(2) len(2) q(1) _ _ m] w by auto
    have "unat (sem_count (recv_empty (ring_net x))) \<noteq> 0" using False by (simp add: unat_eq_zero)
    then have "unat (sem_count (recv_empty (ring_net x))) = Suc (unat (sem_count (recv_empty (ring_net ?x))))"
      using ring_room[OF Cons.prems(1,2)] ring_room[OF i fl] by simp
    then have "stored x' = stored x @ take (unat (sem_count (recv_empty (ring_net x)))) (d # ds)" using h(4) by simp
    moreover have "delivers (deliver_frame api now dev) (d # ds) (stack, k) (stack', k')" using d h(1) by auto
    moreover have "\<forall>b. b \<noteq> dev \<longrightarrow> map_of stack' b = map_of stack b" using h(7) by (simp add: map_of_btm_insert)
    ultimately show ?thesis using rtranclp_trans[OF s h(3)] h(2,5,6) by (intro exI[of _ x'] exI[of _ stack'] exI[of _ k']) simp
  qed
qed

end

text \<open>Up to the loop.\<close>

lemma process_receive_start:
  assumes k: "sched_ready sp ca k" and q: "sem_count (pending_irqs nic) \<noteq> 0" "releasing (pending_irqs nic) = []"
    and hw: "rx_hw ps cfg (dev_bdf (nic_pci nic)) iobase capr cbr"
  obtains p k1 w2 c where "process_receive fuel ps (kernel_api sp ca) now (nic, stack, k, w) =
      rbind (rx_loop fuel ps (nic\<lparr>pending_irqs := p\<rparr>) (deliver_frame (kernel_api sp ca) now (dev_bdf (nic_pci nic))) (ucast cbr) c ((stack, k1), w2))
        (\<lambda>(through, (stack, k), w). Inr (through, nic\<lparr>pending_irqs := p\<rparr>, stack, k, w))"
    "unat c = (unat (capr w) + 16) mod RX_BUF_SIZE" "capr w2 = capr w" "sched_ready sp ca k1" "known_tasks k1 = known_tasks k"
    "current_task (cpu k1) = current_task (cpu k)" "rx_hw ps cfg (dev_bdf (nic_pci (nic\<lparr>pending_irqs := p\<rparr>))) iobase capr cbr"
proof -
  obtain p where p: "try_take (pending_irqs nic) = Some p" using q(1) by (auto simp: try_take_def word_gt_0)
  obtain k1 where k1: "wait_call (kernel_api sp ca) now (pending_irqs nic) k = Inr (True, p, k1)" "sched_ready sp ca k1"
    "known_tasks k1 = known_tasks k" "current_task (cpu k1) = current_task (cpu k)"
    by (rule kernel_waking.wait_through_law[OF k p q(2)]) auto
  let ?nic = "nic\<lparr>pending_irqs := p\<rparr>"
  have hw': "rx_hw ps cfg (dev_bdf (nic_pci ?nic)) iobase capr cbr" using hw by simp
  obtain w1 where w1: "nic_inw ps ?nic REG_CBR w = Inr (cbr, w1)" "capr w1 = capr w" using rx_regs(1)[OF hw'] by blast
  obtain w2 where w2: "nic_inw ps ?nic REG_CAPR w1 = Inr (capr w, w2)" "capr w2 = capr w" using rx_regs(2)[OF hw', of w1] w1(2) by auto
  have u: "unat (ucast (capr w) + 0x10 :: usize) = unat (capr w) + 16"
    using unat_less_exp[of "capr w"] unat_widen[of "capr w"] by (subst unat_add_usize) simp_all
  have "checked_add (ucast (capr w)) (0x10 :: usize) = Inr (ucast (capr w) + 0x10)"
    using u unat_widen[of "capr w"] unat_less_exp[of "capr w"] by (simp add: checked_add_eq_Inr)
  moreover have "unat ((ucast (capr w) + 0x10) mod of_nat RX_BUF_SIZE :: usize) = (unat (capr w) + 16) mod RX_BUF_SIZE"
    using u by (simp add: unat_mod RX_BUF_SIZE_def)
  ultimately show ?thesis using that k1 w1(1) w2 hw' by (simp add: process_receive_def Let_def)
qed

section \<open>Properties\<close>

text \<open>C15: Receiving: when the card has written frames from the position of the driver up to its own, an interrupt
  is pending and the scheduler is in order, \<open>process_receive\<close> returns without blocking once it is allowed a
  round for each frame and one more; the interface of the card has stored as many of the frames as it had
  empty buffers, the first ones, in order and unchanged, and the position of the driver is that of the card.\<close>

theorem receive_stores_frames:
  assumes "interface_new dev boxes = Inr net" and "length boxes = 4" and "\<forall>b \<in> set boxes. length b = 1526"
    and "ring_step\<^sup>*\<^sup>* (ring_start net) x" and "\<not> filling x" and "sched_ready sp ca k"
    and "releasing (recv_empty (ring_net x)) = []" and "set (waiting (recv_full (ring_net x))) \<subseteq> known_tasks k - {current_task (cpu k)}"
    and "length (waiting (recv_full (ring_net x))) \<le> 1" and "map_of stack (dev_bdf (nic_pci nic)) = Some (ring_net x)"
    and "sem_count (pending_irqs nic) \<noteq> 0" and "releasing (pending_irqs nic) = []"
    and "rx_hw ps cfg (dev_bdf (nic_pci nic)) iobase capr cbr"
    and "rx_layout (rx_buf nic) ((unat (capr w) + 16) mod RX_BUF_SIZE) fs (unat cbr)" and "\<forall>(rsr, d) \<in> set fs. length d \<le> 1526"
    and "length fs < fuel"
  shows "\<exists>x' nic' stack' k' w'. process_receive fuel ps (kernel_api sp ca) now (nic, stack, k, w) = Inr (True, nic', stack', k', w') \<and>
    map_of stack' (dev_bdf (nic_pci nic)) = Some (ring_net x') \<and> ring_step\<^sup>*\<^sup>* (ring_start net) x' \<and>
    stored x' = stored x @ take (unat (sem_count (recv_empty (ring_net x)))) (map snd fs) \<and> handled x' = handled x \<and>
    (unat (capr w') + 16) mod RX_BUF_SIZE = unat cbr \<and> sched_ready sp ca k'"
proof -
  let ?dev = "dev_bdf (nic_pci nic)"
  have i: "ring_inv x" by (rule ring_inv_reach[OF assms(4) ring_inv_start[OF assms(1-3)]])
  obtain p k1 w2 c where r: "process_receive fuel ps (kernel_api sp ca) now (nic, stack, k, w) =
      rbind (rx_loop fuel ps (nic\<lparr>pending_irqs := p\<rparr>) (deliver_frame (kernel_api sp ca) now ?dev) (ucast cbr) c ((stack, k1), w2))
        (\<lambda>(through, (stack, k), w). Inr (through, nic\<lparr>pending_irqs := p\<rparr>, stack, k, w))"
    and c: "unat c = (unat (capr w) + 16) mod RX_BUF_SIZE" and w2: "capr w2 = capr w"
    and k1: "sched_ready sp ca k1" "known_tasks k1 = known_tasks k" "current_task (cpu k1) = current_task (cpu k)"
    and hw: "rx_hw ps cfg (dev_bdf (nic_pci (nic\<lparr>pending_irqs := p\<rparr>))) iobase capr cbr"
    by (rule process_receive_start[OF assms(6,11-13)])
  have ds: "\<forall>d \<in> set (map snd fs). length d \<le> 1526" using assms(15) by auto
  obtain x' stack' k' where d: "delivers (deliver_frame (kernel_api sp ca) now ?dev) (map snd fs) (stack, k1) (stack', k')"
    "map_of stack' ?dev = Some (ring_net x')" "ring_step\<^sup>*\<^sup>* x x'"
    "stored x' = stored x @ take (unat (sem_count (recv_empty (ring_net x)))) (map snd fs)" "handled x' = handled x" "sched_ready sp ca k'"
    using kernel_waking.deliver_ring[OF i assms(5) k1(1) ds assms(7) _ assms(9,10), of now] assms(8) k1(2,3) by auto
  have lay: "rx_layout (rx_buf (nic\<lparr>pending_irqs := p\<rparr>)) (unat c) fs (unat cbr)" using assms(14) c by simp
  have lt: "unat c < RX_BUF_SIZE" unfolding c by (simp add: RX_BUF_SIZE_def)
  have pos: "(unat (capr w2) + 16) mod RX_BUF_SIZE = unat c" unfolding c w2 ..
  obtain w' where "rx_loop fuel ps (nic\<lparr>pending_irqs := p\<rparr>) (deliver_frame (kernel_api sp ca) now ?dev) (ucast cbr) c ((stack, k1), w2) =
      Inr (True, (stack', k'), w')" "(unat (capr w') + 16) mod RX_BUF_SIZE = unat cbr"
    using rx_loop_delivers[OF hw lay lt pos d(1) assms(16)] by blast
  then show ?thesis using r d rtranclp_trans[OF assms(4) d(3)] by auto
qed

text \<open>A card at port 0xc000 of device 0:3.0 that has received frames up to \<open>cbr\<close>.\<close>

definition sample_rx_ports :: "u16 \<Rightarrow> (u32 \<times> u16) ports" where
  "sample_rx_ports cbr = \<lparr>port_out8 = (\<lambda>_ _ w. w), port_in8 = (\<lambda>_ w. (0, w)),
     port_out16 = (\<lambda>p v (sel, capr). (sel, if p = 0xc038 then v else capr)),
     port_in16 = (\<lambda>p (sel, capr). (if p = 0xc03a then cbr else capr, (sel, capr))),
     port_out32 = (\<lambda>p v (sel, capr). if p = CONFIG_ADDRESS then (v, capr) else (sel, capr)),
     port_in32 = (\<lambda>p (sel, capr). (if sel = 0x80001810 then 0xc001 else 0, (sel, capr)))\<rparr>"

lemma sample_rx_hw:
  assumes "unat cbr < RX_BUF_SIZE"
  shows "rx_hw (sample_rx_ports cbr) (\<lambda>a. if a = 0x80001810 then 0xc001 else 0) (BDF 0 3 0) 0xc000 snd cbr"
  using assms by (auto simp: rx_hw_def io_space_def static_config_def sample_rx_ports_def reg_of_def config_address_def CONFIG_ADDRESS_def
      REG_CBR_def REG_CAPR_def REG_COMMAND_def)

definition sample_rx_nic :: "u8 list \<Rightarrow> rtl8139" where
  "sample_rx_nic buf = sample_nic\<lparr>rx_buf := buf, pending_irqs := \<lparr>sem_count = 1, sem_max = 128, waiting = [], releasing = []\<rparr>\<rparr>"

theorem receive_stores_frames_witness:
  "\<exists>(x' :: ring) nic' stack' k' w'. process_receive 2 (sample_rx_ports 8) (kernel_api bool_spin sample_code) 0
      (sample_rx_nic ([1, 0, 3, 0, 1, 2, 3] @ replicate 9701 0), [(BDF 0 3 0, sample_net)], sample_kernel1, (0, 0xfff0)) =
        Inr (True, nic', stack', k', w') \<and>
     map_of stack' (BDF 0 3 0) = Some (ring_net x') \<and> stored x' = [[1, 2, 3]]"
proof -
  let ?nic = "sample_rx_nic ([1, 0, 3, 0, 1, 2, 3] @ replicate 9701 0)"
  obtain net0 where n: "interface_new (BDF 0 3 0) sample_boxes = Inr net0" "length sample_boxes = 4"
    "\<forall>b \<in> set sample_boxes. length b = 1526" "ring_step (ring_start net0) (ring_start sample_net)" by (rule sample_net_new)
  have d: "dev_bdf (nic_pci ?nic) = BDF 0 3 0" by (simp add: sample_rx_nic_def sample_nic_def pci_info_def)
  have hw: "rx_hw (sample_rx_ports 8) (\<lambda>a. if a = 0x80001810 then 0xc001 else 0) (dev_bdf (nic_pci ?nic)) 0xc000 snd 8"
    unfolding d by (rule sample_rx_hw) (simp add: RX_BUF_SIZE_def)
  have lay: "rx_layout (rx_buf ?nic) ((unat (snd (0 :: u32, 0xfff0 :: u16)) + 16) mod RX_BUF_SIZE) [(1, [1, 2, 3])] (unat (8 :: u16))"
    by (simp add: sample_rx_nic_def RX_BUF_SIZE_def next_pos_def to_le_bytes_def)
  have q: "\<not> filling (ring_start sample_net)" "releasing (recv_empty (ring_net (ring_start sample_net))) = []"
    "set (waiting (recv_full (ring_net (ring_start sample_net)))) \<subseteq> known_tasks sample_kernel1 - {current_task (cpu sample_kernel1)}"
    "length (waiting (recv_full (ring_net (ring_start sample_net)))) \<le> 1"
    "map_of [(BDF 0 3 0, sample_net)] (dev_bdf (nic_pci ?nic)) = Some (ring_net (ring_start sample_net))"
    "sem_count (pending_irqs ?nic) \<noteq> 0" "releasing (pending_irqs ?nic) = []"
    unfolding d using sample1_known by (simp_all add: ring_start_def sample_net_def sample1_current sample_rx_nic_def)
  have f: "\<forall>(rsr, d) \<in> set [(1 :: u16, [1, 2, 3 :: u8])]. length d \<le> 1526" "length [(1 :: u16, [1, 2, 3 :: u8])] < 2" by simp_all
  have e: "ring_net (ring_start sample_net) = sample_net" "stored (ring_start sample_net) = []" "unat (sem_count (recv_empty sample_net)) = 4"
    by (simp_all add: ring_start_def sample_net_def)
  from receive_stores_frames[OF n(1-3) r_into_rtranclp[of ring_step, OF n(4)] q(1) sample1_ready q(2-7) hw lay f, of 0, unfolded d e]
  obtain x' :: ring and nic' stack' k' w' where "process_receive 2 (sample_rx_ports 8) (kernel_api bool_spin sample_code) 0
      (?nic, [(BDF 0 3 0, sample_net)], sample_kernel1, (0, 0xfff0)) = Inr (True, nic', stack', k', w')"
    "map_of stack' (BDF 0 3 0) = Some (ring_net x')" "stored x' = [] @ take 4 (map snd [(1 :: u16, [1, 2, 3])])" by blast
  then show ?thesis by (intro exI[of _ x'] exI[of _ nic'] exI[of _ stack'] exI[of _ k'] exI[of _ w']) simp
qed

text \<open>Property: The end of the receive buffer: a frame whose header says that it reaches past the buffer stops the kernel.
  With the 16 + 1500 bytes behind the ring that is the case for a frame of the maximal length of 1518 bytes,
  with checksum, that starts at the last position of the ring, 8188.\<close>

theorem receive_overrun_panics:
  assumes "sched_ready sp ca k" and "sem_count (pending_irqs nic) \<noteq> 0" and "releasing (pending_irqs nic) = []"
    and "rx_hw ps cfg (dev_bdf (nic_pci nic)) iobase capr cbr" and "pos = (unat (capr w) + 16) mod RX_BUF_SIZE" and "pos \<noteq> unat cbr"
    and "length (rx_buf nic) = RX_BUF_SIZE_WITH_WRAP" and "take 4 (drop pos (rx_buf nic)) = to_le_bytes rsr @ to_le_bytes (of_nat n)"
    and "n < 2 ^ 16" and "RX_BUF_SIZE_WITH_WRAP < pos + 4 + n" and "fuel \<noteq> 0"
  shows "process_receive fuel ps (kernel_api sp ca) now (nic, stack, k, w) = Inl OutOfBounds"
proof -
  obtain p k1 w2 c where r: "process_receive fuel ps (kernel_api sp ca) now (nic, stack, k, w) =
      rbind (rx_loop fuel ps (nic\<lparr>pending_irqs := p\<rparr>) (deliver_frame (kernel_api sp ca) now (dev_bdf (nic_pci nic))) (ucast cbr) c ((stack, k1), w2))
        (\<lambda>(through, (stack, k), w). Inr (through, nic\<lparr>pending_irqs := p\<rparr>, stack, k, w))"
    and c: "unat c = pos" and w2: "capr w2 = capr w"
    and hw: "rx_hw ps cfg (dev_bdf (nic_pci (nic\<lparr>pending_irqs := p\<rparr>))) iobase capr cbr"
    unfolding assms(5) by (rule process_receive_start[OF assms(1-4)])
  let ?nic = "nic\<lparr>pending_irqs := p\<rparr>"
  obtain cr w3 where w3: "nic_inb ps ?nic REG_COMMAND w2 = Inr (cr, w3)" "cr AND 1 \<noteq> 1" using rx_regs(4)[OF hw, of w2] assms(5,6) w2 by auto
  have ne: "ucast cbr \<noteq> c" using assms(6) c unat_widen[of cbr] by metis
  have "pos < RX_BUF_SIZE" using assms(5) by (simp add: RX_BUF_SIZE_def)
  then have sl: "slice_from (rx_buf ?nic) (unat c) = Inr (drop pos (rx_buf nic))" using assms(7) c by (simp add: slice_from_def RX_BUF_SIZE_WITH_WRAP_def)
  have "drop pos (rx_buf nic) = take 4 (drop pos (rx_buf nic)) @ drop (4 + pos) (rx_buf nic)" by (metis append_take_drop_id drop_drop)
  then have dr: "drop pos (rx_buf nic) = to_le_bytes rsr @ to_le_bytes (of_nat n) @ drop (4 + pos) (rx_buf nic)" unfolding assms(8) by simp
  have "unat (of_nat n :: u16) = n" using assms(9) by (simp add: unat_of_nat)
  then have "slice (drop (4 + pos) (rx_buf nic)) 0 (unat (of_nat n :: u16)) = Inl OutOfBounds"
    using assms(7,10) \<open>pos < RX_BUF_SIZE\<close> by (simp add: slice_def RX_BUF_SIZE_def RX_BUF_SIZE_WITH_WRAP_def)
  then have "rx_loop fuel ps ?nic (deliver_frame (kernel_api sp ca) now (dev_bdf (nic_pci nic))) (ucast cbr) c ((stack, k1), w2) = Inl OutOfBounds"
    using assms(11) w3 ne sl by (cases fuel) (simp_all add: dr split_at_def from_to_le_bytes)
  then show ?thesis using r by simp
qed

theorem receive_overrun_panics_witness:
  "process_receive 1 (sample_rx_ports 0) (kernel_api bool_spin sample_code) 0
      (sample_rx_nic (replicate 8188 0 @ [1, 0, 0xee, 5] @ replicate 1516 0), [(BDF 0 3 0, sample_net)], sample_kernel1, (0, 8172)) = Inl OutOfBounds"
proof -
  let ?nic = "sample_rx_nic (replicate 8188 0 @ [1, 0, 0xee, 5] @ replicate 1516 0)"
  have d: "dev_bdf (nic_pci ?nic) = BDF 0 3 0" by (simp add: sample_rx_nic_def sample_nic_def pci_info_def)
  have hw: "rx_hw (sample_rx_ports 0) (\<lambda>a. if a = 0x80001810 then 0xc001 else 0) (dev_bdf (nic_pci ?nic)) 0xc000 snd 0"
    unfolding d by (rule sample_rx_hw) (simp add: RX_BUF_SIZE_def)
  have buf: "rx_buf ?nic = replicate 8188 0 @ [1, 0, 0xee, 5] @ replicate 1516 0" by (simp add: sample_rx_nic_def)
  have r: "length (rx_buf ?nic) = RX_BUF_SIZE_WITH_WRAP" "drop 8188 (rx_buf ?nic) = [1, 0, 0xee, 5] @ replicate 1516 0"
    unfolding buf by (simp_all add: RX_BUF_SIZE_WITH_WRAP_def RX_BUF_SIZE_def)
  have b: "take 4 (drop 8188 (rx_buf ?nic)) = to_le_bytes 1 @ to_le_bytes (of_nat 1518)" unfolding r(2) by (simp add: to_le_bytes_def)
  have q: "sem_count (pending_irqs ?nic) \<noteq> 0" "releasing (pending_irqs ?nic) = []" by (simp_all add: sample_rx_nic_def)
  have c: "8188 = (unat (snd (0 :: u32, 8172 :: u16)) + 16) mod RX_BUF_SIZE" "8188 \<noteq> unat (0 :: u16)" by (simp_all add: RX_BUF_SIZE_def)
  have l: "1518 < (2 :: nat) ^ 16" "RX_BUF_SIZE_WITH_WRAP < 8188 + 4 + 1518" "(1 :: nat) \<noteq> 0" by (simp_all add: RX_BUF_SIZE_WITH_WRAP_def RX_BUF_SIZE_def)
  show ?thesis by (rule receive_overrun_panics[OF sample1_ready q hw c r(1) b l])
qed

end
