(* ===== verification/Acpi.thy ===== *)
theory Acpi
  imports Mapper
begin

text \<open>
  The ACPI tables (\<open>src/drivers/acpi.rs\<close>): finding a table through the extended system description table,
  and reading the tables of the interrupt controllers (MADT), of the event timer (HPET) and of the PCI
  configuration space (MCFG). The tables are bytes of memory that the firmware wrote; a structure is read
  at the offsets of its fields.
\<close>

section \<open>Model\<close>

type_synonym memory = "usize \<Rightarrow> u8"

definition read_bytes :: "memory \<Rightarrow> usize \<Rightarrow> nat \<Rightarrow> u8 list" where
  "read_bytes mem a n = map (\<lambda>i. mem (a + of_nat i)) [0..<n]"

fun le_word :: "u8 list \<Rightarrow> 'a :: len word" where
  "le_word [] = 0"
| "le_word (b # bs) = ucast b OR push_bit 8 (le_word bs)"

definition read_u16 :: "memory \<Rightarrow> usize \<Rightarrow> u16" where
  "read_u16 mem a = le_word (read_bytes mem a 2)"

definition read_u32 :: "memory \<Rightarrow> usize \<Rightarrow> u32" where
  "read_u32 mem a = le_word (read_bytes mem a 4)"

definition read_u64 :: "memory \<Rightarrow> usize \<Rightarrow> u64" where
  "read_u64 mem a = le_word (read_bytes mem a 8)"

subsection \<open>The tables\<close>

record interrupt_mapping =
  irq_number :: u8
  global_system_interrupt :: u8

record madt =
  madt_lapic_addr :: usize
  madt_ioapic_addr :: usize
  global_system_interrupt_base :: u32
  interrupt_mappings :: "interrupt_mapping list"

record acpi_hpet =
  ah_hardware_rev_id :: u8
  ah_comparator_count :: u8
  ah_counter_size :: u8
  ah_legacy :: bool
  ah_pci_vendor_id :: u16
  ah_address_space_id :: u8
  ah_register_bit_width :: u8
  ah_register_bit_offset :: u8
  ah_base_address :: usize
  ah_hpet_number :: u8
  ah_minimum_tick :: u16
  ah_page_protection :: u8

record config_space =
  cs_base_address :: u64
  segment_group_number :: u16
  start_bus_number :: u8
  end_bus_number :: u8
  cs_reserved :: u32

text \<open>The signatures: \<open>RSD PTR \<close>, \<open>XSDT\<close>, \<open>APIC\<close>, \<open>HPET\<close> and \<open>MCFG\<close>.\<close>

definition RSDP_SIG :: "u8 list" where "RSDP_SIG = [0x52, 0x53, 0x44, 0x20, 0x50, 0x54, 0x52, 0x20]"
definition XSDT_SIG :: "u8 list" where "XSDT_SIG = [0x58, 0x53, 0x44, 0x54]"
definition APIC_SIG :: "u8 list" where "APIC_SIG = [0x41, 0x50, 0x49, 0x43]"
definition HPET_SIG :: "u8 list" where "HPET_SIG = [0x48, 0x50, 0x45, 0x54]"
definition MCFG_SIG :: "u8 list" where "MCFG_SIG = [0x4d, 0x43, 0x46, 0x47]"

text \<open>What \<open>core::str::from_utf8\<close> accepts.\<close>

definition utf8_cont :: "u8 \<Rightarrow> bool" where
  "utf8_cont b \<longleftrightarrow> 0x80 \<le> b \<and> b \<le> 0xbf"

fun utf8_ok :: "u8 list \<Rightarrow> bool" where
  "utf8_ok [] \<longleftrightarrow> True"
| "utf8_ok (a # bs) \<longleftrightarrow>
     (if a < 0x80 then utf8_ok bs
      else if a < 0xc2 then False
      else if a < 0xe0 then (case bs of b # r \<Rightarrow> utf8_cont b \<and> utf8_ok r | _ \<Rightarrow> False)
      else if a < 0xf0 then
        (case bs of b # c # r \<Rightarrow> utf8_cont b \<and> (a = 0xe0 \<longrightarrow> 0xa0 \<le> b) \<and> (a = 0xed \<longrightarrow> b \<le> 0x9f) \<and> utf8_cont c \<and> utf8_ok r | _ \<Rightarrow> False)
      else if a < 0xf5 then
        (case bs of b # c # d # r \<Rightarrow> utf8_cont b \<and> (a = 0xf0 \<longrightarrow> 0x90 \<le> b) \<and> (a = 0xf4 \<longrightarrow> b \<le> 0x8f) \<and> utf8_cont c \<and> utf8_cont d \<and> utf8_ok r
         | _ \<Rightarrow> False)
      else False)"

definition parse_xsdt :: "memory \<Rightarrow> usize \<Rightarrow> (usize \<times> usize) res" where
  "parse_xsdt mem rsdp =
     rbind (rassert (read_bytes mem rsdp 8 = RSDP_SIG)) (\<lambda>_.
     rbind (checked_add (read_u64 mem (rsdp + 24)) MMIO_BASE) (\<lambda>xsdt.
     rbind (rassert (read_bytes mem xsdt 4 = XSDT_SIG)) (\<lambda>_.
     rbind (checked_sub (read_u32 mem (xsdt + 4)) 36) (\<lambda>n.
     rbind (checked_add xsdt 36) (\<lambda>entries.
     Inr (entries, ucast (n div 8)))))))"

text \<open>The header of the table of an entry: its address, signature and length.\<close>

definition table_header :: "memory \<Rightarrow> usize \<Rightarrow> nat \<Rightarrow> (usize \<times> u8 list \<times> u32) res" where
  "table_header mem entries e =
     rbind (checked_add (read_u64 mem (entries + 8 * of_nat e)) MMIO_BASE) (\<lambda>addr.
     let signature = read_bytes mem addr 4 in
     if utf8_ok signature then Inr (addr, signature, read_u32 mem (addr + 4)) else Inl ExpectFailed)"

fun find_table :: "memory \<Rightarrow> usize \<Rightarrow> u8 list \<Rightarrow> nat list \<Rightarrow> (usize \<times> u32) option res" where
  "find_table mem entries sig [] = Inr None"
| "find_table mem entries sig (e # es) =
     rbind (table_header mem entries e) (\<lambda>(addr, signature, len).
     if signature = sig then Inr (Some (addr, len)) else find_table mem entries sig es)"

subsection \<open>The interrupt controllers\<close>

definition madt_entry :: "memory \<Rightarrow> usize \<Rightarrow> u8 \<Rightarrow> madt \<Rightarrow> madt res" where
  "madt_entry mem head ty info =
     (if ty = 1 then
        rbind (checked_add (ucast (read_u32 mem (head + 4))) MMIO_BASE) (\<lambda>a.
        Inr (info\<lparr>madt_ioapic_addr := a, global_system_interrupt_base := read_u32 mem (head + 8)\<rparr>))
      else if ty = 2 then
        Inr (info\<lparr>interrupt_mappings := interrupt_mappings info @
          [\<lparr>irq_number = mem (head + 3), global_system_interrupt = mem (head + 4)\<rparr>]\<rparr>)
      else if ty = 5 then
        rbind (checked_add (read_u64 mem (head + 4)) MMIO_BASE) (\<lambda>a. Inr (info\<lparr>madt_lapic_addr := a\<rparr>))
      else Inr info)"

text \<open>The loop over the entries, with a bound on its rounds.\<close>

fun madt_loop :: "nat \<Rightarrow> memory \<Rightarrow> usize \<Rightarrow> usize \<Rightarrow> madt \<Rightarrow> madt res" where
  "madt_loop 0 mem head tail info = Inl Diverges"
| "madt_loop (Suc fuel) mem head tail info =
     (if head < tail then
        let ty = mem head in
        rbind (checked_add head 1) (\<lambda>a.
        let len = mem a in
        rbind (madt_entry mem head ty info) (\<lambda>info.
        rbind (checked_add head (ucast len)) (\<lambda>head.
        madt_loop fuel mem head tail info)))
      else Inr info)"

definition parse_madt_table :: "nat \<Rightarrow> memory \<Rightarrow> usize \<Rightarrow> u32 \<Rightarrow> mapper option \<Rightarrow> (madt \<times> mapper option) res" where
  "parse_madt_table fuel mem addr len mp =
     rbind (checked_add addr 36) (\<lambda>body.
     rbind (checked_add addr 44) (\<lambda>head.
     rbind (checked_add addr (ucast len)) (\<lambda>tail.
     rbind (checked_add (ucast (read_u32 mem body)) MMIO_BASE) (\<lambda>lapic.
     rbind (madt_loop fuel mem head tail
       \<lparr>madt_lapic_addr = lapic, madt_ioapic_addr = 0, global_system_interrupt_base = 0, interrupt_mappings = []\<rparr>) (\<lambda>info.
     rbind (expect mp) (\<lambda>m.
     rbind (checked_sub (madt_ioapic_addr info) MMIO_BASE) (\<lambda>p.
     rbind (map_mmio m p) (\<lambda>m.
     rbind (checked_sub (madt_lapic_addr info) MMIO_BASE) (\<lambda>p.
     rbind (map_mmio m p) (\<lambda>m.
     Inr (info, Some m)))))))))))"

definition parse_madt :: "nat \<Rightarrow> memory \<Rightarrow> usize \<Rightarrow> mapper option \<Rightarrow> ((madt, string) rust_result \<times> mapper option) res" where
  "parse_madt fuel mem rsdp mp =
     rbind (parse_xsdt mem rsdp) (\<lambda>(entries, len).
     rbind (rfold (\<lambda>e (info, mp).
         rbind (table_header mem entries e) (\<lambda>(addr, signature, n).
         if signature = APIC_SIG then parse_madt_table fuel mem addr n mp else Inr (info, mp)))
       [0..<unat len]
       (\<lparr>madt_lapic_addr = 0, madt_ioapic_addr = 0, global_system_interrupt_base = 0, interrupt_mappings = []\<rparr>, mp))
     (\<lambda>(info, mp). Inr (Ok info, mp)))"

subsection \<open>The event timer\<close>

definition parse_hpet_table :: "memory \<Rightarrow> usize \<Rightarrow> u32 \<Rightarrow> mapper option \<Rightarrow> (acpi_hpet \<times> mapper option) res" where
  "parse_hpet_table mem addr len mp =
     rbind (checked_add addr 36) (\<lambda>body.
     rbind (checked_add addr 44) (\<lambda>_.
     rbind (checked_add addr (ucast len)) (\<lambda>_.
     let block_id = read_u32 mem body in
     rbind (checked_add (read_u64 mem (body + 8)) MMIO_BASE) (\<lambda>base.
     let info = \<lparr>ah_hardware_rev_id = ucast (block_id AND 0xff),
           ah_comparator_count = ucast (drop_bit 8 block_id AND 0xf),
           ah_counter_size = ucast (drop_bit 13 block_id AND 0x1),
           ah_legacy = (drop_bit 15 block_id AND 0x1 \<noteq> 0),
           ah_pci_vendor_id = ucast (drop_bit 16 block_id AND 0xffff),
           ah_address_space_id = mem (body + 4), ah_register_bit_width = mem (body + 5),
           ah_register_bit_offset = mem (body + 6), ah_base_address = base, ah_hpet_number = mem (body + 16),
           ah_minimum_tick = read_u16 mem (body + 17), ah_page_protection = mem (body + 19)\<rparr> in
     rbind (expect mp) (\<lambda>m.
     rbind (checked_sub (ah_base_address info) MMIO_BASE) (\<lambda>p.
     rbind (map_mmio m p) (\<lambda>m.
     Inr (info, Some m))))))))"

definition parse_hpet :: "memory \<Rightarrow> usize \<Rightarrow> mapper option \<Rightarrow> ((acpi_hpet, string) rust_result \<times> mapper option) res" where
  "parse_hpet mem rsdp mp =
     rbind (parse_xsdt mem rsdp) (\<lambda>(entries, len).
     rbind (find_table mem entries HPET_SIG [0..<unat len]) (\<lambda>t.
     case t of
       Some (addr, n) \<Rightarrow> rbind (parse_hpet_table mem addr n mp) (\<lambda>(info, mp). Inr (Ok info, mp))
     | None \<Rightarrow> Inr (Err ''could not find HPET'', mp)))"

subsection \<open>The configuration space\<close>

definition config_space_at :: "memory \<Rightarrow> usize \<Rightarrow> config_space" where
  "config_space_at mem a = \<lparr>cs_base_address = read_u64 mem a, segment_group_number = read_u16 mem (a + 8),
     start_bus_number = mem (a + 10), end_bus_number = mem (a + 11), cs_reserved = read_u32 mem (a + 12)\<rparr>"

function mcfg_loop :: "memory \<Rightarrow> usize \<Rightarrow> usize \<Rightarrow> config_space list \<Rightarrow> config_space list res" where
  "mcfg_loop mem tail offset configurations =
     (if offset < tail then
        let configurations = configurations @ [config_space_at mem offset] in
        case checked_add offset 16 of Inl e \<Rightarrow> Inl e | Inr offset \<Rightarrow> mcfg_loop mem tail offset configurations
      else Inr configurations)"
  by pat_completeness auto
termination
  by (relation "measure (\<lambda>(mem, tail, offset, cs). unat tail - unat offset)")
    (auto simp: checked_add_eq_Inr word_less_nat_alt unat_add_usize)

definition parse_mcfg_table :: "memory \<Rightarrow> usize \<Rightarrow> u32 \<Rightarrow> config_space list res" where
  "parse_mcfg_table mem addr len =
     rbind (checked_add addr 44) (\<lambda>offset.
     rbind (checked_add addr (ucast len)) (\<lambda>tail.
     mcfg_loop mem tail offset []))"

definition parse_mcfg :: "memory \<Rightarrow> usize \<Rightarrow> (config_space list, string) rust_result res" where
  "parse_mcfg mem rsdp =
     rbind (parse_xsdt mem rsdp) (\<lambda>(entries, len).
     rbind (find_table mem entries MCFG_SIG [0..<unat len]) (\<lambda>t.
     case t of
       Some (addr, n) \<Rightarrow> rbind (parse_mcfg_table mem addr n) (\<lambda>cs. Inr (Ok cs))
     | None \<Rightarrow> Inr (Err ''could not find MCFG'')))"

section \<open>Lemmas\<close>

fun le_bytes :: "nat \<Rightarrow> 'a :: len word \<Rightarrow> u8 list" where
  "le_bytes 0 w = []"
| "le_bytes (Suc n) w = ucast w # le_bytes n (drop_bit 8 w)"

lemma length_le_bytes [simp]: "length (le_bytes n w) = n"
  by (induction n arbitrary: w) simp_all














lemma unat_usize_u32: "unat (ucast (a :: u32) :: usize) = unat a"
  using unat_less_exp[of a] by (simp add: unsigned_ucast_eq take_bit_eq_mod)

lemma mmio_address: "checked_add (ucast (a :: u32)) MMIO_BASE = Inr (ucast a + MMIO_BASE)"
  using unat_less_exp[of a] unat_usize_u32[of a] by (simp add: checked_add_eq_Inr MMIO_BASE_def)













section \<open>Properties\<close>





text \<open>Property: A malformed table of the interrupt controllers stops the boot: when the length byte of an entry is 0, the
  loop stays at that entry for ever.\<close>

theorem madt_zero_length_diverges:
  assumes "h < tail" and "mem (h + 1) = 0" and "mem h \<noteq> 5"
  shows "madt_loop fuel mem h tail info = Inl Diverges"
proof (induction fuel arbitrary: info)
  case (Suc fuel)
  have "unat h + 1 < 2 ^ 64" using assms(1) unat_less_exp[of tail] by (simp add: word_less_nat_alt)
  then have "checked_add h 1 = Inr (h + 1)" "checked_add h 0 = Inr h" using unat_less_exp[of h] by (simp_all add: checked_add_eq_Inr)
  then show ?case using assms Suc by (simp add: madt_entry_def mmio_address Let_def)
qed simp

theorem madt_zero_length_diverges_witness:
  "\<forall>fuel info. madt_loop fuel (\<lambda>_. 0) 44 60 info = Inl Diverges"
  by (intro allI, rule madt_zero_length_diverges) simp_all

end
