(* ===== verification/Nic_Driver.thy ===== *)
theory Nic_Driver
  imports Nic_Receive Acpi
begin

text \<open>
  The set-up of the network driver (\<open>src/drivers/net/rtl8139.rs\<close>, \<open>init\<close>): it takes the cards from the PCI bus,
  routes their interrupts and gives each card its network stack. The memory of the buffers, with whatever is
  in it, and the addresses of the two functions it hands on are arguments.
\<close>

section \<open>Model\<close>

definition RTL8139_VENDOR_ID :: u16 where "RTL8139_VENDOR_ID = 0x10ec"
definition RTL8139_DEVICE_ID :: u16 where "RTL8139_DEVICE_ID = 0x8139"

record nic_boxes =
  rx_box :: "usize \<times> u8 list"
  tx_boxes :: "(usize \<times> u8 list) list"
  net_boxes :: "u8 list list"

definition route_interrupt ::
  "'w mmio \<Rightarrow> local_apic \<Rightarrow> ioapic \<Rightarrow> usize \<Rightarrow> interrupt_mapping list \<Rightarrow> rtl8139 \<Rightarrow> usize list \<times> 'w \<Rightarrow> (usize list \<times> 'w) res" where
  "route_interrupt mm lapic io handler maps nic s =
     (let (table, w) = s in
      case find (\<lambda>x. irq_number x = interrupt_line (nic_pci nic)) maps of
        Some mapping \<Rightarrow>
          rbind (register_handler (nic_vector nic) handler table) (\<lambda>table.
          rbind (lapic_get_id mm lapic w) (\<lambda>(_, w).
          rbind (remap mm io 0 (ucast (global_system_interrupt mapping)) (ucast (nic_vector nic)) w) (\<lambda>w.
          Inr (table, w))))
      | None \<Rightarrow> Inr (table, w))"

definition attach_nic ::
  "nat \<Rightarrow> 'w ports \<Rightarrow> 'w mmio \<Rightarrow> mapper option \<Rightarrow> local_apic \<Rightarrow> ioapic \<Rightarrow> usize \<Rightarrow> interrupt_mapping list \<Rightarrow> (bdf \<Rightarrow> nic_boxes) \<Rightarrow>
    pci_device \<Rightarrow> nics \<times> stacks \<times> usize list \<times> 'w \<Rightarrow> (nics \<times> stacks \<times> usize list \<times> 'w) res" where
  "attach_nic fuel ps mm mp lapic io handler maps boxes pci_dev s =
     (let (nics, stack, table, w) = s; b = boxes (dev_bdf pci_dev) in
      rbind (nic_init fuel ps mp pci_dev (rx_box b) (tx_boxes b) w) (\<lambda>(nic, w).
      rbind (route_interrupt mm lapic io handler maps nic (table, w)) (\<lambda>(table, w).
      let bdf = dev_bdf (nic_pci nic) in
      rbind (interface_new bdf (net_boxes b)) (\<lambda>net.
      Inr (btm_insert bdf nic nics, btm_insert bdf net stack, table, w)))))"

text \<open>The loop of \<open>init\<close> over the cards, and \<open>init\<close>; it also returns the devices left on the bus.\<close>

definition attach_nics ::
  "nat \<Rightarrow> 'w ports \<Rightarrow> 'w mmio \<Rightarrow> mapper option \<Rightarrow> local_apic \<Rightarrow> ioapic \<Rightarrow> usize \<Rightarrow> interrupt_mapping list \<Rightarrow> (bdf \<Rightarrow> nic_boxes) \<Rightarrow>
    pci_device list \<Rightarrow> nics \<times> stacks \<times> usize list \<times> 'w \<Rightarrow> (nics \<times> stacks \<times> usize list \<times> 'w) res" where
  "attach_nics fuel ps mm mp lapic io handler maps boxes devices s =
     rfold (attach_nic fuel ps mm mp lapic io handler maps boxes) devices s"

definition rtl8139_init ::
  "nat \<Rightarrow> 'w ports \<Rightarrow> 'w mmio \<Rightarrow> mapper option \<Rightarrow> local_apic \<Rightarrow> ioapic \<Rightarrow> usize \<Rightarrow> interrupt_mapping list \<Rightarrow> (bdf \<Rightarrow> nic_boxes) \<Rightarrow>
    'l spin_ops \<Rightarrow> code_addrs \<Rightarrow> usize \<Rightarrow> pci_device list \<Rightarrow> nics \<times> stacks \<times> usize list \<times> 'l kernel \<times> 'w \<Rightarrow>
    (nat \<times> pci_device list \<times> nics \<times> stacks \<times> usize list \<times> 'l kernel \<times> 'w) res" where
  "rtl8139_init fuel ps mm mp lapic io handler maps boxes sp ca bottom_half bus s =
     (let (nics, stack, table, k, w) = s;
          (devices, bus) = get_device RTL8139_VENDOR_ID RTL8139_DEVICE_ID bus in
      rbind (attach_nics fuel ps mm mp lapic io handler maps boxes devices (nics, stack, table, w)) (\<lambda>(nics, stack, table, w).
      rbind (sched_lock sp k) (\<lambda>k.
      rbind (new_task ca bottom_half k) (\<lambda>(_, k).
      Inr (length nics, bus, nics, stack, table, sched_guard_drop sp k, w)))))"

section \<open>Lemmas\<close>










section \<open>Properties\<close>


section \<open>Witnesses\<close>













end
