(* ===== verification/Hpet.thy ===== *)
theory Hpet
  imports Apic Clock Acpi
begin

text \<open>
  The timers: the HPET (\<open>src/arch/x86_64/hpet.rs\<close>), which drives the clock, and the PIT
  (\<open>src/arch/x86_64/pit.rs\<close>). The registers are memory of the hardware, a parameter. What a tick calls is a
  function pointer of the static; \<open>call\<close> is what calling it does.
\<close>

section \<open>Model\<close>

record 'w mmio64 = "'w mmio" +
  mmio_write64 :: "usize \<Rightarrow> u64 \<Rightarrow> 'w \<Rightarrow> 'w"
  mmio_read64 :: "usize \<Rightarrow> 'w \<Rightarrow> u64 \<times> 'w"

definition REG_GENERAL_CAPABILITY :: usize where "REG_GENERAL_CAPABILITY = 0x0"
definition REG_GENERAL_CONFIGURATION :: usize where "REG_GENERAL_CONFIGURATION = 0x10"
definition REG_MAIN_COUNTER :: usize where "REG_MAIN_COUNTER = 0xf0"
definition REG_TIMER_N_CONFIG_CAPABILITY :: usize where "REG_TIMER_N_CONFIG_CAPABILITY = 0x100"

record 't hpet =
  hpet_base_address :: usize
  comparator_count :: u8
  counter_size :: u8
  legacy_replacement_irq_routing_capable :: bool
  counter_clock_period :: u32
  last_tick_count_timer_0 :: u64
  hpet_tick_fn :: "'t option"

definition hpet_inw :: "'w mmio64 \<Rightarrow> 't hpet \<Rightarrow> usize \<Rightarrow> 'w \<Rightarrow> (u32 \<times> 'w) res" where
  "hpet_inw mm h offset w = rbind (checked_add (hpet_base_address h) offset) (\<lambda>a. Inr (mmio_read32 mm a w))"

definition hpet_ing :: "'w mmio64 \<Rightarrow> 't hpet \<Rightarrow> usize \<Rightarrow> 'w \<Rightarrow> (u64 \<times> 'w) res" where
  "hpet_ing mm h offset w = rbind (checked_add (hpet_base_address h) offset) (\<lambda>a. Inr (mmio_read64 mm a w))"

definition hpet_outw :: "'w mmio64 \<Rightarrow> 't hpet \<Rightarrow> usize \<Rightarrow> u32 \<Rightarrow> 'w \<Rightarrow> 'w res" where
  "hpet_outw mm h offset v w = rbind (checked_add (hpet_base_address h) offset) (\<lambda>a. Inr (mmio_write32 mm a v w))"

definition hpet_outg :: "'w mmio64 \<Rightarrow> 't hpet \<Rightarrow> usize \<Rightarrow> u64 \<Rightarrow> 'w \<Rightarrow> 'w res" where
  "hpet_outg mm h offset v w = rbind (checked_add (hpet_base_address h) offset) (\<lambda>a. Inr (mmio_write64 mm a v w))"

definition from_acpi :: "'w mmio64 \<Rightarrow> acpi_hpet \<Rightarrow> 'w \<Rightarrow> ('t hpet \<times> 'w) res" where
  "from_acpi mm ah w =
     (let h = \<lparr>hpet_base_address = ah_base_address ah, comparator_count = ah_comparator_count ah,
            counter_size = ah_counter_size ah, legacy_replacement_irq_routing_capable = ah_legacy ah,
            counter_clock_period = 0, last_tick_count_timer_0 = 0, hpet_tick_fn = None\<rparr> in
      rbind (hpet_inw mm h REG_GENERAL_CAPABILITY w) (\<lambda>(capabilities, w).
      rbind (rassert (comparator_count h = ucast (drop_bit 8 capabilities AND 0x1f))) (\<lambda>_.
      rbind (rassert (counter_size h = ucast (drop_bit 13 capabilities AND 0x1))) (\<lambda>_.
      rbind (rassert (legacy_replacement_irq_routing_capable h = (drop_bit 15 capabilities AND 0x1 \<noteq> 0))) (\<lambda>_.
      rbind (hpet_inw mm h (REG_GENERAL_CAPABILITY + 4) w) (\<lambda>(period_femto_seconds, w).
      Inr (h\<lparr>counter_clock_period := period_femto_seconds div 1000000\<rparr>, w)))))))"

definition hpet_enable :: "'w mmio64 \<Rightarrow> 't hpet \<Rightarrow> 'w \<Rightarrow> 'w res" where
  "hpet_enable mm h w =
     rbind (hpet_inw mm h REG_GENERAL_CONFIGURATION w) (\<lambda>(gen_cnf, w).
     hpet_outw mm h REG_GENERAL_CONFIGURATION (gen_cnf OR 0x1) w)"

definition read_main_counter :: "'w mmio64 \<Rightarrow> 't hpet \<Rightarrow> 'w \<Rightarrow> (u64 \<times> 'w) res" where
  "read_main_counter mm h w = hpet_ing mm h REG_MAIN_COUNTER w"

definition reset_main_counter :: "'w mmio64 \<Rightarrow> 't hpet \<Rightarrow> 'w \<Rightarrow> 'w res" where
  "reset_main_counter mm h w = hpet_outg mm h REG_MAIN_COUNTER 0 w"

text \<open>The offset of a register of a timer.\<close>

definition timer_reg :: "usize \<Rightarrow> usize res" where
  "timer_reg timer = rbind (checked_mul timer 0x20) (\<lambda>n. checked_add REG_TIMER_N_CONFIG_CAPABILITY n)"

definition get_timer_config :: "'w mmio64 \<Rightarrow> 't hpet \<Rightarrow> usize \<Rightarrow> 'w \<Rightarrow> (u32 \<times> 'w) res" where
  "get_timer_config mm h timer w =
     (if comparator_count h = 0 then Inr (0, w)
      else rbind (timer_reg timer) (\<lambda>offset. hpet_inw mm h offset w))"

definition set_timer_config :: "'w mmio64 \<Rightarrow> 't hpet \<Rightarrow> usize \<Rightarrow> u32 \<Rightarrow> 'w \<Rightarrow> 'w res" where
  "set_timer_config mm h timer config w =
     (if timer \<ge> ucast (comparator_count h) then Inr w
      else rbind (timer_reg timer) (\<lambda>offset. hpet_outw mm h offset config w))"

definition timer_routing_capability :: "'w mmio64 \<Rightarrow> 't hpet \<Rightarrow> usize \<Rightarrow> 'w \<Rightarrow> (u32 \<times> 'w) res" where
  "timer_routing_capability mm h timer w =
     (if timer \<ge> ucast (comparator_count h) then Inr (0, w)
      else rbind (timer_reg timer) (\<lambda>r. rbind (checked_add r 0x4) (\<lambda>offset. hpet_inw mm h offset w)))"

definition get_timer_comparator :: "'w mmio64 \<Rightarrow> 't hpet \<Rightarrow> usize \<Rightarrow> 'w \<Rightarrow> (u64 \<times> 'w) res" where
  "get_timer_comparator mm h timer w =
     rbind (timer_reg timer) (\<lambda>r. rbind (checked_add r 0x8) (\<lambda>offset. hpet_ing mm h offset w))"

definition set_timer_comparator :: "'w mmio64 \<Rightarrow> 't hpet \<Rightarrow> usize \<Rightarrow> u64 \<Rightarrow> 'w \<Rightarrow> 'w res" where
  "set_timer_comparator mm h timer count w =
     rbind (timer_reg timer) (\<lambda>r. rbind (checked_add r 0x8) (\<lambda>cap_cnf_offset.
     rbind (hpet_inw mm h cap_cnf_offset w) (\<lambda>(cap_cnf, w).
     rbind (hpet_outw mm h cap_cnf_offset (cap_cnf OR push_bit 6 0x1) w) (\<lambda>w.
     rbind (timer_reg timer) (\<lambda>r. rbind (checked_add r 0x8) (\<lambda>comparator_offset.
     hpet_outg mm h comparator_offset count w))))))"

text \<open>\<open>init\<close>, with the I/O APIC whose line it unmasks; the result is what the static holds then.\<close>

definition hpet_init :: "'w mmio64 \<Rightarrow> ioapic \<Rightarrow> acpi_hpet \<Rightarrow> 'w \<Rightarrow> ('t hpet option \<times> 'w) res" where
  "hpet_init mm io ah w =
     rbind (from_acpi mm ah w) (\<lambda>(h, w).
     rbind (timer_routing_capability mm h 0 w) (\<lambda>(timer_0_routing_cap, w).
     rbind (rassert (drop_bit 2 timer_0_routing_cap AND 0x1 \<noteq> 0)) (\<lambda>_.
     rbind (get_timer_config mm h 0 w) (\<lambda>(timer_0_config, w).
     let timer_0_config = timer_0_config OR push_bit 9 0x2 in
     rbind (rassert (drop_bit 4 timer_0_config AND 0x1 = 1)) (\<lambda>_.
     let timer_0_config = timer_0_config OR push_bit 3 0x1;
         timer_0_config = timer_0_config OR push_bit 2 0x1;
         timer_0_config = timer_0_config OR 0x0 in
     rbind (set_timer_config mm h 0 timer_0_config w) (\<lambda>w.
     rbind (rassert (counter_clock_period h \<noteq> 0)) (\<lambda>_.
     rbind (checked_div 1000000 (ucast (counter_clock_period h))) (\<lambda>count.
     rbind (set_timer_comparator mm h 0 count w) (\<lambda>w.
     rbind (hpet_enable mm h w) (\<lambda>w.
     rbind (ioapic_mask_line (mmio.truncate mm) io False 2 w) (\<lambda>w.
     Inr (Some h, w))))))))))))"

text \<open>\<open>get_time\<close>, which is also the \<open>get_tick\<close> of the clock source.\<close>

definition get_time :: "'w mmio64 \<Rightarrow> 't hpet option \<Rightarrow> 'w \<Rightarrow> (u64 \<times> 'w) res" where
  "get_time mm HPET w =
     (case HPET of
        Some h \<Rightarrow>
          rbind (read_main_counter mm h w) (\<lambda>(t, w).
          rbind (checked_mul t (ucast (counter_clock_period h))) (\<lambda>ns. Inr (ns, w)))
      | None \<Rightarrow> Inr (0, w))"

definition register_tick :: "'t \<Rightarrow> 't hpet option \<Rightarrow> 't hpet option" where
  "register_tick t HPET = map_option (\<lambda>h. h\<lparr>hpet_tick_fn := Some t\<rparr>) HPET"

definition hpet_tick ::
  "('t \<Rightarrow> u64 \<Rightarrow> 's \<Rightarrow> 's res) \<Rightarrow> 'w mmio64 \<Rightarrow> 't hpet option \<times> 's \<times> 'w \<Rightarrow> ('t hpet option \<times> 's \<times> 'w) res" where
  "hpet_tick call mm x =
     (let (HPET, s, w) = x in
      case HPET of
        None \<Rightarrow> Inr (HPET, s, w)
      | Some h \<Rightarrow>
          rbind (read_main_counter mm h w) (\<lambda>(current_count, w).
          rbind (checked_sub current_count (last_tick_count_timer_0 h)) (\<lambda>delta_ticks.
          rbind (case hpet_tick_fn h of
              Some t \<Rightarrow> rbind (checked_mul delta_ticks (ucast (counter_clock_period h))) (\<lambda>ns. call t ns s)
            | None \<Rightarrow> Inr s) (\<lambda>s.
          Inr (Some (h\<lparr>last_tick_count_timer_0 := current_count\<rparr>), s, w)))))"

text \<open>The handler of the interrupt (\<open>src/arch/x86_64/interrupt.rs\<close>).\<close>

definition hpet_handler ::
  "('t \<Rightarrow> u64 \<Rightarrow> 's \<Rightarrow> 's res) \<Rightarrow> 'w mmio64 \<Rightarrow> local_apic \<Rightarrow> 't hpet option \<times> 's \<times> 'w \<Rightarrow> ('t hpet option \<times> 's \<times> 'w) res" where
  "hpet_handler call mm lapic x =
     rbind (hpet_tick call mm x) (\<lambda>(HPET, s, w).
     rbind (lapic_write (mmio.truncate mm) lapic 0xb0 0 w) (\<lambda>w. Inr (HPET, s, w)))"

subsection \<open>The PIT\<close>

definition CHAN0_DATA :: u8 where "CHAN0_DATA = 0x40"
definition MODE_CMD :: u8 where "MODE_CMD = 0x43"
definition TICK_INTERVAL :: u64 where "TICK_INTERVAL = 1000000"

record 't pit =
  pit_tick_fn :: "'t option"

definition pit_new :: "'t pit" where
  "pit_new = \<lparr>pit_tick_fn = None\<rparr>"

definition pit_register_tick :: "'t \<Rightarrow> 't pit \<Rightarrow> 't pit" where
  "pit_register_tick t p = p\<lparr>pit_tick_fn := Some t\<rparr>"

definition start_rate :: "'w ports \<Rightarrow> 'w \<Rightarrow> 'w" where
  "start_rate ps w =
     (let count = 1193 :: u16; control = 0x34 :: u16 in
      outb ps (ucast CHAN0_DATA) (ucast (drop_bit 8 count))
        (outb ps (ucast CHAN0_DATA) (ucast count) (outb ps (ucast MODE_CMD) (ucast control) w)))"

definition pit_tick :: "('t \<Rightarrow> u64 \<Rightarrow> 's \<Rightarrow> 's res) \<Rightarrow> 't pit \<Rightarrow> 's \<Rightarrow> 's res" where
  "pit_tick call p s = (case pit_tick_fn p of Some t \<Rightarrow> call t TICK_INTERVAL s | None \<Rightarrow> Inr s)"

definition pit_handler ::
  "('t \<Rightarrow> u64 \<Rightarrow> 's \<Rightarrow> 's res) \<Rightarrow> 'w mmio \<Rightarrow> local_apic \<Rightarrow> 't pit \<Rightarrow> 's \<times> 'w \<Rightarrow> ('s \<times> 'w) res" where
  "pit_handler call mm lapic p x =
     (let (s, w) = x in
      rbind (pit_tick call p s) (\<lambda>s.
      rbind (lapic_write mm lapic 0xb0 0 w) (\<lambda>w. Inr (s, w))))"

section \<open>The clock on the timer\<close>

text \<open>What \<open>clock::tick_fn\<close> does when it is called, and the interrupts of the timer, the hardware being in the given
  states when they arrive.\<close>

definition clock_call :: "('f \<Rightarrow> u64 \<Rightarrow> 's \<Rightarrow> 's res) \<Rightarrow> 't \<Rightarrow> u64 \<Rightarrow> 'f clock option \<times> 's \<Rightarrow> ('f clock option \<times> 's) res" where
  "clock_call run t x cs = tick_fn run x (fst cs) (snd cs)"

definition timer_interrupts ::
  "('f \<Rightarrow> u64 \<Rightarrow> 's \<Rightarrow> 's res) \<Rightarrow> 'w mmio64 \<Rightarrow> 'w list \<Rightarrow> 't hpet option \<times> 'f clock option \<times> 's \<Rightarrow> ('t hpet option \<times> 'f clock option \<times> 's) res" where
  "timer_interrupts run mm ws x =
     rfold (\<lambda>w (HPET, s). rbind (hpet_tick (clock_call run) mm (HPET, s, w)) (\<lambda>(HPET, s, w). Inr (HPET, s))) ws x"

text \<open>The documented behaviour of the main counter: reading it returns the count \<open>cnt\<close> of the hardware.\<close>

definition main_counter_hw :: "'w mmio64 \<Rightarrow> 't hpet \<Rightarrow> ('w \<Rightarrow> u64) \<Rightarrow> bool" where
  "main_counter_hw mm h cnt \<longleftrightarrow> unat (hpet_base_address h) + 0xf0 < 2 ^ 64 \<and>
     (\<forall>w. fst (mmio_read64 mm (hpet_base_address h + REG_MAIN_COUNTER) w) = cnt w)"

text \<open>The time in nanoseconds of a count.\<close>

definition count_ns :: "'t hpet \<Rightarrow> u64 \<Rightarrow> u64" where
  "count_ns h n = n * ucast (counter_clock_period h)"

definition count_fits :: "'t hpet \<Rightarrow> u64 \<Rightarrow> bool" where
  "count_fits h n \<longleftrightarrow> unat n * unat (counter_clock_period h) < 2 ^ 64"

lemma read_main_counter_hw: "main_counter_hw mm h cnt \<Longrightarrow> \<exists>w'. read_main_counter mm h w = Inr (cnt w, w')"
  by (auto simp: main_counter_hw_def read_main_counter_def hpet_ing_def checked_add_eq_Inr REG_MAIN_COUNTER_def prod_eq_iff
      intro!: exI[of _ "hpet_base_address h + 0xf0"])

lemma unat_period: "unat (ucast (p :: u32) :: u64) = unat p"
  using unat_less_exp[of p] by (simp add: unsigned_ucast_eq take_bit_eq_mod)

lemma count_fits_mul:
  assumes "count_fits h n" and "m \<le> n"
  shows "checked_mul m (ucast (counter_clock_period h)) = Inr (count_ns h m)"
proof -
  have "unat m * unat (counter_clock_period h) \<le> unat n * unat (counter_clock_period h)"
    using assms(2) by (intro mult_le_mono1) (simp add: word_le_nat_alt)
  then have "unat m * unat (counter_clock_period h) < 2 ^ 64" using assms(1) unfolding count_fits_def by (rule le_less_trans)
  then show ?thesis by (simp add: checked_mul_eq_Inr count_ns_def unat_period)
qed

lemma run_callbacks_total:
  assumes "\<And>f now s. \<exists>s'. run f now s = Inr s'"
  shows "\<exists>c' s'. run_callbacks run now ks c s = Inr (c', s') \<and> ticks c' = ticks c"
proof (induction ks arbitrary: c s)
  case (Cons k ks)
  show ?case
  proof (cases "map_of (callbacks c) k")
    case (Some f)
    obtain s1 where "run f now s = Inr s1" using assms by blast
    then show ?thesis using Some Cons[of "c\<lparr>callbacks := btm_remove k (callbacks c)\<rparr>" s1] by simp
  qed (use Cons in simp)
qed simp

lemma tick_total:
  assumes "\<And>f now s. \<exists>s'. run f now s = Inr s'"
  shows "\<exists>c' s'. tick run x c s = Inr (c', s') \<and> ticks c' = ticks c + x"
proof -
  obtain c' s' where "run_callbacks run (ticks c + x) (filter (\<lambda>k. k \<le> ticks c + x) (map fst (callbacks c))) (c\<lparr>ticks := ticks c + x\<rparr>) s = Inr (c', s')"
    "ticks c' = ticks (c\<lparr>ticks := ticks c + x\<rparr>)"
    using run_callbacks_total[of run, OF assms] by blast
  then show ?thesis by (simp add: tick_def)
qed

lemma hpet_tick_clock:
  assumes hw: "main_counter_hw mm h cnt" and t: "hpet_tick_fn h = Some t" and le: "last_tick_count_timer_0 h \<le> cnt w"
    and fits: "count_fits h (cnt w)" and run: "\<And>f now s. \<exists>s'. run f now s = Inr s'"
  shows "\<exists>c' s' w'. hpet_tick (clock_call run) mm (Some h, (Some c, s), w) =
      Inr (Some (h\<lparr>last_tick_count_timer_0 := cnt w\<rparr>), (Some c', s'), w') \<and>
    ticks c' = ticks c + (count_ns h (cnt w) - count_ns h (last_tick_count_timer_0 h))"
proof -
  let ?d = "cnt w - last_tick_count_timer_0 h"
  obtain w' where r: "read_main_counter mm h w = Inr (cnt w, w')" using read_main_counter_hw[OF hw] by blast
  have d: "checked_sub (cnt w) (last_tick_count_timer_0 h) = Inr ?d" using le by (simp add: checked_sub_eq_Inr)
  have "?d \<le> cnt w" using le by (simp add: word_le_nat_alt unat_sub)
  then have m: "checked_mul ?d (ucast (counter_clock_period h)) = Inr (count_ns h ?d)" by (rule count_fits_mul[OF fits])
  obtain c' s' where c: "tick run (count_ns h ?d) c s = Inr (c', s')" "ticks c' = ticks c + count_ns h ?d" using tick_total[of run, OF run] by blast
  have "count_ns h ?d = count_ns h (cnt w) - count_ns h (last_tick_count_timer_0 h)" by (simp add: count_ns_def left_diff_distrib)
  then show ?thesis using r d m c t by (simp add: hpet_tick_def clock_call_def tick_fn_def)
qed

lemma timer_interrupts_clock:
  assumes run: "\<And>f now s. \<exists>s'. run f now s = Inr s'"
  shows "main_counter_hw mm h cnt \<Longrightarrow> hpet_tick_fn h = Some t \<Longrightarrow> sorted (last_tick_count_timer_0 h # map cnt ws) \<Longrightarrow>
    \<forall>w \<in> set ws. count_fits h (cnt w) \<Longrightarrow> ticks c = count_ns h (last_tick_count_timer_0 h) \<Longrightarrow>
    \<exists>c' s'. timer_interrupts run mm ws (Some h, Some c, s) =
      Inr (Some (h\<lparr>last_tick_count_timer_0 := last (last_tick_count_timer_0 h # map cnt ws)\<rparr>), Some c', s') \<and>
    ticks c' = count_ns h (last (last_tick_count_timer_0 h # map cnt ws))"
proof (induction ws arbitrary: h c s)
  case Nil
  then show ?case by (simp add: timer_interrupts_def)
next
  case (Cons w ws)
  let ?h = "h\<lparr>last_tick_count_timer_0 := cnt w\<rparr>"
  have le: "last_tick_count_timer_0 h \<le> cnt w" and fits: "count_fits h (cnt w)" using Cons.prems(3,4) by simp_all
  obtain c1 s1 w1 where t: "hpet_tick (clock_call run) mm (Some h, (Some c, s), w) = Inr (Some ?h, (Some c1, s1), w1)"
    "ticks c1 = ticks c + (count_ns h (cnt w) - count_ns h (last_tick_count_timer_0 h))"
    using hpet_tick_clock[of mm h cnt t w run c s, OF Cons.prems(1,2) le fits run] by blast
  have "\<exists>c' s'. timer_interrupts run mm ws (Some ?h, Some c1, s1) =
      Inr (Some (?h\<lparr>last_tick_count_timer_0 := last (last_tick_count_timer_0 ?h # map cnt ws)\<rparr>), Some c', s') \<and>
    ticks c' = count_ns ?h (last (last_tick_count_timer_0 ?h # map cnt ws))"
    using Cons.prems t(2) by (intro Cons.IH) (auto simp: main_counter_hw_def count_fits_def count_ns_def)
  then show ?case using t(1) by (auto simp: timer_interrupts_def count_ns_def)
qed

section \<open>Properties\<close>

text \<open>C34: The clock keeps time: when the counter of the timer does not run backwards and its time fits into 64 bits, any
  number of timer interrupts return, and if the clock showed the time of the last interrupt before them, it
  shows the time of the last interrupt after them, whatever the callbacks do.\<close>

theorem clock_keeps_time:
  assumes "main_counter_hw mm h cnt" and "hpet_tick_fn h = Some t" and "sorted (last_tick_count_timer_0 h # map cnt ws)"
    and "\<forall>w \<in> set ws. count_fits h (cnt w)" and "ticks c = count_ns h (last_tick_count_timer_0 h)"
    and "\<And>f now s. \<exists>s'. run f now s = Inr s'"
  shows "\<exists>h' c' s'. timer_interrupts run mm ws (Some h, Some c, s) = Inr (Some h', Some c', s') \<and>
    last_tick_count_timer_0 h' = last (last_tick_count_timer_0 h # map cnt ws) \<and> ticks c' = count_ns h (last_tick_count_timer_0 h')"
  using timer_interrupts_clock[of run mm h cnt t ws c s, OF assms(6,1-5)] by auto

definition sample_hpet_mmio :: "u64 mmio64" where
  "sample_hpet_mmio = \<lparr>mmio_write32 = (\<lambda>_ _ w. w), mmio_read32 = (\<lambda>_ w. (0, w)), mmio_write64 = (\<lambda>_ _ w. w), mmio_read64 = (\<lambda>_ w. (w, w))\<rparr>"

definition sample_hpet :: "unit hpet" where
  "sample_hpet = \<lparr>hpet_base_address = 0xffffff00fed00000, comparator_count = 2, counter_size = 1, legacy_replacement_irq_routing_capable = True,
     counter_clock_period = 10, last_tick_count_timer_0 = 100000, hpet_tick_fn = Some ()\<rparr>"

lemma sample_counter: "main_counter_hw sample_hpet_mmio sample_hpet (\<lambda>w. w)"
  by (simp add: main_counter_hw_def sample_hpet_mmio_def sample_hpet_def)

theorem clock_keeps_time_witness:
  "\<exists>h' c' s'. timer_interrupts (\<lambda>(f :: u8) now s. Inr (s + 1 :: nat)) sample_hpet_mmio [200000, 300000]
      (Some sample_hpet, Some \<lparr>ticks = 1000000, callbacks = [(2500000, 7)]\<rparr>, 0) = Inr (Some h', Some c', s') \<and> ticks c' = 3000000"
proof -
  have "ticks \<lparr>ticks = 1000000, callbacks = [(2500000, 7)]\<rparr> = count_ns sample_hpet (last_tick_count_timer_0 sample_hpet)"
    "sorted (last_tick_count_timer_0 sample_hpet # map (\<lambda>w. w) [200000, 300000])" "\<forall>w \<in> set [200000, 300000]. count_fits sample_hpet w"
    "hpet_tick_fn sample_hpet = Some ()" by (simp_all add: count_ns_def sample_hpet_def count_fits_def)
  note s = this
  obtain h' c' s' where "timer_interrupts (\<lambda>(f :: u8) now s. Inr (s + 1 :: nat)) sample_hpet_mmio [200000, 300000]
      (Some sample_hpet, Some \<lparr>ticks = 1000000, callbacks = [(2500000, 7)]\<rparr>, 0) = Inr (Some h', Some c', s')"
    "last_tick_count_timer_0 h' = last (last_tick_count_timer_0 sample_hpet # map (\<lambda>w. w) [200000, 300000])"
    "ticks c' = count_ns sample_hpet (last_tick_count_timer_0 h')"
    using clock_keeps_time[OF sample_counter s(4,2,3,1), of "\<lambda>(f :: u8) now s. Inr (s + 1 :: nat)" 0] by auto
  then show ?thesis by (auto simp: count_ns_def sample_hpet_def)
qed

text \<open>C40: Reading the clock makes it run ahead: \<open>get_tick\<close> sets the clock to the time of the counter, and the next timer
  interrupt adds the time since the previous interrupt, so that the clock then is ahead of the time of the
  counter by what had passed between that interrupt and the reading, and callbacks are run early.\<close>

theorem clock_runs_ahead:
  assumes "main_counter_hw mm h cnt" and "hpet_tick_fn h = Some t" and "last_tick_count_timer_0 h \<le> cnt w1" and "cnt w1 \<le> cnt w2"
    and "count_fits h (cnt w2)" and "\<And>f now s. \<exists>s'. run f now s = Inr s'"
  shows "\<exists>now w1' c' s' w2'. get_time mm (Some h) w1 = Inr (now, w1') \<and>
    hpet_tick (clock_call run) mm (Some h, (Some (snd (get_tick now c)), s), w2) =
      Inr (Some (h\<lparr>last_tick_count_timer_0 := cnt w2\<rparr>), (Some c', s'), w2') \<and>
    ticks c' = count_ns h (cnt w2) + count_ns h (cnt w1 - last_tick_count_timer_0 h)"
proof -
  obtain w1' where r: "read_main_counter mm h w1 = Inr (cnt w1, w1')" using read_main_counter_hw[OF assms(1)] by blast
  have t: "get_time mm (Some h) w1 = Inr (count_ns h (cnt w1), w1')" using r count_fits_mul[OF assms(5,4)] by (simp add: get_time_def)
  have le: "last_tick_count_timer_0 h \<le> cnt w2" using assms(3,4) by (rule order_trans)
  obtain c' s' w2' where k: "hpet_tick (clock_call run) mm (Some h, (Some (snd (get_tick (count_ns h (cnt w1)) c)), s), w2) =
      Inr (Some (h\<lparr>last_tick_count_timer_0 := cnt w2\<rparr>), (Some c', s'), w2')"
    "ticks c' = ticks (snd (get_tick (count_ns h (cnt w1)) c)) + (count_ns h (cnt w2) - count_ns h (last_tick_count_timer_0 h))"
    using hpet_tick_clock[of mm h cnt t w2 run, OF assms(1,2) le assms(5,6)] by blast
  then show ?thesis using t by (auto simp: get_tick_def count_ns_def algebra_simps)
qed

theorem clock_runs_ahead_witness:
  "\<exists>now w1' c' s' w2'. get_time sample_hpet_mmio (Some sample_hpet) 190000 = Inr (now, w1') \<and>
    hpet_tick (clock_call (\<lambda>(f :: u8) now s. Inr (s @ [f]))) sample_hpet_mmio
      (Some sample_hpet, (Some (snd (get_tick now \<lparr>ticks = 1000000, callbacks = [(2800000, 7)]\<rparr>)), []), 200000) =
      Inr (Some (sample_hpet\<lparr>last_tick_count_timer_0 := 200000\<rparr>), (Some c', s'), w2') \<and> ticks c' = 2900000"
proof -
  have s: "hpet_tick_fn sample_hpet = Some ()" "last_tick_count_timer_0 sample_hpet \<le> 190000" "(190000 :: u64) \<le> 200000"
    "count_fits sample_hpet 200000" by (simp_all add: sample_hpet_def count_fits_def)
  have "count_ns sample_hpet 200000 + count_ns sample_hpet (190000 - last_tick_count_timer_0 sample_hpet) = 2900000"
    by (simp add: count_ns_def sample_hpet_def)
  then show ?thesis
    using clock_runs_ahead[OF sample_counter s, of "\<lambda>(f :: u8) now s. Inr (s @ [f])" "\<lparr>ticks = 1000000, callbacks = [(2800000, 7)]\<rparr>" "[]"] by auto
qed

end
