(* ===== verification/Serial.thy ===== *)
theory Serial
  imports Port_IO Apic
begin

text \<open>
  The serial console (\<open>src/drivers/serial.rs\<close>) on an UART behind eight ports. Writing polls the line status and
  waits while the transmitter is busy; the interrupt handler echoes what has arrived.
\<close>

section \<open>Model\<close>

definition COM1_PORT :: u16 where "COM1_PORT = 0x3f8"

record com =
  com_port :: "u16 option"

definition com_inb :: "'w ports \<Rightarrow> com \<Rightarrow> u16 \<Rightarrow> 'w \<Rightarrow> (u8 \<times> 'w) res" where
  "com_inb ps c offset w =
     (case com_port c of
        Some port \<Rightarrow> rbind (checked_add port offset) (\<lambda>p. Inr (inb ps p w))
      | None \<Rightarrow> Inr (0, w))"

definition com_outb :: "'w ports \<Rightarrow> com \<Rightarrow> u16 \<Rightarrow> u8 \<Rightarrow> 'w \<Rightarrow> 'w res" where
  "com_outb ps c offset data w =
     (case com_port c of
        Some port \<Rightarrow> rbind (checked_add port offset) (\<lambda>p. Inr (outb ps p data w))
      | None \<Rightarrow> Inr w)"

definition com_new :: "'w ports \<Rightarrow> u16 \<Rightarrow> u16 \<Rightarrow> 'w \<Rightarrow> (com \<times> 'w) res" where
  "com_new ps port divisor w =
     (let c = \<lparr>com_port = Some port\<rparr> in
      rbind (com_outb ps c 1 0 w) (\<lambda>w.
      rbind (com_outb ps c 3 0x80 w) (\<lambda>w.
      rbind (com_outb ps c 0 (ucast divisor) w) (\<lambda>w.
      rbind (com_outb ps c 1 (ucast (drop_bit 8 divisor)) w) (\<lambda>w.
      rbind (com_outb ps c 3 0x03 w) (\<lambda>w.
      rbind (com_outb ps c 2 0xc7 w) (\<lambda>w.
      rbind (com_outb ps c 1 0x07 w) (\<lambda>w.
      rbind (com_outb ps c 4 0x0b w) (\<lambda>w.
      Inr (c, w))))))))))"

definition line_status :: "'w ports \<Rightarrow> com \<Rightarrow> 'w \<Rightarrow> (u8 \<times> 'w) res" where
  "line_status ps c w = com_inb ps c 5 w"

definition write_byte :: "'w ports \<Rightarrow> com \<Rightarrow> u8 \<Rightarrow> 'w \<Rightarrow> 'w res" where
  "write_byte ps c b w =
     (if b = 0x0a then rbind (com_outb ps c 0 0x0d w) (\<lambda>w. com_outb ps c 0 0x0a w)
      else com_outb ps c 0 b w)"

definition read_byte :: "'w ports \<Rightarrow> com \<Rightarrow> 'w \<Rightarrow> (u8 \<times> 'w) res" where
  "read_byte ps c w = com_inb ps c 0 w"

text \<open>\<open>read\<close>: the loop over the \<open>n\<close> places of the buffer gives the bytes put there.\<close>

fun read_loop :: "'w ports \<Rightarrow> com \<Rightarrow> nat \<Rightarrow> 'w \<Rightarrow> (u8 list \<times> 'w) res" where
  "read_loop ps c 0 w = Inr ([], w)"
| "read_loop ps c (Suc n) w =
     rbind (line_status ps c w) (\<lambda>(s, w).
     if s AND 0x1 \<noteq> 1 then Inr ([], w)
     else
       rbind (read_byte ps c w) (\<lambda>(b, w).
       rbind (read_loop ps c n w) (\<lambda>(bs, w).
       Inr (b # bs, w))))"

definition com_read :: "'w ports \<Rightarrow> com \<Rightarrow> u8 list \<Rightarrow> 'w \<Rightarrow> ((nat, unit) rust_result \<times> u8 list \<times> 'w) res" where
  "com_read ps c buf w =
     rbind (read_loop ps c (length buf) w) (\<lambda>(bs, w).
     Inr (Ok (length bs), bs @ drop (length bs) buf, w))"

text \<open>\<open>write\<close>: the loop gives how many bytes have been written.\<close>

fun write_loop :: "'w ports \<Rightarrow> com \<Rightarrow> u8 list \<Rightarrow> 'w \<Rightarrow> (nat \<times> 'w) res" where
  "write_loop ps c [] w = Inr (0, w)"
| "write_loop ps c (b # bs) w =
     rbind (line_status ps c w) (\<lambda>(s, w).
     if s AND 0x20 \<noteq> 0x20 then Inr (0, w)
     else
       rbind (write_byte ps c b w) (\<lambda>w.
       rbind (write_loop ps c bs w) (\<lambda>(n, w).
       Inr (Suc n, w))))"

definition com_write :: "'w ports \<Rightarrow> com \<Rightarrow> u8 list \<Rightarrow> 'w \<Rightarrow> ((nat, unit) rust_result \<times> 'w) res" where
  "com_write ps c buf w = rbind (write_loop ps c buf w) (\<lambda>(len, w). Inr (Ok len, w))"

text \<open>\<open>write_all\<close>, with a bound on the rounds of its loop.\<close>

fun write_all :: "nat \<Rightarrow> 'w ports \<Rightarrow> com \<Rightarrow> u8 list \<Rightarrow> 'w \<Rightarrow> ((unit, unit) rust_result \<times> 'w) res" where
  "write_all 0 ps c buf w = Inl Diverges"
| "write_all (Suc fuel) ps c buf w =
     (if length buf > 0 then
        rbind (com_write ps c buf w) (\<lambda>(r, w).
        case r of
          Ok written \<Rightarrow> rbind (split_at buf written) (\<lambda>(_, t). write_all fuel ps c t w)
        | Err _ \<Rightarrow> Inr (Err (), w))
      else Inr (Ok (), w))"

text \<open>\<open>write_str\<close> of the console, which its handle calls: \<open>Err\<close> before \<open>init\<close>.\<close>

definition write_str :: "nat \<Rightarrow> 'w ports \<Rightarrow> com \<Rightarrow> u8 list \<Rightarrow> 'w \<Rightarrow> ((unit, unit) rust_result \<times> 'w) res" where
  "write_str fuel ps c s w =
     (case com_port c of
        Some port \<Rightarrow>
          rbind (write_all fuel ps c s w) (\<lambda>(r, w).
          Inr (case r of Ok _ \<Rightarrow> Ok () | Err _ \<Rightarrow> Err (), w))
      | None \<Rightarrow> Inr (Err (), w))"

definition serial_init :: "'w ports \<Rightarrow> 'w \<Rightarrow> (com \<times> 'w) res" where
  "serial_init ps w =
     rbind (com_new ps COM1_PORT 0x2 w) (\<lambda>(c, w).
     rbind (com_write ps c [0x1b, 0x5b, 0x32, 0x30, 0x68] w) (\<lambda>(_, w).
     Inr (c, w)))"

definition tmp_write_com1 :: "nat \<Rightarrow> 'w ports \<Rightarrow> com \<Rightarrow> u8 list \<Rightarrow> 'w \<Rightarrow> 'w res" where
  "tmp_write_com1 fuel ps com1 buf w =
     (case com_port com1 of
        Some _ \<Rightarrow> rbind (write_all fuel ps com1 buf w) (\<lambda>(_, w). Inr w)
      | None \<Rightarrow> Inr w)"

definition read_com1 :: "nat \<Rightarrow> 'w ports \<Rightarrow> com \<Rightarrow> 'w \<Rightarrow> 'w res" where
  "read_com1 fuel ps com1 w =
     (case com_port com1 of
        Some _ \<Rightarrow>
          rbind (com_read ps com1 (replicate 16 0) w) (\<lambda>(r, buf, w).
          case r of
            Ok len \<Rightarrow>
              rbind (slice buf 0 len) (\<lambda>buf.
              rbind (write_all fuel ps com1 buf w) (\<lambda>(_, w). Inr w))
          | Err _ \<Rightarrow> Inr w)
      | None \<Rightarrow> Inr w)"

text \<open>The handler of the interrupt (\<open>src/arch/x86_64/interrupt.rs\<close>).\<close>

definition com0_handler :: "nat \<Rightarrow> 'w ports \<Rightarrow> 'w mmio \<Rightarrow> local_apic \<Rightarrow> com \<Rightarrow> 'w \<Rightarrow> 'w res" where
  "com0_handler fuel ps mm lapic com1 w =
     rbind (read_com1 fuel ps com1 w) (\<lambda>w. lapic_write mm lapic 0xb0 0 w)"

section \<open>The UART\<close>

text \<open>
  The documented behaviour of a 16550: \<open>rx\<close> the bytes that have arrived and are not read, \<open>tx\<close> those accepted for
  sending, \<open>fifo\<close> how many of them are still queued, and \<open>busy\<close> how many more polls find the queue not empty, at
  most \<open>B\<close> after a byte. A byte is accepted if the queue of 16 has room, and an empty queue is what bit 5
  of the line status tells. Bytes may arrive at every access.
\<close>

record uart =
  rx :: "u8 list"
  tx :: "u8 list"
  busy :: nat
  fifo :: nat

definition uart_hw :: "'w ports \<Rightarrow> u16 \<Rightarrow> ('w \<Rightarrow> uart) \<Rightarrow> nat \<Rightarrow> bool" where
  "uart_hw ps port st B \<longleftrightarrow> unat port + 5 < 2 ^ 16 \<and>
     (\<forall>w. (fst (port_in8 ps (port + 5) w) AND 0x1 = 1 \<longleftrightarrow> rx (st w) \<noteq> []) \<and>
        (fst (port_in8 ps (port + 5) w) AND 0x20 = 0x20 \<longleftrightarrow> busy (st w) = 0) \<and>
        (\<exists>a f. f \<le> fifo (st w) \<and> (busy (st w) = 0 \<longrightarrow> f = 0) \<and>
          st (snd (port_in8 ps (port + 5) w)) = (st w)\<lparr>rx := rx (st w) @ a, busy := busy (st w) - 1, fifo := f\<rparr>)) \<and>
     (\<forall>w. rx (st w) \<noteq> [] \<longrightarrow> fst (port_in8 ps port w) = hd (rx (st w)) \<and>
        (\<exists>a. st (snd (port_in8 ps port w)) = (st w)\<lparr>rx := tl (rx (st w)) @ a\<rparr>)) \<and>
     (\<forall>w b. fifo (st w) < 16 \<longrightarrow>
        (\<exists>a n. n \<le> B \<and> st (port_out8 ps port b w) = \<lparr>rx = rx (st w) @ a, tx = tx (st w) @ [b], busy = n, fifo = Suc (fifo (st w))\<rparr>))"

text \<open>What appears on the line for a text.\<close>

definition on_line :: "u8 list \<Rightarrow> u8 list" where
  "on_line bs = concat (map (\<lambda>b. if b = 0x0a then [0x0d, 0x0a] else [b]) bs)"

section \<open>Lemmas\<close>

lemma line_status_hw:
  assumes "uart_hw ps port st B" and "com_port c = Some port"
  obtains v w' a f where "line_status ps c w = Inr (v, w')" "v AND 0x1 = 1 \<longleftrightarrow> rx (st w) \<noteq> []" "v AND 0x20 = 0x20 \<longleftrightarrow> busy (st w) = 0"
    "st w' = (st w)\<lparr>rx := rx (st w) @ a, busy := busy (st w) - 1, fifo := f\<rparr>" "busy (st w) = 0 \<Longrightarrow> f = 0"
proof -
  have add: "checked_add port 5 = Inr (port + 5)" using assms(1) by (simp add: uart_hw_def checked_add_eq_Inr)
  obtain a f where "busy (st w) = 0 \<longrightarrow> f = 0"
      "st (snd (port_in8 ps (port + 5) w)) = (st w)\<lparr>rx := rx (st w) @ a, busy := busy (st w) - 1, fifo := f\<rparr>"
    using assms(1) unfolding uart_hw_def by blast
  then show ?thesis using that[where v = "fst (port_in8 ps (port + 5) w)" and w' = "snd (port_in8 ps (port + 5) w)" and a = a and f = f] assms add
    by (simp add: line_status_def com_inb_def uart_hw_def)
qed

lemma data_port: "checked_add (port :: u16) 0 = Inr port"
  using unat_less_exp[of port] by (simp add: checked_add_eq_Inr)

lemma com_outb_hw:
  assumes "uart_hw ps port st B" and "com_port c = Some port" and "fifo (st w) < 16"
  obtains w' n a where "com_outb ps c 0 b w = Inr w'" "n \<le> B"
    "st w' = \<lparr>rx = rx (st w) @ a, tx = tx (st w) @ [b], busy = n, fifo = Suc (fifo (st w))\<rparr>"
proof -
  obtain a n where "n \<le> B" "st (port_out8 ps port b w) = \<lparr>rx = rx (st w) @ a, tx = tx (st w) @ [b], busy = n, fifo = Suc (fifo (st w))\<rparr>"
    using assms(1,3) unfolding uart_hw_def by blast
  then show ?thesis using that[where w' = "port_out8 ps port b w" and n = n and a = a] assms(2) by (simp add: com_outb_def data_port)
qed

lemma write_byte_hw:
  assumes hw: "uart_hw ps port st B" "com_port c = Some port" and empty: "fifo (st w) = 0"
  obtains w' a where "write_byte ps c b w = Inr w'" "busy (st w') \<le> B" "rx (st w') = rx (st w) @ a" "tx (st w') = tx (st w) @ on_line [b]"
proof (cases "b = 0x0a")
  case True
  obtain w1 n1 a1 where w1: "com_outb ps c 0 0x0d w = Inr w1" "st w1 = \<lparr>rx = rx (st w) @ a1, tx = tx (st w) @ [0x0d], busy = n1, fifo = Suc (fifo (st w))\<rparr>"
    using com_outb_hw[OF hw, of w "0x0d"] empty by (metis zero_less_numeral)
  obtain w2 n2 a2 where "com_outb ps c 0 0x0a w1 = Inr w2" "n2 \<le> B" "st w2 = \<lparr>rx = rx (st w1) @ a2, tx = tx (st w1) @ [0x0a], busy = n2, fifo = Suc (fifo (st w1))\<rparr>"
    using com_outb_hw[OF hw, of w1 "0x0a"] empty w1(2) by auto
  then show ?thesis using that[where w' = w2 and a = "a1 @ a2"] w1 True by (simp add: write_byte_def on_line_def)
next
  case False
  obtain w1 n1 a1 where "com_outb ps c 0 b w = Inr w1" "n1 \<le> B" "st w1 = \<lparr>rx = rx (st w) @ a1, tx = tx (st w) @ [b], busy = n1, fifo = Suc (fifo (st w))\<rparr>"
    using com_outb_hw[OF hw, of w b] empty by (metis zero_less_numeral)
  then show ?thesis using that[where w' = w1 and a = a1] False by (simp add: write_byte_def on_line_def)
qed

lemma on_line_append: "on_line (xs @ ys) = on_line xs @ on_line ys"
  by (simp add: on_line_def)

lemma on_line_Nil [simp]: "on_line [] = []"
  by (simp add: on_line_def)

lemma on_line_Cons: "on_line (b # bs) = on_line [b] @ on_line bs"
  using on_line_append[of "[b]" bs] by simp

text \<open>One call of \<open>write\<close> sends some of the bytes; it sends none only if the transmitter is busy, and has polled it once.\<close>

lemma write_loop_hw:
  assumes hw: "uart_hw ps port st B" "com_port c = Some port"
  shows "\<exists>k w' a. write_loop ps c bs w = Inr (k, w') \<and> k \<le> length bs \<and>
    tx (st w') = tx (st w) @ on_line (take k bs) \<and> rx (st w') = rx (st w) @ a \<and>
    (if k = 0 then bs \<noteq> [] \<longrightarrow> busy (st w) > 0 \<and> busy (st w') = busy (st w) - 1 else busy (st w') \<le> B)"
proof (induction bs arbitrary: w)
  case Nil
  show ?case by (intro exI[of _ 0] exI[of _ w] exI[of _ "[]"]) simp
next
  case (Cons b bs)
  obtain v w1 a1 f where w1: "line_status ps c w = Inr (v, w1)" "v AND 0x20 = 0x20 \<longleftrightarrow> busy (st w) = 0"
      "st w1 = (st w)\<lparr>rx := rx (st w) @ a1, busy := busy (st w) - 1, fifo := f\<rparr>" "busy (st w) = 0 \<Longrightarrow> f = 0"
    using line_status_hw[OF hw, of w] by metis
  show ?case
  proof (cases "busy (st w) = 0")
    case True
    then have "fifo (st w1) = 0" using w1 by simp
    then obtain w2 a2 where w2: "write_byte ps c b w1 = Inr w2" "busy (st w2) \<le> B" "rx (st w2) = rx (st w1) @ a2" "tx (st w2) = tx (st w1) @ on_line [b]"
      by (rule write_byte_hw[OF hw])
    obtain k w' a where r: "write_loop ps c bs w2 = Inr (k, w')" "k \<le> length bs" "tx (st w') = tx (st w2) @ on_line (take k bs)" "rx (st w') = rx (st w2) @ a"
      "if k = 0 then bs \<noteq> [] \<longrightarrow> busy (st w2) > 0 \<and> busy (st w') = busy (st w2) - 1 else busy (st w') \<le> B" using Cons[of w2] by blast
    have "busy (st w') \<le> B" using r(1,5) w2(2) by (cases bs) (auto split: if_splits)
    then show ?thesis using r w1 w2 True
      by (intro exI[of _ "Suc k"] exI[of _ w'] exI[of _ "a1 @ a2 @ a"]) (simp add: on_line_Cons[of b "take k bs"])
  next
    case False
    then show ?thesis using w1 by (intro exI[of _ 0] exI[of _ w1] exI[of _ a1]) simp
  qed
qed

lemma fuel_left:
  assumes "(k :: nat) \<le> l" and "0 < k"
  shows "(l - k) * (B + 1) + (B + 1) \<le> l * (B + 1)"
proof -
  have "Suc (l - k) * (B + 1) \<le> l * (B + 1)" using assms by (intro mult_le_mono1) simp
  then show ?thesis by (simp only: mult_Suc add.commute)
qed

lemma write_all_hw:
  assumes hw: "uart_hw ps port st B" "com_port c = Some port" and fuel: "busy (st w) + length buf * (B + 1) < fuel"
  shows "\<exists>w' a. write_all fuel ps c buf w = Inr (Ok (), w') \<and> tx (st w') = tx (st w) @ on_line buf \<and> rx (st w') = rx (st w) @ a"
  using fuel
proof (induction fuel arbitrary: buf w)
  case (Suc fuel)
  show ?case
  proof (cases "buf = []")
    case False
    obtain k w1 a where r: "write_loop ps c buf w = Inr (k, w1)" "k \<le> length buf" "tx (st w1) = tx (st w) @ on_line (take k buf)" "rx (st w1) = rx (st w) @ a"
      "if k = 0 then buf \<noteq> [] \<longrightarrow> busy (st w) > 0 \<and> busy (st w1) = busy (st w) - 1 else busy (st w1) \<le> B" using write_loop_hw[OF hw] by blast
    have "busy (st w1) + length (drop k buf) * (B + 1) < fuel"
    proof (cases "k = 0")
      case True
      then have "0 < busy (st w)" "busy (st w1) = busy (st w) - 1" using r(5) False by simp_all
      with True Suc.prems show ?thesis unfolding length_drop by simp
    next
      case False
      then have "busy (st w1) \<le> B" using r(5) by simp
      with fuel_left[OF r(2), of B] False Suc.prems show ?thesis unfolding length_drop by linarith
    qed
    then obtain w' a' where "write_all fuel ps c (drop k buf) w1 = Inr (Ok (), w')" "tx (st w') = tx (st w1) @ on_line (drop k buf)" "rx (st w') = rx (st w1) @ a'"
      using Suc.IH by blast
    moreover have "on_line (take k buf) @ on_line (drop k buf) = on_line buf" by (simp flip: on_line_append)
    ultimately show ?thesis using r False by (intro exI[of _ w'] exI[of _ "a @ a'"]) (simp add: com_write_def split_at_def)
  qed simp
qed simp

text \<open>Reading takes what has arrived, in order, and loses nothing.\<close>

lemma read_loop_hw:
  assumes hw: "uart_hw ps port st B" "com_port c = Some port"
  shows "\<exists>bs w' a. read_loop ps c m w = Inr (bs, w') \<and> length bs \<le> m \<and> min m (length (rx (st w))) \<le> length bs \<and>
    rx (st w) @ a = bs @ rx (st w') \<and> tx (st w') = tx (st w) \<and> busy (st w') \<le> busy (st w)"
proof (induction m arbitrary: w)
  case 0
  show ?case by (intro exI[of _ "[]"] exI[of _ w]) simp
next
  case (Suc m)
  obtain v w1 a1 f where w1: "line_status ps c w = Inr (v, w1)" "v AND 0x1 = 1 \<longleftrightarrow> rx (st w) \<noteq> []"
      "st w1 = (st w)\<lparr>rx := rx (st w) @ a1, busy := busy (st w) - 1, fifo := f\<rparr>"
    using line_status_hw[OF hw, of w] by metis
  show ?case
  proof (cases "rx (st w)")
    case Nil
    then show ?thesis using w1 by (intro exI[of _ "[]"] exI[of _ w1] exI[of _ a1]) simp
  next
    case (Cons b r)
    then have "rx (st w1) = b # r @ a1" using w1(3) by simp
    then obtain w2 a2 where w2: "read_byte ps c w1 = Inr (b, w2)" "st w2 = (st w1)\<lparr>rx := (r @ a1) @ a2\<rparr>"
      using hw unfolding uart_hw_def read_byte_def com_inb_def by (auto simp: data_port prod_eq_iff dest!: spec[of _ w1])
    obtain bs w' a where i: "read_loop ps c m w2 = Inr (bs, w')" "length bs \<le> m" "min m (length (rx (st w2))) \<le> length bs"
        "rx (st w2) @ a = bs @ rx (st w')" "tx (st w') = tx (st w2)" "busy (st w') \<le> busy (st w2)" using Suc by blast
    have "v AND 0x1 = 1" using w1(2) Cons by simp
    moreover have "min m (length r) \<le> length bs" using i(3) w2(2) by simp
    ultimately show ?thesis using i w1 w2 Cons by (intro exI[of _ "b # bs"] exI[of _ w'] exI[of _ "a1 @ a2 @ a"]) auto
  qed
qed

section \<open>Properties\<close>

text \<open>
  C29: \<^bold>\<open>The console sends the whole text\<close>. \<open>write_str\<close> returns \<open>Ok\<close>: after polling the transmitter while it is
  busy, it has sent every byte in order, each newline as carriage return and newline.
\<close>

theorem write_str_sends_all:
  assumes "uart_hw ps port st B" and "com_port c = Some port" and "busy (st w) + length s * (B + 1) < fuel"
  shows "\<exists>w'. write_str fuel ps c s w = Inr (Ok (), w') \<and> tx (st w') = tx (st w) @ on_line s"
  using write_all_hw[OF assms] assms(2) by (auto simp: write_str_def)

text \<open>
  C37: \<^bold>\<open>The console echoes its input\<close>. The interrupt handler takes at most 16 of the bytes that have arrived, and all
  of them if they are fewer, sends exactly these back in order, and leaves the rest waiting, also bytes that arrive meanwhile.
\<close>

theorem com1_echoes:
  assumes hw: "uart_hw ps port st B" "com_port c = Some port" and fuel: "busy (st w) + 16 * (B + 1) < fuel"
  shows "\<exists>w' bs a. read_com1 fuel ps c w = Inr w' \<and> length bs \<le> 16 \<and> min 16 (length (rx (st w))) \<le> length bs \<and>
    rx (st w) @ a = bs @ rx (st w') \<and> tx (st w') = tx (st w) @ on_line bs"
proof -
  obtain bs w1 a where r: "read_loop ps c 16 w = Inr (bs, w1)" "length bs \<le> 16" "min 16 (length (rx (st w))) \<le> length bs"
      "rx (st w) @ a = bs @ rx (st w1)" "tx (st w1) = tx (st w)" "busy (st w1) \<le> busy (st w)" using read_loop_hw[OF hw] by blast
  have "busy (st w1) + length bs * (B + 1) < fuel" using r(2,6) fuel mult_le_mono1[OF r(2), of "B + 1"] by linarith
  then obtain w' a' where w': "write_all fuel ps c bs w1 = Inr (Ok (), w')" "tx (st w') = tx (st w1) @ on_line bs" "rx (st w') = rx (st w1) @ a'"
    using write_all_hw[OF hw] by blast
  have "read_com1 fuel ps c w = Inr w'" using hw(2) r(1,2) w'(1) by (simp add: read_com1_def com_read_def slice_def)
  moreover have "rx (st w) @ a @ a' = bs @ rx (st w')" using r(4) w'(3) by (metis append.assoc)
  ultimately show ?thesis using r w'(2) by metis
qed

section \<open>Witnesses\<close>

text \<open>A UART whose transmitter is busy for one poll after each byte.\<close>

definition sample_uart :: "uart ports" where
  "sample_uart = \<lparr>
     port_out8 = (\<lambda>p b u. if p = 0x3f8 then u\<lparr>tx := tx u @ [b], busy := 1, fifo := Suc (fifo u)\<rparr> else u),
     port_in8 = (\<lambda>p u.
       if p = 0x3fd then ((if rx u \<noteq> [] then 1 else 0) OR (if busy u = 0 then 0x20 else 0), u\<lparr>busy := busy u - 1, fifo := 0\<rparr>)
       else (hd (rx u), u\<lparr>rx := tl (rx u)\<rparr>)),
     port_out16 = (\<lambda>_ _ u. u), port_in16 = (\<lambda>_ u. (0, u)), port_out32 = (\<lambda>_ _ u. u), port_in32 = (\<lambda>_ u. (0, u))\<rparr>"

lemma sample_uart_hw: "uart_hw sample_uart COM1_PORT (\<lambda>u. u) 1"
  unfolding uart_hw_def COM1_PORT_def
proof (intro conjI allI impI)
  fix u :: uart and b :: u8
  show "\<exists>a n. n \<le> 1 \<and> port_out8 sample_uart 0x3f8 b u = \<lparr>rx = rx u @ a, tx = tx u @ [b], busy = n, fifo = Suc (fifo u)\<rparr>"
    by (intro exI[of _ "[]"] exI[of _ 1]) (simp add: sample_uart_def)
  show "\<exists>a. snd (port_in8 sample_uart 0x3f8 u) = u\<lparr>rx := tl (rx u) @ a\<rparr>"
    by (intro exI[of _ "[]"]) (simp add: sample_uart_def)
  show "\<exists>a f. f \<le> fifo u \<and> (busy u = 0 \<longrightarrow> f = 0) \<and>
      snd (port_in8 sample_uart (0x3f8 + 5) u) = u\<lparr>rx := rx u @ a, busy := busy u - 1, fifo := f\<rparr>"
    by (intro exI[of _ "[]"] exI[of _ 0]) (simp add: sample_uart_def)
qed (simp_all add: sample_uart_def)

theorem write_str_sends_all_witness:
  "\<exists>w'. write_str 10 sample_uart \<lparr>com_port = Some COM1_PORT\<rparr> [0x41, 0x0a] \<lparr>rx = [], tx = [], busy = 3, fifo = 2\<rparr> = Inr (Ok (), w') \<and>
    tx w' = [0x41, 0x0d, 0x0a]"
  using write_str_sends_all[OF sample_uart_hw, of "\<lparr>com_port = Some COM1_PORT\<rparr>" "\<lparr>rx = [], tx = [], busy = 3, fifo = 2\<rparr>" "[0x41, 0x0a]" 10]
  by (simp add: on_line_def)

theorem com1_echoes_witness:
  "\<exists>w' bs a. read_com1 40 sample_uart \<lparr>com_port = Some COM1_PORT\<rparr> \<lparr>rx = [0x61, 0x62], tx = [], busy = 0, fifo = 0\<rparr> = Inr w' \<and>
    length bs \<le> 16 \<and> 2 \<le> length bs \<and> [0x61, 0x62] @ a = bs @ rx w' \<and> tx w' = on_line bs"
  using com1_echoes[OF sample_uart_hw, of "\<lparr>com_port = Some COM1_PORT\<rparr>" "\<lparr>rx = [0x61, 0x62], tx = [], busy = 0, fifo = 0\<rparr>" 40]
  by (simp add: numeral_2_eq_2)

end
