(* ===== verification/Fonts.thy ===== *)
theory Fonts
  imports Prelude
begin

text \<open>
  The font of the boot loader (\<open>bootloader/src/framebuffer/fonts.rs\<close>): the reader of a font in the bitmap
  distribution format, a stack of tokens over the lines of a text. The text, which the build includes from a
  file, is an argument; it is of ASCII characters, of which each is one byte.
\<close>

unbundle bit_operations_syntax

section \<open>Strings\<close>

text \<open>\<open>str::split\<close> with one character, \<open>str::lines\<close>, \<open>str::parse::<u8>\<close> and \<open>char::to_digit\<close> of the base 16.\<close>

fun str_split :: "char \<Rightarrow> string \<Rightarrow> string list" where
  "str_split d [] = [[]]"
| "str_split d (c # cs) =
     (if c = d then [] # str_split d cs
      else case str_split d cs of p # ps \<Rightarrow> (c # p) # ps | [] \<Rightarrow> [[c]])"

definition strip_cr :: "string \<Rightarrow> string" where
  "strip_cr l = (if l \<noteq> [] \<and> last l = CHR 0x0d then butlast l else l)"

definition str_lines :: "string \<Rightarrow> string list" where
  "str_lines t = (let ps = str_split (CHR 0x0a) t in map strip_cr (butlast ps) @ (if last ps = [] then [] else [last ps]))"

fun digits_u8 :: "string \<Rightarrow> nat \<Rightarrow> u8 option" where
  "digits_u8 [] n = Some (of_nat n)"
| "digits_u8 (c # cs) n =
     (let d = of_char c :: nat in
      if 48 \<le> d \<and> d \<le> 57 \<and> n * 10 + (d - 48) < 256 then digits_u8 cs (n * 10 + (d - 48)) else None)"

definition parse_u8 :: "string \<Rightarrow> u8 option" where
  "parse_u8 s =
     (case s of
        [] \<Rightarrow> None
      | c # cs \<Rightarrow> digits_u8 (if c = CHR ''+'' \<and> cs \<noteq> [] then cs else s) 0)"

definition to_digit16 :: "char \<Rightarrow> u8 option" where
  "to_digit16 c =
     (let n = of_char c :: nat in
      if 48 \<le> n \<and> n \<le> 57 then Some (of_nat (n - 48))
      else if 97 \<le> n \<and> n \<le> 102 then Some (of_nat (n - 87))
      else if 65 \<le> n \<and> n \<le> 70 then Some (of_nat (n - 55))
      else None)"

section \<open>Model\<close>

definition FONT_WIDTH :: nat where "FONT_WIDTH = 16"
definition FONT_HEIGHT :: nat where "FONT_HEIGHT = 18"

record glyph =
  codepoint :: u8
  bitmap :: "u8 list list"

datatype token = STARTCHAR | ENCODING | BITMAP | UNUSED | EMPTY

text \<open>The variables of \<open>parse_bdf\<close>: the stack, its top first, the font, the place of the glyph that \<open>glyph\<close> refers to, and the row.\<close>

record bdf_state =
  tok_stack :: "token list"
  font_glyphs :: "glyph list"
  cur_glyph :: nat
  cur_row :: nat

definition stack_top :: "bdf_state \<Rightarrow> token" where
  "stack_top s = (case tok_stack s of t # _ \<Rightarrow> t | [] \<Rightarrow> EMPTY)"

definition get_glyph :: "glyph list \<Rightarrow> u8 \<Rightarrow> glyph res" where
  "get_glyph gs c = rbind (nat_sub (unat c) 32) (\<lambda>i. index gs i)"

definition write_pixel :: "nat \<Rightarrow> nat \<Rightarrow> u8 \<Rightarrow> u8 list list \<Rightarrow> u8 list list res" where
  "write_pixel r c v bm =
     rbind (index bm r) (\<lambda>line. if c < length line then Inr (bm[r := line[c := v]]) else Inl OutOfBounds)"

definition write_digit :: "nat \<Rightarrow> nat \<Rightarrow> nat \<times> u8 \<Rightarrow> u8 list list \<Rightarrow> u8 list list res" where
  "write_digit line_len r p bm =
     (let (i, d) = p in
      rbind (write_pixel r (line_len * i + 0) (drop_bit 3 (d AND 0x8)) bm) (\<lambda>bm.
      rbind (write_pixel r (line_len * i + 1) (drop_bit 2 (d AND 0x4)) bm) (\<lambda>bm.
      rbind (write_pixel r (line_len * i + 2) (drop_bit 1 (d AND 0x2)) bm) (\<lambda>bm.
      write_pixel r (line_len * i + 3) (d AND 0x1) bm))))"

fun bitmap_row :: "nat \<Rightarrow> nat \<Rightarrow> string \<Rightarrow> u8 list \<Rightarrow> u8 list list \<Rightarrow> u8 list list res" where
  "bitmap_row line_len r [] arr bm = Inr bm"
| "bitmap_row line_len r (c # cs) arr bm =
     rbind (expect (to_digit16 c)) (\<lambda>d.
     let arr = arr @ [d] in
     rbind (rfold (write_digit line_len r) (enumerate 0 arr) bm) (\<lambda>bm.
     bitmap_row line_len r cs arr bm))"

definition bitmap_line :: "string \<Rightarrow> bdf_state \<Rightarrow> bdf_state res" where
  "bitmap_line v s =
     rbind (index (font_glyphs s) (cur_glyph s)) (\<lambda>g.
     rbind (bitmap_row (length v) (cur_row s) v [] (bitmap g)) (\<lambda>bm.
     Inr (s\<lparr>font_glyphs := (font_glyphs s)[cur_glyph s := g\<lparr>bitmap := bm\<rparr>], cur_row := cur_row s + 1\<rparr>)))"

definition encoding_value :: "string \<Rightarrow> bdf_state \<Rightarrow> bdf_state res" where
  "encoding_value v s =
     (case parse_u8 v of
        Some enc \<Rightarrow>
          if enc > 127 \<or> enc = 0 then Inr (s\<lparr>tok_stack := UNUSED # tl (tok_stack s)\<rparr>)
          else
            rbind (nat_sub (unat enc) 32) (\<lambda>i.
            rbind (index (font_glyphs s) i) (\<lambda>g.
            Inr (s\<lparr>font_glyphs := (font_glyphs s)[i := g\<lparr>codepoint := enc\<rparr>], cur_glyph := i, tok_stack := tl (tok_stack s)\<rparr>)))
      | None \<Rightarrow> Inr (s\<lparr>tok_stack := UNUSED # tl (tok_stack s)\<rparr>))"

text \<open>The loop over the tokens of a line; a branch that ends with \<open>continue 'lines\<close> does not recurse.\<close>

fun do_tokens :: "string list \<Rightarrow> bdf_state \<Rightarrow> bdf_state res" where
  "do_tokens [] s = Inr s"
| "do_tokens (t # ts) s =
     (if t = ''STARTCHAR'' then
        if tok_stack s \<noteq> [] then Inl ExplicitPanic
        else Inr (s\<lparr>cur_row := 0, tok_stack := STARTCHAR # tok_stack s\<rparr>)
      else if t = ''ENCODING'' then
        if stack_top s \<noteq> STARTCHAR then Inl ExplicitPanic
        else do_tokens ts (s\<lparr>tok_stack := ENCODING # tok_stack s\<rparr>)
      else if t = ''BITMAP'' then
        if stack_top s = UNUSED then Inr s
        else if stack_top s \<noteq> STARTCHAR then Inl ExplicitPanic
        else Inr (s\<lparr>tok_stack := BITMAP # tok_stack s\<rparr>)
      else if t = ''ENDCHAR'' then
        if stack_top s \<noteq> BITMAP \<and> stack_top s \<noteq> UNUSED then Inl ExplicitPanic
        else Inr (s\<lparr>tok_stack := tl (tl (tok_stack s))\<rparr>)
      else if t = ''ENDFONT'' then Inr s
      else
        case stack_top s of
          ENCODING \<Rightarrow> encoding_value t s
        | UNUSED \<Rightarrow> Inr s
        | BITMAP \<Rightarrow> bitmap_line t s
        | EMPTY \<Rightarrow> Inl ExplicitPanic
        | STARTCHAR \<Rightarrow> do_tokens ts s)"

definition blank_font :: "glyph list" where
  "blank_font = replicate 96 \<lparr>codepoint = 0, bitmap = replicate FONT_HEIGHT (replicate FONT_WIDTH 0)\<rparr>"

definition parse_bdf :: "string \<Rightarrow> glyph list res" where
  "parse_bdf text =
     rbind (rfold (\<lambda>(line_no, l) s. if line_no < 27 then Inr s else do_tokens (str_split (CHR '' '') l) s)
       (enumerate 0 (str_lines text))
       \<lparr>tok_stack = [], font_glyphs = blank_font, cur_glyph = 0, cur_row = 0\<rparr>)
     (\<lambda>s. Inr (font_glyphs s))"

section \<open>Fonts\<close>

text \<open>A character of a font: its name, encoding, the lines of its metrics and the rows of its bitmap; the lines that describe it.\<close>

record bdf_char =
  bc_name :: string
  bc_encoding :: string
  bc_metrics :: "string list"
  bc_rows :: "string list"

definition char_lines :: "bdf_char \<Rightarrow> string list" where
  "char_lines c = [''STARTCHAR '' @ bc_name c, ''ENCODING '' @ bc_encoding c] @ bc_metrics c @ [''BITMAP''] @ bc_rows c @ [''ENDCHAR'']"

definition keyword :: "string \<Rightarrow> bool" where
  "keyword t \<longleftrightarrow> t \<in> set [''STARTCHAR'', ''ENCODING'', ''BITMAP'', ''ENDCHAR'', ''ENDFONT'']"

text \<open>The encoding is one word that is not that of a control character; a row has four hexadecimal digits.\<close>

definition encoding_ok :: "string \<Rightarrow> bool" where
  "encoding_ok e \<longleftrightarrow> CHR '' '' \<notin> set e \<and> \<not> keyword e \<and> (case parse_u8 e of Some n \<Rightarrow> n = 0 \<or> 32 \<le> n | None \<Rightarrow> True)"

definition row_ok :: "string \<Rightarrow> bool" where
  "row_ok r \<longleftrightarrow> length r = 4 \<and> list_all (\<lambda>c. to_digit16 c \<noteq> None) r"

definition char_ok :: "bdf_char \<Rightarrow> bool" where
  "char_ok c \<longleftrightarrow> encoding_ok (bc_encoding c) \<and>
     list_all (\<lambda>l. list_all (\<lambda>t. \<not> keyword t) (str_split (CHR '' '') l)) (bc_metrics c) \<and>
     length (bc_rows c) = 18 \<and> list_all row_ok (bc_rows c)"

text \<open>The pixels of a row, from the bits of its digits, and the glyph of a character.\<close>

definition row_pixels :: "string \<Rightarrow> u8 list" where
  "row_pixels r = concat (map (\<lambda>c. map (\<lambda>i. if bit (the (to_digit16 c)) i then 1 else 0) [3, 2, 1, 0]) r)"

definition add_char :: "bdf_char \<Rightarrow> glyph list \<Rightarrow> glyph list" where
  "add_char c gs =
     (case parse_u8 (bc_encoding c) of
        Some e \<Rightarrow> if 32 \<le> e \<and> e \<le> 127 then gs[unat e - 32 := \<lparr>codepoint = e, bitmap = map row_pixels (bc_rows c)\<rparr>] else gs
      | None \<Rightarrow> gs)"

section \<open>Lemmas\<close>

lemma str_split_ne: "str_split d s \<noteq> []"
  by (induction s) (auto split: list.splits)

lemma str_split_none: "d \<notin> set s \<Longrightarrow> str_split d s = [s]"
  by (induction s) auto

lemma str_split_append: "d \<notin> set s \<Longrightarrow> str_split d (s @ d # t) = s # str_split d t"
  by (induction s) auto

lemma str_lines_print:
  assumes "list_all (\<lambda>l. CHR 0x0a \<notin> set l \<and> strip_cr l = l) ls"
  shows "str_lines (concat (map (\<lambda>l. l @ [CHR 0x0a]) ls)) = ls"
proof -
  have "str_split (CHR 0x0a) (concat (map (\<lambda>l. l @ [CHR 0x0a]) ls)) = ls @ [[]]"
    using assms by (induction ls) (auto simp: str_split_append)
  moreover have "map strip_cr ls = ls" using assms by (induction ls) auto
  ultimately show ?thesis by (simp add: str_lines_def)
qed

subsection \<open>A row of pixels\<close>

definition digit_pixels :: "u8 \<Rightarrow> u8 list" where
  "digit_pixels d = [drop_bit 3 (d AND 0x8), drop_bit 2 (d AND 0x4), drop_bit 1 (d AND 0x2), d AND 0x1]"

lemma mask_pixel: "drop_bit n (d AND 2 ^ n) = (if bit d n then 1 else 0 :: u8)" if "n < 8"
proof (rule bit_word_eqI)
  fix i
  show "bit (drop_bit n (d AND 2 ^ n)) i \<longleftrightarrow> bit (if bit d n then 1 else 0 :: u8) i"
    using that by (cases i) (auto simp: bit_simps)
qed

lemma digit_pixels_bits: "digit_pixels d = map (\<lambda>i. if bit d i then 1 else 0) [3, 2, 1, 0]"
  using mask_pixel[of 3 d] mask_pixel[of 2 d] mask_pixel[of 1 d] mask_pixel[of 0 d] by (simp add: digit_pixels_def)

lemma write_digit_row:
  assumes "r < length bm" and "length (bm ! r) = 16" and "i < 4"
  shows "write_digit 4 r (i, d) bm = Inr (bm[r := take (4 * i) (bm ! r) @ digit_pixels d @ drop (4 * i + 4) (bm ! r)])"
proof -
  let ?l = "(bm ! r)[4 * i := drop_bit 3 (d AND 0x8), 4 * i + 1 := drop_bit 2 (d AND 0x4), 4 * i + 2 := drop_bit 1 (d AND 0x2), 4 * i + 3 := d AND 0x1]"
  have "?l = take (4 * i) (bm ! r) @ digit_pixels d @ drop (4 * i + 4) (bm ! r)"
  proof (rule nth_equalityI)
    fix n assume "n < length ?l"
    then have n: "n < 16" using assms(2) by simp
    consider "n < 4 * i" | "n = 4 * i" | "n = 4 * i + 1" | "n = 4 * i + 2" | "n = 4 * i + 3" | "4 * i + 4 \<le> n" by linarith
    then show "?l ! n = (take (4 * i) (bm ! r) @ digit_pixels d @ drop (4 * i + 4) (bm ! r)) ! n"
      by cases (use n assms in \<open>simp_all add: nth_append digit_pixels_def nth_list_update\<close>)
  qed (use assms in \<open>simp add: digit_pixels_def\<close>)
  moreover have "write_digit 4 r (i, d) bm = Inr (bm[r := ?l])"
    using assms by (simp add: write_digit_def write_pixel_def index_def)
  ultimately show ?thesis by simp
qed

lemma write_digits_row:
  assumes "r < length bm" and "length (bm ! r) = 16" and "length arr \<le> 4"
  shows "rfold (write_digit 4 r) (enumerate 0 arr) bm = Inr (bm[r := concat (map digit_pixels arr) @ drop (4 * length arr) (bm ! r)])"
  using assms(3)
proof (induction arr rule: rev_induct)
  case (snoc d arr)
  have len: "length (concat (map digit_pixels arr)) = 4 * length arr" for arr
    by (induction arr) (simp_all add: digit_pixels_def)
  let ?bm = "bm[r := concat (map digit_pixels arr) @ drop (4 * length arr) (bm ! r)]"
  have "write_digit 4 r (length arr, d) ?bm = Inr (?bm[r := take (4 * length arr) (?bm ! r) @ digit_pixels d @ drop (4 * length arr + 4) (?bm ! r)])"
    using assms snoc.prems by (intro write_digit_row) (simp_all add: len)
  then show ?case using snoc assms(1) by (simp add: enumerate_append_eq rfold_append len add.commute)
qed (use assms in simp)

lemma bitmap_row_ok:
  assumes "r < length bm" and "length (bm ! r) = 16" and "row_ok v"
  shows "bitmap_row (length v) r v [] bm = Inr (bm[r := row_pixels v])"
proof -
  obtain a b c d where v: "v = [a, b, c, d]" using assms(3) by (auto simp: row_ok_def length_Suc_conv numeral_eq_Suc)
  obtain a' b' c' d' where ds: "to_digit16 a = Some a'" "to_digit16 b = Some b'" "to_digit16 c = Some c'" "to_digit16 d = Some d'"
    using assms(3) by (auto simp: row_ok_def v)
  have w: "rfold (write_digit 4 r) (enumerate 0 arr) bm' = Inr (bm'[r := concat (map digit_pixels arr) @ drop (4 * length arr) (bm' ! r)])"
    if "length bm' = length bm" "length (bm' ! r) = 16" "length arr \<le> 4" for arr bm'
    using that assms(1) by (intro write_digits_row) simp_all
  have "row_pixels v = concat (map digit_pixels [a', b', c', d'])" by (simp add: row_pixels_def v ds digit_pixels_bits)
  moreover have l: "length (digit_pixels x) = 4" for x by (simp add: digit_pixels_def)
  ultimately have "bitmap_row 4 r v [] bm = Inr (bm[r := row_pixels v])"
    using assms(1,2) unfolding v by (simp add: ds Let_def w l del: enumerate_simps)
  then show ?thesis using assms(3) by (simp add: row_ok_def)
qed

subsection \<open>A character\<close>

definition font_wf :: "glyph list \<Rightarrow> bool" where
  "font_wf gs \<longleftrightarrow> length gs = 96 \<and> (\<forall>g \<in> set gs. length (bitmap g) = 18 \<and> (\<forall>l \<in> set (bitmap g). length l = 16))"

abbreviation read_line :: "string \<Rightarrow> bdf_state \<Rightarrow> bdf_state res" where
  "read_line l s \<equiv> do_tokens (str_split (CHR '' '') l) s"

lemma length_row_pixels: "row_ok r \<Longrightarrow> length (row_pixels r) = 16"
  by (auto simp: row_ok_def row_pixels_def length_Suc_conv numeral_eq_Suc)

lemma hex_not_space: "to_digit16 c \<noteq> None \<Longrightarrow> c \<noteq> CHR '' ''"
  by (auto simp: to_digit16_def)

lemma row_split: "row_ok r \<Longrightarrow> str_split (CHR '' '') r = [r] \<and> \<not> keyword r"
  using hex_not_space[of "CHR '' ''"] by (auto simp: row_ok_def keyword_def list_all_iff intro!: str_split_none)

lemma read_metrics:
  assumes "list_all (\<lambda>l. list_all (\<lambda>t. \<not> keyword t) (str_split (CHR '' '') l)) ms" and "stack_top s = STARTCHAR \<or> stack_top s = UNUSED"
  shows "rfold read_line ms s = Inr s"
proof -
  have "do_tokens ts s = Inr s" if "list_all (\<lambda>t. \<not> keyword t) ts" for ts
    using that assms(2) by (induction ts) (auto simp: keyword_def)
  then show ?thesis using assms(1) by (induction ms) auto
qed

lemma read_rows_unused:
  assumes "list_all row_ok rs" and "stack_top s = UNUSED"
  shows "rfold read_line rs s = Inr s"
  using assms row_split by (induction rs) (auto simp: keyword_def)

lemma read_rows:
  assumes "list_all row_ok rs" and "font_wf gs" and "i < 96" and "n + length rs \<le> 18"
  shows "rfold read_line rs \<lparr>tok_stack = BITMAP # st, font_glyphs = gs, cur_glyph = i, cur_row = n\<rparr> =
    Inr \<lparr>tok_stack = BITMAP # st,
      font_glyphs = gs[i := (gs ! i)\<lparr>bitmap := take n (bitmap (gs ! i)) @ map row_pixels rs @ drop (n + length rs) (bitmap (gs ! i))\<rparr>],
      cur_glyph = i, cur_row = n + length rs\<rparr>"
  using assms
proof (induction rs arbitrary: gs n)
  case (Cons r rs)
  have g: "gs ! i \<in> set gs" "length gs = 96" using Cons.prems by (auto simp: font_wf_def)
  then have "length (bitmap (gs ! i)) = 18" "n < 18" and rows: "\<forall>l \<in> set (bitmap (gs ! i)). length l = 16" using Cons.prems by (auto simp: font_wf_def)
  then have wf: "length (bitmap (gs ! i)) = 18" "n < 18" "length (bitmap (gs ! i) ! n) = 16" by simp_all
  let ?g = "(gs ! i)\<lparr>bitmap := (bitmap (gs ! i))[n := row_pixels r]\<rparr>"
  have "read_line r \<lparr>tok_stack = BITMAP # st, font_glyphs = gs, cur_glyph = i, cur_row = n\<rparr> =
      Inr \<lparr>tok_stack = BITMAP # st, font_glyphs = gs[i := ?g], cur_glyph = i, cur_row = Suc n\<rparr>"
    using row_split[of r] bitmap_row_ok[of n "bitmap (gs ! i)" r] Cons.prems wf g
    by (simp add: keyword_def stack_top_def bitmap_line_def index_def)
  moreover have "font_wf (gs[i := ?g])"
    using Cons.prems g rows length_row_pixels[of r] unfolding font_wf_def
    by (auto dest!: set_update_subset_insert[THEN subsetD])
  moreover have "take (Suc n) ((bitmap (gs ! i))[n := row_pixels r]) = take n (bitmap (gs ! i)) @ [row_pixels r]"
    using wf by (simp add: take_Suc_conv_app_nth)
  ultimately show ?case using Cons.IH[of "gs[i := ?g]" "Suc n"] Cons.prems g by simp
qed simp

lemma read_keyword_line: "CHR '' '' \<notin> set k \<Longrightarrow> str_split (CHR '' '') (k @ CHR '' '' # l) = k # str_split (CHR '' '') l"
  by (rule str_split_append)

lemma read_start:
  "read_line (''STARTCHAR '' @ nm) \<lparr>tok_stack = [], font_glyphs = gs, cur_glyph = i, cur_row = n\<rparr> =
     Inr \<lparr>tok_stack = [STARTCHAR], font_glyphs = gs, cur_glyph = i, cur_row = 0\<rparr>"
  using read_keyword_line[of "''STARTCHAR''" nm] by simp

lemma read_encoding:
  assumes "encoding_ok e"
  shows "read_line (''ENCODING '' @ e) \<lparr>tok_stack = [STARTCHAR], font_glyphs = gs, cur_glyph = i, cur_row = 0\<rparr> =
    encoding_value e \<lparr>tok_stack = [ENCODING, STARTCHAR], font_glyphs = gs, cur_glyph = i, cur_row = 0\<rparr>"
  using read_keyword_line[of "''ENCODING''" e] str_split_none[of "CHR '' ''" e] assms
  by (simp add: encoding_ok_def keyword_def stack_top_def)

lemma read_bitmap: "str_split (CHR '' '') ''BITMAP'' = [''BITMAP'']"
  by (rule str_split_none) simp

lemma read_endchar: "str_split (CHR '' '') ''ENDCHAR'' = [''ENDCHAR'']"
  by (rule str_split_none) simp

lemma font_wf_add_char:
  assumes "font_wf gs" and "char_ok c"
  shows "font_wf (add_char c gs)"
proof -
  have "length (map row_pixels (bc_rows c)) = 18" "\<forall>l \<in> set (map row_pixels (bc_rows c)). length l = 16"
    using assms(2) length_row_pixels by (auto simp: char_ok_def list_all_iff)
  then show ?thesis using assms(1) unfolding font_wf_def add_char_def
    by (auto split: option.splits dest!: set_update_subset_insert[THEN subsetD])
qed

text \<open>The lines of one character put its glyph into the font.\<close>

lemma read_char:
  "rfold read_line (char_lines c) s =
     rbind (read_line (''STARTCHAR '' @ bc_name c) s) (\<lambda>s.
     rbind (read_line (''ENCODING '' @ bc_encoding c) s) (\<lambda>s.
     rbind (rfold read_line (bc_metrics c) s) (\<lambda>s.
     rbind (read_line ''BITMAP'' s) (\<lambda>s.
     rbind (rfold read_line (bc_rows c) s) (read_line ''ENDCHAR'')))))"
proof -
  have "rfold f (x # xs) = (\<lambda>s. rbind (f x s) (rfold f xs))" "rfold f (xs @ ys) = (\<lambda>s. rbind (rfold f xs s) (rfold f ys))"
    for f :: "string \<Rightarrow> bdf_state \<Rightarrow> bdf_state res" and x xs ys by (simp_all add: fun_eq_iff rfold_append)
  moreover have "rfold f [] = Inr" for f :: "string \<Rightarrow> bdf_state \<Rightarrow> bdf_state res" by (simp add: fun_eq_iff)
  ultimately show ?thesis by (simp add: char_lines_def del: str_split.simps rfold.simps)
qed

lemma glyph_eq: "g\<lparr>codepoint := e, bitmap := b\<rparr> = \<lparr>codepoint = e, bitmap = b\<rparr>" for g :: glyph
  by (cases g) simp

lemma read_used_char:
  assumes "char_ok c" and "font_wf gs" and e: "parse_u8 (bc_encoding c) = Some e" "32 \<le> e" "e \<le> 127"
  shows "rfold read_line (char_lines c) \<lparr>tok_stack = [], font_glyphs = gs, cur_glyph = i, cur_row = n\<rparr> =
    Inr \<lparr>tok_stack = [], font_glyphs = add_char c gs, cur_glyph = unat e - 32, cur_row = 18\<rparr>"
proof -
  let ?i = "unat e - 32"
  have u: "32 \<le> unat e" "unat e \<le> 127" using e by (simp_all add: word_le_nat_alt)
  then have i: "?i < 96" by simp
  have g: "length gs = 96" "length (bitmap (gs ! ?i)) = 18" using assms(2) i by (simp_all add: font_wf_def)
  let ?gs = "gs[?i := (gs ! ?i)\<lparr>codepoint := e\<rparr>]"
  have "gs ! ?i \<in> set gs" using g i by simp
  then have wf: "font_wf ?gs" using assms(2) unfolding font_wf_def by (auto dest!: set_update_subset_insert[THEN subsetD])
  have "e \<noteq> 0" "\<not> 127 < e" using e(3) u by auto
  then have enc: "encoding_value (bc_encoding c) \<lparr>tok_stack = [ENCODING, STARTCHAR], font_glyphs = gs, cur_glyph = i, cur_row = 0\<rparr> =
      Inr \<lparr>tok_stack = [STARTCHAR], font_glyphs = ?gs, cur_glyph = ?i, cur_row = 0\<rparr>"
    using e(1) u g i by (simp add: encoding_value_def nat_sub_def index_def)
  have ok: "encoding_ok (bc_encoding c)" "list_all row_ok (bc_rows c)" "length (bc_rows c) = 18"
    "list_all (\<lambda>l. list_all (\<lambda>t. \<not> keyword t) (str_split (CHR '' '') l)) (bc_metrics c)" using assms(1) by (simp_all add: char_ok_def)
  have m: "rfold read_line (bc_metrics c) \<lparr>tok_stack = [STARTCHAR], font_glyphs = ?gs, cur_glyph = ?i, cur_row = 0\<rparr> =
      Inr \<lparr>tok_stack = [STARTCHAR], font_glyphs = ?gs, cur_glyph = ?i, cur_row = 0\<rparr>"
    by (rule read_metrics[OF ok(4)]) (simp add: stack_top_def)
  have "rfold read_line (bc_rows c) \<lparr>tok_stack = [BITMAP, STARTCHAR], font_glyphs = ?gs, cur_glyph = ?i, cur_row = 0\<rparr> =
      Inr \<lparr>tok_stack = [BITMAP, STARTCHAR], font_glyphs = add_char c gs, cur_glyph = ?i, cur_row = 18\<rparr>"
    using read_rows[OF ok(2) wf i, of 0 "[STARTCHAR]"] ok(3) g i e by (simp add: add_char_def glyph_eq)
  then show ?thesis unfolding read_char read_start rbind.simps read_encoding[OF ok(1)] enc m
    by (simp add: m read_bitmap read_endchar stack_top_def del: str_split.simps)
qed

lemma read_unused_char:
  assumes "char_ok c" and unused: "\<not> (\<exists>e. parse_u8 (bc_encoding c) = Some e \<and> 32 \<le> e \<and> e \<le> 127)"
  shows "rfold read_line (char_lines c) \<lparr>tok_stack = [], font_glyphs = gs, cur_glyph = i, cur_row = n\<rparr> =
    Inr \<lparr>tok_stack = [], font_glyphs = add_char c gs, cur_glyph = i, cur_row = 0\<rparr>"
proof -
  let ?s = "\<lparr>tok_stack = [UNUSED, STARTCHAR], font_glyphs = gs, cur_glyph = i, cur_row = 0\<rparr>"
  have ok: "encoding_ok (bc_encoding c)" "list_all row_ok (bc_rows c)"
    "list_all (\<lambda>l. list_all (\<lambda>t. \<not> keyword t) (str_split (CHR '' '') l)) (bc_metrics c)" using assms(1) by (simp_all add: char_ok_def)
  have enc: "encoding_value (bc_encoding c) \<lparr>tok_stack = [ENCODING, STARTCHAR], font_glyphs = gs, cur_glyph = i, cur_row = 0\<rparr> = Inr ?s"
    using ok(1) unused by (auto simp: encoding_value_def encoding_ok_def not_le split: option.splits)
  have m: "rfold read_line (bc_metrics c) ?s = Inr ?s" "rfold read_line (bc_rows c) ?s = Inr ?s"
    by (rule read_metrics[OF ok(3)] read_rows_unused[OF ok(2)]; simp add: stack_top_def)+
  have "add_char c gs = gs" using unused by (auto simp: add_char_def split: option.splits)
  then show ?thesis unfolding read_char read_start rbind.simps read_encoding[OF ok(1)] enc m
    by (simp add: m read_bitmap read_endchar stack_top_def del: str_split.simps)
qed

lemma read_chars:
  assumes "list_all char_ok cs" and "font_wf gs"
  shows "\<exists>i' n'. rfold read_line (concat (map char_lines cs)) \<lparr>tok_stack = [], font_glyphs = gs, cur_glyph = i, cur_row = n\<rparr> =
    Inr \<lparr>tok_stack = [], font_glyphs = fold add_char cs gs, cur_glyph = i', cur_row = n'\<rparr>"
  using assms
proof (induction cs arbitrary: gs i n)
  case (Cons c cs)
  obtain i1 n1 where "rfold read_line (char_lines c) \<lparr>tok_stack = [], font_glyphs = gs, cur_glyph = i, cur_row = n\<rparr> =
      Inr \<lparr>tok_stack = [], font_glyphs = add_char c gs, cur_glyph = i1, cur_row = n1\<rparr>"
    using Cons.prems read_used_char[of c gs _ i n] read_unused_char[of c gs i n] by fastforce
  moreover obtain i2 n2 where "rfold read_line (concat (map char_lines cs)) \<lparr>tok_stack = [], font_glyphs = add_char c gs, cur_glyph = i1, cur_row = n1\<rparr> =
      Inr \<lparr>tok_stack = [], font_glyphs = fold add_char cs (add_char c gs), cur_glyph = i2, cur_row = n2\<rparr>"
    using Cons font_wf_add_char[of gs c] by (metis list.pred_inject(2))
  ultimately show ?case by (simp add: rfold_append)
qed simp

lemma skip_header:
  assumes "length hdr = 27"
  shows "rfold (\<lambda>(line_no, l) s. if line_no < 27 then Inr s else read_line l s) (enumerate 0 (hdr @ ls)) s = rfold read_line ls s"
proof -
  have "rfold (\<lambda>(line_no, l) s. if line_no < 27 then Inr s else read_line l s) (enumerate n hs) s = Inr s" if "n + length hs \<le> 27" for n hs
    using that by (induction hs arbitrary: n) auto
  moreover have "rfold (\<lambda>(line_no, l) s. if line_no < 27 then Inr s else read_line l s) (enumerate n ls) s = rfold read_line ls s" if "27 \<le> n" for n
    using that by (induction ls arbitrary: n s) (auto intro!: rbind_cong)
  ultimately show ?thesis using assms by (simp add: enumerate_append_eq rfold_append)
qed

section \<open>Properties\<close>

text \<open>
  C23: \<^bold>\<open>The font is read as it is written\<close>. Of a text of 27 lines of header, the lines of any characters and
  a last line, the reader returns a font in which the glyph of each character code from 32 to 127 has the pixels of the
  last character with that encoding, bit for bit, and is blank if there is none; characters with another
  encoding change nothing, except those of control characters, which are not allowed.
\<close>

theorem parse_bdf_reads:
  assumes "length hdr = 27" and "list_all char_ok cs"
    and "ls = hdr @ concat (map char_lines cs) @ [''ENDFONT'']" and "list_all (\<lambda>l. CHR 0x0a \<notin> set l \<and> strip_cr l = l) ls"
  shows "parse_bdf (concat (map (\<lambda>l. l @ [CHR 0x0a]) ls)) = Inr (fold add_char cs blank_font)"
proof -
  have "font_wf blank_font" by (simp add: font_wf_def blank_font_def FONT_HEIGHT_def FONT_WIDTH_def)
  then obtain i n where r: "rfold read_line (concat (map char_lines cs)) \<lparr>tok_stack = [], font_glyphs = blank_font, cur_glyph = 0, cur_row = 0\<rparr> =
      Inr \<lparr>tok_stack = [], font_glyphs = fold add_char cs blank_font, cur_glyph = i, cur_row = n\<rparr>"
    using read_chars[OF assms(2)] by blast
  have "str_split (CHR '' '') ''ENDFONT'' = [''ENDFONT'']" by (rule str_split_none) simp
  then show ?thesis unfolding parse_bdf_def str_lines_print[OF assms(4)] unfolding assms(3) skip_header[OF assms(1)]
    by (simp add: rfold_append r del: str_split.simps)
qed

text \<open>
  Property: \<^bold>\<open>The font of a control character\<close>. A character whose encoding is 1 to 31 stops the boot: the
  place of its glyph is computed by a subtraction that overflows.
\<close>

theorem parse_bdf_control_panics:
  assumes "length hdr = 27" and "CHR '' '' \<notin> set e" and "\<not> keyword e" and "parse_u8 e = Some n" and "0 < n" and "n < 32"
    and "ls = hdr @ [''STARTCHAR '' @ nm, ''ENCODING '' @ e] @ rest" and "list_all (\<lambda>l. CHR 0x0a \<notin> set l \<and> strip_cr l = l) ls"
  shows "parse_bdf (concat (map (\<lambda>l. l @ [CHR 0x0a]) ls)) = Inl ArithOverflow"
proof -
  have n: "n \<noteq> 0" "\<not> 127 < n" "\<not> 32 \<le> unat n" using assms(5,6) by (auto simp: word_less_nat_alt)
  have "encoding_value e \<lparr>tok_stack = [ENCODING, STARTCHAR], font_glyphs = blank_font, cur_glyph = 0, cur_row = 0\<rparr> = Inl ArithOverflow"
    using n assms(4) by (simp add: encoding_value_def nat_sub_def)
  moreover have "str_split (CHR '' '') (''ENCODING '' @ e) = [''ENCODING'', e]"
    using read_keyword_line[of "''ENCODING''" e] str_split_none[OF assms(2)] by simp
  ultimately have "read_line (''ENCODING '' @ e) \<lparr>tok_stack = [STARTCHAR], font_glyphs = blank_font, cur_glyph = 0, cur_row = 0\<rparr> = Inl ArithOverflow"
    using assms(3) by (simp add: stack_top_def keyword_def del: str_split.simps append.simps)
  then show ?thesis unfolding parse_bdf_def str_lines_print[OF assms(8)] unfolding assms(7) skip_header[OF assms(1)]
    by (simp only: append_Cons[of _ "[_]" rest] append_Cons[of _ "[]" rest] rfold.simps read_start rbind.simps)
qed

section \<open>Witnesses\<close>

definition sample_char :: bdf_char where
  "sample_char = \<lparr>bc_name = ''one'', bc_encoding = ''49'', bc_metrics = [''BBX 10 18 0 -3''], bc_rows = replicate 18 ''0C0f''\<rparr>"

lemma sample_char_ok: "char_ok sample_char"
  by (simp add: char_ok_def sample_char_def encoding_ok_def keyword_def parse_u8_def row_ok_def to_digit16_def list_all_iff)

theorem parse_bdf_reads_witness:
  "\<exists>gs. parse_bdf (concat (map (\<lambda>l. l @ [CHR 0x0a]) (replicate 27 ''x'' @ concat (map char_lines [sample_char]) @ [''ENDFONT'']))) = Inr gs \<and>
    gs ! 17 = \<lparr>codepoint = 49, bitmap = replicate 18 [0, 0, 0, 0, 1, 1, 0, 0, 0, 0, 0, 0, 1, 1, 1, 1]\<rparr>"
proof -
  have "list_all (\<lambda>l. CHR 0x0a \<notin> set l \<and> strip_cr l = l) (replicate 27 ''x'' @ concat (map char_lines [sample_char]) @ [''ENDFONT''])"
    by (simp add: char_lines_def sample_char_def strip_cr_def list_all_iff)
  then have "parse_bdf (concat (map (\<lambda>l. l @ [CHR 0x0a]) (replicate 27 ''x'' @ concat (map char_lines [sample_char]) @ [''ENDFONT'']))) =
      Inr (fold add_char [sample_char] blank_font)"
    by (intro parse_bdf_reads[where hdr = "replicate 27 ''x''"]) (simp_all add: sample_char_ok)
  moreover have "fold add_char [sample_char] blank_font ! 17 = \<lparr>codepoint = 49, bitmap = replicate 18 [0, 0, 0, 0, 1, 1, 0, 0, 0, 0, 0, 0, 1, 1, 1, 1]\<rparr>"
    by (simp add: add_char_def sample_char_def parse_u8_def blank_font_def row_pixels_def to_digit16_def bit_numeral_rec)
  ultimately show ?thesis by blast
qed

theorem parse_bdf_control_panics_witness:
  "parse_bdf (concat (map (\<lambda>l. l @ [CHR 0x0a]) (replicate 27 ''x'' @ [''STARTCHAR a'', ''ENCODING 7'']))) = Inl ArithOverflow"
  by (rule parse_bdf_control_panics[where hdr = "replicate 27 ''x''" and e = "''7''" and n = 7 and nm = "''a''" and rest = "[]"])
    (simp_all add: keyword_def parse_u8_def strip_cr_def list_all_iff)

end
