(* ===== verification/Framebuffer.thy ===== *)
theory Framebuffer
  imports Fonts
begin

text \<open>
  The text screen of the boot loader (\<open>bootloader/src/framebuffer/mod.rs\<close>). The graphics output of the firmware is a
  parameter: \<open>blt\<close> is what drawing a buffer of pixels at a place does. Characters are their code points.
\<close>

section \<open>Model\<close>

record framebuffer =
  pixel_width :: nat
  pixel_height :: nat
  n_col :: nat
  n_row :: nat
  cursor_x :: nat
  cursor_y :: nat
  fb_font :: "glyph list"

type_synonym pixel = "u8 \<times> u8 \<times> u8"
type_synonym 'w blt = "nat \<times> nat \<Rightarrow> nat \<times> nat \<Rightarrow> pixel list \<Rightarrow> 'w \<Rightarrow> 'w"

text \<open>\<open>new\<close> with the resolution that the firmware reports and the text of the font.\<close>

definition framebuffer_new :: "nat \<times> nat \<Rightarrow> string \<Rightarrow> framebuffer res" where
  "framebuffer_new resolution text =
     (let (width, height) = resolution in
      rbind (parse_bdf text) (\<lambda>font.
      Inr \<lparr>pixel_width = width, pixel_height = height, n_col = width div FONT_WIDTH, n_row = height div FONT_HEIGHT,
        cursor_x = 0, cursor_y = 0, fb_font = font\<rparr>))"

text \<open>\<open>init\<close>, with what filling a rectangle with a colour does.\<close>

definition framebuffer_init ::
  "(pixel \<Rightarrow> nat \<times> nat \<Rightarrow> nat \<times> nat \<Rightarrow> 'w \<Rightarrow> (unit, 'e) rust_result \<times> 'w) \<Rightarrow> nat \<times> nat \<Rightarrow> 'w \<Rightarrow> (unit, unit) rust_result \<times> 'w" where
  "framebuffer_init fill resolution w =
     (case fill (0x35, 0x33, 0x2b) (0, 0) resolution w of (Ok _, w) \<Rightarrow> (Ok (), w) | (Err _, w) \<Rightarrow> (Err (), w))"

definition newline :: "framebuffer \<Rightarrow> framebuffer" where
  "newline fb = (if cursor_y fb < n_row fb then fb\<lparr>cursor_x := 0, cursor_y := cursor_y fb + 1\<rparr> else fb)"

definition glyph_pixels :: "glyph \<Rightarrow> pixel list" where
  "glyph_pixels g =
     concat (map (map (\<lambda>b. if b = 1 then (0xee, 0xee, 0xee) else (0x35, 0x33, 0x2b))) (bitmap g))"

definition write_char_impl :: "'w blt \<Rightarrow> nat \<Rightarrow> framebuffer \<times> 'w \<Rightarrow> (framebuffer \<times> 'w) res" where
  "write_char_impl blt c s =
     (let (fb, w) = s in
      if c = 10 then Inr (newline fb, w)
      else
        let fb = (if cursor_x fb \<ge> n_col fb then newline fb else fb) in
        rbind (nat_sub c 32) (\<lambda>i.
        rbind (index (fb_font fb) i) (\<lambda>g.
        let w = blt (cursor_x fb * FONT_WIDTH, cursor_y fb * FONT_HEIGHT) (FONT_WIDTH, FONT_HEIGHT) (glyph_pixels g) w
        in Inr (fb\<lparr>cursor_x := cursor_x fb + 1\<rparr>, w))))"

definition fb_write_str :: "'w blt \<Rightarrow> nat list \<Rightarrow> framebuffer \<times> 'w \<Rightarrow> (framebuffer \<times> 'w) res" where
  "fb_write_str blt s x = rfold (write_char_impl blt) s x"

section \<open>Lemmas\<close>

text \<open>A graphics output that records what is drawn and where.\<close>

type_synonym drawing = "((nat \<times> nat) \<times> pixel list) list"

definition record_blt :: "drawing blt" where
  "record_blt dest dims ps w = w @ [(dest, ps)]"

definition fb_wf :: "framebuffer \<Rightarrow> bool" where
  "fb_wf fb \<longleftrightarrow> n_col fb = pixel_width fb div 16 \<and> n_row fb = pixel_height fb div 18 \<and> 0 < n_col fb \<and> length (fb_font fb) = 96 \<and> cursor_x fb \<le> n_col fb"

text \<open>A cell of the screen before the cursor in the order of reading.\<close>

definition before_cursor :: "framebuffer \<Rightarrow> nat \<times> nat \<Rightarrow> bool" where
  "before_cursor fb d \<longleftrightarrow> (\<exists>x y. d = (x * 16, y * 18) \<and> x < n_col fb \<and> (y < cursor_y fb \<or> y = cursor_y fb \<and> x < cursor_x fb))"

definition same_screen :: "framebuffer \<Rightarrow> framebuffer \<Rightarrow> bool" where
  "same_screen fb fb' \<longleftrightarrow> fb' = fb\<lparr>cursor_x := cursor_x fb', cursor_y := cursor_y fb'\<rparr>"

lemma same_screen_simps:
  assumes "same_screen fb fb'"
  shows "n_col fb' = n_col fb" "n_row fb' = n_row fb" "fb_font fb' = fb_font fb" "pixel_width fb' = pixel_width fb" "pixel_height fb' = pixel_height fb"
  using assms by (cases fb, cases fb', simp add: same_screen_def)+

definition printable :: "nat \<Rightarrow> bool" where
  "printable c \<longleftrightarrow> c = 10 \<or> 32 \<le> c \<and> c < 128"

text \<open>What is drawn for a text, and that it has been drawn into free cells up to the cursor.\<close>

definition drawn :: "framebuffer \<Rightarrow> nat list \<Rightarrow> pixel list list" where
  "drawn fb s = map (\<lambda>c. glyph_pixels (fb_font fb ! (c - 32))) (filter (\<lambda>c. c \<noteq> 10) s)"

definition fills_cells :: "framebuffer \<Rightarrow> framebuffer \<Rightarrow> drawing \<Rightarrow> bool" where
  "fills_cells fb fb' ds \<longleftrightarrow> fb_wf fb' \<and> (\<forall>d. before_cursor fb d \<longrightarrow> before_cursor fb' d) \<and> distinct (map fst ds) \<and>
     (\<forall>d \<in> set (map fst ds). before_cursor fb' d \<and> \<not> before_cursor fb d)"

lemma fills_cells_trans:
  assumes "fills_cells a b ds" and "fills_cells b c es"
  shows "fills_cells a c (ds @ es)"
  using assms unfolding fills_cells_def by (auto 0 3)

text \<open>One character: a newline draws nothing; any other is drawn in a free cell.\<close>

lemma newline_effect:
  shows "same_screen fb (newline fb)" "cursor_y fb \<le> cursor_y (newline fb)"
    "cursor_y (newline fb) < n_row fb \<Longrightarrow> cursor_x (newline fb) = 0 \<and> cursor_y (newline fb) = Suc (cursor_y fb)"
  by (simp_all add: newline_def same_screen_def split: if_splits)

lemma same_screen_trans: "same_screen a b \<Longrightarrow> same_screen b c \<Longrightarrow> same_screen a c"
  by (cases a, cases b, cases c) (simp add: same_screen_def)

lemma newline_fills:
  assumes "fb_wf fb" and "cursor_y (newline fb) < n_row fb"
  shows "fills_cells fb (newline fb) []"
  using assms newline_effect(3)[OF assms(2)] same_screen_simps[OF newline_effect(1), of fb]
  by (auto simp: fills_cells_def before_cursor_def fb_wf_def)

lemma cell_fills:
  assumes "fb_wf fb" and "cursor_x fb < n_col fb"
  shows "fills_cells fb (fb\<lparr>cursor_x := cursor_x fb + 1\<rparr>) [((cursor_x fb * 16, cursor_y fb * 18), ps)]"
  using assms by (auto simp: fills_cells_def before_cursor_def fb_wf_def)

lemma write_glyph:
  assumes "length (fb_font fb) = 96" and "32 \<le> c" and "c < 128"
  shows "\<exists>fb' d. write_char_impl record_blt c (fb, ds) = Inr (fb', ds @ [(d, glyph_pixels (fb_font fb ! (c - 32)))]) \<and> same_screen fb fb' \<and>
    cursor_y fb \<le> cursor_y fb' \<and> (fb_wf fb \<and> cursor_y fb' < n_row fb \<longrightarrow> fills_cells fb fb' [(d, glyph_pixels (fb_font fb ! (c - 32)))])"
proof -
  define f where "f = (if cursor_x fb \<ge> n_col fb then newline fb else fb)"
  have f: "same_screen fb f" "cursor_y fb \<le> cursor_y f" using newline_effect(1,2)[of fb] by (simp_all add: f_def same_screen_def)
  note fs = same_screen_simps[OF f(1)]
  let ?fb = "f\<lparr>cursor_x := cursor_x f + 1\<rparr>"
  let ?ds = "[((cursor_x f * 16, cursor_y f * 18), glyph_pixels (fb_font fb ! (c - 32)))]"
  have "write_char_impl record_blt c (fb, ds) =
      rbind (nat_sub c 32) (\<lambda>i. rbind (index (fb_font f) i) (\<lambda>g. Inr (?fb, ds @ [((cursor_x f * 16, cursor_y f * 18), glyph_pixels g)])))"
    using assms(2) unfolding write_char_impl_def f_def[symmetric] by (simp add: Let_def f_def[symmetric] record_blt_def FONT_WIDTH_def FONT_HEIGHT_def)
  then have w: "write_char_impl record_blt c (fb, ds) = Inr (?fb, ds @ ?ds)" using assms fs by (simp add: nat_sub_def index_def)
  have s: "same_screen fb ?fb" by (rule same_screen_trans[OF f(1)]) (simp add: same_screen_def)
  have "fills_cells fb ?fb ?ds" if "fb_wf fb" "cursor_y f < n_row fb"
  proof (cases "cursor_x fb \<ge> n_col fb")
    case True
    then have "fills_cells fb f []" "cursor_x f = 0" using newline_fills[OF that(1)] newline_effect(3) that(2) by (simp_all add: f_def)
    moreover from this have "fb_wf f" "cursor_x f < n_col f" by (simp_all add: fills_cells_def fb_wf_def)
    ultimately show ?thesis using fills_cells_trans[OF _ cell_fills] by (metis append_Nil)
  next
    case False
    then show ?thesis using cell_fills[OF that(1)] by (simp add: f_def)
  qed
  then show ?thesis using w s f(2) by (intro exI[of _ ?fb] exI[of _ "(cursor_x f * 16, cursor_y f * 18)"]) simp
qed

lemma write_char_outcome:
  assumes "length (fb_font fb) = 96" and "printable c"
  shows "\<exists>fb' ds'. write_char_impl record_blt c (fb, ds) = Inr (fb', ds @ ds') \<and> same_screen fb fb' \<and> map snd ds' = drawn fb [c] \<and>
    cursor_y fb \<le> cursor_y fb' \<and> (fb_wf fb \<and> cursor_y fb' < n_row fb \<longrightarrow> fills_cells fb fb' ds')"
proof (cases "c = 10")
  case True
  then show ?thesis using newline_effect(1,2)[of fb] newline_fills[of fb]
    by (intro exI[of _ "newline fb"] exI[of _ "[]"]) (simp add: write_char_impl_def drawn_def)
next
  case False
  then have "32 \<le> c" "c < 128" using assms(2) by (simp_all add: printable_def)
  then obtain fb' d where "write_char_impl record_blt c (fb, ds) = Inr (fb', ds @ [(d, glyph_pixels (fb_font fb ! (c - 32)))])" "same_screen fb fb'"
    "cursor_y fb \<le> cursor_y fb'" "fb_wf fb \<and> cursor_y fb' < n_row fb \<longrightarrow> fills_cells fb fb' [(d, glyph_pixels (fb_font fb ! (c - 32)))]"
    using write_glyph[OF assms(1), of c ds] by blast
  then show ?thesis using False by (intro exI[of _ fb'] exI[of _ "[(d, glyph_pixels (fb_font fb ! (c - 32)))]"]) (simp add: drawn_def)
qed

lemma write_str_outcome:
  assumes "length (fb_font fb) = 96" and "list_all printable s"
  shows "\<exists>fb' ds'. fb_write_str record_blt s (fb, ds) = Inr (fb', ds @ ds') \<and> same_screen fb fb' \<and> map snd ds' = drawn fb s \<and>
    cursor_y fb \<le> cursor_y fb' \<and> (fb_wf fb \<and> cursor_y fb' < n_row fb \<longrightarrow> fills_cells fb fb' ds')"
  using assms
proof (induction s arbitrary: fb ds)
  case Nil
  show ?case by (intro exI[of _ fb] exI[of _ "[]"]) (simp add: fb_write_str_def same_screen_def drawn_def fills_cells_def)
next
  case (Cons c s)
  then obtain f1 d1 where 1: "write_char_impl record_blt c (fb, ds) = Inr (f1, ds @ d1)" "same_screen fb f1" "map snd d1 = drawn fb [c]"
    "cursor_y fb \<le> cursor_y f1" "fb_wf fb \<and> cursor_y f1 < n_row fb \<longrightarrow> fills_cells fb f1 d1"
    using write_char_outcome[of fb c ds] by auto
  note fs = same_screen_simps[OF 1(2)]
  obtain f2 d2 where 2: "fb_write_str record_blt s (f1, ds @ d1) = Inr (f2, (ds @ d1) @ d2)" "same_screen f1 f2" "map snd d2 = drawn f1 s"
    "cursor_y f1 \<le> cursor_y f2" "fb_wf f1 \<and> cursor_y f2 < n_row f1 \<longrightarrow> fills_cells f1 f2 d2"
    using Cons.IH[of f1 "ds @ d1"] Cons.prems fs by auto
  have "fills_cells fb f2 (d1 @ d2)" if "fb_wf fb" "cursor_y f2 < n_row fb"
  proof -
    have "fills_cells fb f1 d1" using that 1(5) 2(4) by simp
    moreover from this have "fills_cells f1 f2 d2" using that 2(5) fs(2) by (simp add: fills_cells_def)
    ultimately show ?thesis by (rule fills_cells_trans)
  qed
  then show ?case using 1 2 same_screen_trans[OF 1(2) 2(2)] fs(3)
    by (intro exI[of _ f2] exI[of _ "d1 @ d2"]) (simp add: fb_write_str_def drawn_def)
qed

lemma before_cursor_visible:
  assumes "fb_wf fb" and "cursor_y fb < n_row fb" and "before_cursor fb d"
  shows "fst d + 16 \<le> pixel_width fb \<and> snd d + 18 \<le> pixel_height fb"
proof -
  obtain i j where d: "d = (i * 16, j * 18)" "i < n_col fb" "j < n_row fb" using assms(2,3) by (auto simp: before_cursor_def)
  have "Suc i * 16 \<le> n_col fb * 16" "Suc j * 18 \<le> n_row fb * 18" using d(2,3) by (intro mult_le_mono1; simp)+
  moreover have "n_col fb * 16 \<le> pixel_width fb" "n_row fb * 18 \<le> pixel_height fb" using assms(1) unfolding fb_wf_def by (metis div_times_less_eq_dividend)+
  ultimately show ?thesis unfolding d(1) fst_conv snd_conv mult_Suc by linarith
qed

section \<open>Properties\<close>

text \<open>
  Property: \<^bold>\<open>Text on the screen\<close>. On a new screen with a font of 96 glyphs and room for a column, printing any text of
  printable characters and newlines returns and draws exactly the glyphs of its characters, in order. As long as the
  cursor has not left the last row, each is drawn inside the screen, and no two at the same place.
\<close>

theorem text_is_drawn:
  assumes "framebuffer_new (width, height) text = Inr fb" and "length (fb_font fb) = 96" and "16 \<le> width" and "list_all printable s"
  shows "\<exists>fb' ds. fb_write_str record_blt s (fb, []) = Inr (fb', ds) \<and> map snd ds = drawn fb s \<and>
    (cursor_y fb' < height div 18 \<longrightarrow>
      distinct (map fst ds) \<and> (\<forall>(x, y) \<in> set (map fst ds). x + 16 \<le> width \<and> y + 18 \<le> height))"
proof -
  have fb: "pixel_width fb = width" "pixel_height fb = height" "n_row fb = height div 18" "fb_wf fb"
    using assms(1-3) by (auto simp: framebuffer_new_def res_simps fb_wf_def FONT_WIDTH_def FONT_HEIGHT_def div_greater_zero_iff)
  obtain fb' ds where w: "fb_write_str record_blt s (fb, []) = Inr (fb', ds)" "same_screen fb fb'" "map snd ds = drawn fb s"
    "cursor_y fb' < n_row fb \<longrightarrow> fills_cells fb fb' ds"
    using write_str_outcome[OF assms(2,4), of "[]"] fb(4) by auto
  note fs = same_screen_simps[OF w(2)]
  have "distinct (map fst ds) \<and> (\<forall>d \<in> set (map fst ds). fst d + 16 \<le> width \<and> snd d + 18 \<le> height)" if y: "cursor_y fb' < n_row fb"
  proof -
    have "fills_cells fb fb' ds" using w(4) y by simp
    then have f: "fb_wf fb'" "distinct (map fst ds)" "\<forall>d \<in> set (map fst ds). before_cursor fb' d" by (simp_all add: fills_cells_def)
    then show ?thesis using before_cursor_visible[OF f(1)] y fs(2,4,5) fb(1,2) by simp
  qed
  then show ?thesis using w(1,3) fb(3) by (intro exI[of _ fb'] exI[of _ ds]) (simp add: case_prod_beta)
qed

text \<open>
  Property: \<^bold>\<open>Text below the screen\<close>. In the row below the last, which the cursor reaches, a newline does nothing and characters are
  drawn below the screen, one behind the other.
\<close>

theorem text_below_screen:
  assumes "cursor_y fb = n_row fb" and "n_row fb = height div 18" and "length (fb_font fb) = 96" and "32 \<le> c" and "c < 128"
  shows "write_char_impl record_blt 10 (fb, ds) = Inr (fb, ds) \<and>
    write_char_impl record_blt c (fb, ds) =
      Inr (fb\<lparr>cursor_x := cursor_x fb + 1\<rparr>, ds @ [((cursor_x fb * 16, cursor_y fb * 18), glyph_pixels (fb_font fb ! (c - 32)))]) \<and>
    height < cursor_y fb * 18 + 18"
proof -
  have "newline fb = fb" using assms(1) by (simp add: newline_def)
  moreover have "height < height div 18 * 18 + 18" by presburger
  ultimately show ?thesis using assms
    by (simp add: write_char_impl_def nat_sub_def index_def record_blt_def FONT_WIDTH_def FONT_HEIGHT_def Let_def)
qed

section \<open>Witnesses\<close>

definition sample_fb :: framebuffer where
  "sample_fb = \<lparr>pixel_width = 100, pixel_height = 40, n_col = 6, n_row = 2, cursor_x = 0, cursor_y = 0, fb_font = blank_font\<rparr>"

lemma sample_fb_new: "framebuffer_new (100, 40) [] = Inr sample_fb"
  by (simp add: framebuffer_new_def parse_bdf_def str_lines_def sample_fb_def FONT_WIDTH_def FONT_HEIGHT_def)

theorem text_is_drawn_witness:
  "\<exists>fb' ds. fb_write_str record_blt [65, 66, 10, 67] (sample_fb, []) = Inr (fb', ds) \<and> length (map snd ds) = 3"
  using text_is_drawn[OF sample_fb_new, of "[65, 66, 10, 67]"]
  by (auto simp: sample_fb_def blank_font_def printable_def drawn_def)

theorem text_below_screen_witness:
  "write_char_impl record_blt 10 (sample_fb\<lparr>cursor_y := 2\<rparr>, []) = Inr (sample_fb\<lparr>cursor_y := 2\<rparr>, []) \<and> (40 :: nat) < 2 * 18 + 18"
  using text_below_screen[of "sample_fb\<lparr>cursor_y := 2\<rparr>" 40 65 "[]"] by (simp add: sample_fb_def blank_font_def)

end
