(* ===== verification/Elf.thy ===== *)
theory Elf
  imports Acpi
begin

text \<open>
  The loader of the kernel image (\<open>bootloader/src/loader/elf.rs\<close>). The file is a list of bytes that starts at an address
  aligned to eight, as the allocator of the firmware returns it, and lies outside the segments; a structure is read at the
  offsets of its fields, and reading one that reaches past the file is an invalid access.
\<close>

section \<open>Model\<close>

record program_header =
  p_offset :: usize
  p_paddr :: usize
  p_filesz :: usize
  p_memsz :: usize

record elf_header =
  e_ident :: "u8 list"
  e_entry :: usize
  e_phoff :: usize
  e_phentsize :: u16
  e_phnum :: u16

definition file_field :: "u8 list \<Rightarrow> nat \<Rightarrow> nat \<Rightarrow> 'a :: len word" where
  "file_field file pos n = le_word (take n (drop pos file))"

definition elf_header_of :: "u8 list \<Rightarrow> elf_header" where
  "elf_header_of file = \<lparr>e_ident = take 16 file, e_entry = file_field file 24 8, e_phoff = file_field file 32 8,
     e_phentsize = file_field file 54 2, e_phnum = file_field file 56 2\<rparr>"

definition program_header_at :: "u8 list \<Rightarrow> nat \<Rightarrow> program_header" where
  "program_header_at file pos = \<lparr>p_offset = file_field file (pos + 8) 8, p_paddr = file_field file (pos + 24) 8,
     p_filesz = file_field file (pos + 32) 8, p_memsz = file_field file (pos + 40) 8\<rparr>"

definition program_headers :: "u8 list \<Rightarrow> program_header list" where
  "program_headers file =
     (let h = elf_header_of file in map (\<lambda>i. program_header_at file (unat (e_phoff h) + 56 * i)) [0..<unat (e_phnum h)])"

definition write_mem :: "memory \<Rightarrow> usize \<Rightarrow> u8 list \<Rightarrow> memory" where
  "write_mem mem a bs = (\<lambda>x. if unat (x - a) < length bs then bs ! unat (x - a) else mem x)"

definition load_segment :: "u8 list \<Rightarrow> program_header \<Rightarrow> memory \<Rightarrow> memory res" where
  "load_segment file ph mem =
     (if p_paddr ph = 0 then Inr mem
      else if unat (p_paddr ph) + unat (p_memsz ph) > 2 ^ 64 then Inl InvalidAccess
      else
        let buf = replicate (unat (p_memsz ph)) 0 in
        rbind (slice buf 0 (unat (p_filesz ph))) (\<lambda>_.
        rbind (checked_add (p_offset ph) (p_filesz ph)) (\<lambda>end_offset.
        rbind (slice file (unat (p_offset ph)) (unat end_offset)) (\<lambda>src.
        rbind (write_slice buf 0 src) (\<lambda>buf.
        Inr (write_mem mem (p_paddr ph) buf))))))"

text \<open>The result is the entry point; the text of an error is not modelled.\<close>

definition load_elf :: "u8 list \<Rightarrow> memory \<Rightarrow> ((usize, unit) rust_result \<times> memory) res" where
  "load_elf file mem =
     rbind (index file 0) (\<lambda>_.
     if length file < 64 then Inl InvalidAccess
     else
       let h = elf_header_of file; magic = take 3 (drop 1 (e_ident h)) in
       if \<not> utf8_ok magic then Inr (Err (), mem)
       else
         rbind (rassert (magic = [0x45, 0x4c, 0x46])) (\<lambda>_.
         rbind (index file (unat (e_phoff h))) (\<lambda>_.
         if unat (e_phoff h) mod 8 \<noteq> 0 \<or> length file < unat (e_phoff h) + 56 * (if e_phnum h = 0 then 1 else unat (e_phnum h))
         then Inl InvalidAccess
         else
           rbind (rassert (56 = e_phentsize h)) (\<lambda>_.
           rbind (rfold (load_segment file) (program_headers file) mem) (\<lambda>mem.
           Inr (Ok (e_entry h), mem))))))"

section \<open>Lemmas\<close>

text \<open>An image whose header is right, and whose segments lie in the file and in memory, apart from each other.\<close>

definition segment_ok :: "u8 list \<Rightarrow> program_header \<Rightarrow> bool" where
  "segment_ok file ph \<longleftrightarrow> p_filesz ph \<le> p_memsz ph \<and> unat (p_paddr ph) + unat (p_memsz ph) \<le> 2 ^ 64 \<and>
     unat (p_offset ph) + unat (p_filesz ph) \<le> length file \<and> length file < 2 ^ 64"

definition in_segment :: "program_header \<Rightarrow> usize \<Rightarrow> bool" where
  "in_segment ph x \<longleftrightarrow> unat (p_paddr ph) \<le> unat x \<and> unat x < unat (p_paddr ph) + unat (p_memsz ph)"

definition apart :: "program_header \<Rightarrow> program_header \<Rightarrow> bool" where
  "apart a b \<longleftrightarrow> unat (p_paddr a) + unat (p_memsz a) \<le> unat (p_paddr b) \<or> unat (p_paddr b) + unat (p_memsz b) \<le> unat (p_paddr a)"

definition loadable :: "program_header list \<Rightarrow> program_header list" where
  "loadable phs = filter (\<lambda>ph. p_paddr ph \<noteq> 0) phs"

definition elf_ok :: "u8 list \<Rightarrow> bool" where
  "elf_ok file \<longleftrightarrow> 64 \<le> length file \<and> take 3 (drop 1 file) = [0x45, 0x4c, 0x46] \<and> unat (e_phoff (elf_header_of file)) mod 8 = 0 \<and>
     unat (e_phoff (elf_header_of file)) + 56 * unat (e_phnum (elf_header_of file)) \<le> length file \<and>
     e_phnum (elf_header_of file) \<noteq> 0 \<and> e_phentsize (elf_header_of file) = 56"

text \<open>What a segment has at an address.\<close>

definition segment_byte :: "u8 list \<Rightarrow> program_header \<Rightarrow> usize \<Rightarrow> u8" where
  "segment_byte file ph x =
     (let i = unat x - unat (p_paddr ph) in if i < unat (p_filesz ph) then file ! (unat (p_offset ph) + i) else 0)"

lemma write_mem_at:
  assumes "unat a + length bs \<le> 2 ^ 64"
  shows "write_mem mem a bs x = (if unat a \<le> unat x \<and> unat x < unat a + length bs then bs ! (unat x - unat a) else mem x)"
proof (cases "a \<le> x")
  case True
  then have "unat (x - a) = unat x - unat a" by (simp add: unat_sub)
  then show ?thesis using True by (auto simp: write_mem_def word_le_nat_alt)
next
  case False
  then have lt: "unat x < unat a" by (simp add: word_le_nat_alt)
  have "unat (x - a) = unat x + 2 ^ 64 - unat a" using lt by (simp add: unat_sub_if_size word_size)
  then have "\<not> unat (x - a) < length bs" using lt assms by linarith
  then show ?thesis using lt by (simp add: write_mem_def)
qed

lemma load_segment_ok:
  assumes "segment_ok file ph" and "p_paddr ph \<noteq> 0"
  shows "\<exists>mem'. load_segment file ph mem = Inr mem' \<and> (\<forall>x. mem' x = (if in_segment ph x then segment_byte file ph x else mem x))"
proof -
  let ?n = "unat (p_filesz ph)" and ?o = "unat (p_offset ph)"
  let ?buf = "take ?n (drop ?o file) @ drop ?n (replicate (unat (p_memsz ph)) 0)"
  have s: "?n \<le> unat (p_memsz ph)" "unat (p_paddr ph) + unat (p_memsz ph) \<le> 2 ^ 64" "?o + ?n \<le> length file" "?o + ?n < 2 ^ 64"
    using assms(1) by (simp_all add: segment_ok_def word_le_nat_alt)
  have "checked_add (p_offset ph) (p_filesz ph) = Inr (p_offset ph + p_filesz ph)" "unat (p_offset ph + p_filesz ph) = ?o + ?n"
    using s(4) by (simp_all add: checked_add_eq_Inr unat_add_usize)
  then have l: "load_segment file ph mem = Inr (write_mem mem (p_paddr ph) ?buf)"
    using s assms(2) by (simp add: load_segment_def slice_def write_slice_def min_absorb2)
  have "length ?buf = unat (p_memsz ph)" using s by simp
  then have "write_mem mem (p_paddr ph) ?buf x = (if in_segment ph x then ?buf ! (unat x - unat (p_paddr ph)) else mem x)" for x
    using write_mem_at[of "p_paddr ph" ?buf] s(2) by (simp add: in_segment_def)
  moreover have "?buf ! (unat x - unat (p_paddr ph)) = segment_byte file ph x" if "in_segment ph x" for x
    using that s by (auto simp: in_segment_def segment_byte_def nth_append Let_def)
  ultimately show ?thesis using l by auto
qed

lemma apart_disjoint: "apart a b \<Longrightarrow> in_segment a x \<Longrightarrow> \<not> in_segment b x"
  by (auto simp: apart_def in_segment_def)

lemma load_segments_ok:
  assumes "\<forall>ph \<in> set (loadable phs). segment_ok file ph" and "sorted_wrt apart (loadable phs)"
  shows "\<exists>mem'. rfold (load_segment file) phs mem = Inr mem' \<and>
    (\<forall>ph \<in> set (loadable phs). \<forall>x. in_segment ph x \<longrightarrow> mem' x = segment_byte file ph x) \<and>
    (\<forall>x. (\<forall>ph \<in> set (loadable phs). \<not> in_segment ph x) \<longrightarrow> mem' x = mem x)"
  using assms
proof (induction phs arbitrary: mem)
  case (Cons ph phs)
  show ?case
  proof (cases "p_paddr ph = 0")
    case True
    then show ?thesis using Cons by (simp add: loadable_def load_segment_def)
  next
    case False
    then have l: "loadable (ph # phs) = ph # loadable phs" by (simp add: loadable_def)
    obtain m1 where m1: "load_segment file ph mem = Inr m1" "\<forall>x. m1 x = (if in_segment ph x then segment_byte file ph x else mem x)"
      using load_segment_ok[OF _ False] Cons.prems(1) l by (metis list.set_intros(1))
    obtain m2 where m2: "rfold (load_segment file) phs m1 = Inr m2"
      "\<forall>ph \<in> set (loadable phs). \<forall>x. in_segment ph x \<longrightarrow> m2 x = segment_byte file ph x"
      "\<forall>x. (\<forall>ph \<in> set (loadable phs). \<not> in_segment ph x) \<longrightarrow> m2 x = m1 x"
      using Cons.IH[of m1] Cons.prems l by auto
    have "m2 x = segment_byte file ph x" if "in_segment ph x" for x
      using that m1(2) m2(3) Cons.prems(2) apart_disjoint[of ph _ x] unfolding l by auto
    then show ?thesis using m1 m2 unfolding l by auto
  qed
qed (simp add: loadable_def)

section \<open>Properties\<close>

text \<open>
  C12: \<^bold>\<open>The kernel is loaded\<close>. Of an image with a right header, whose segments with a physical address lie in the file and
  apart from each other in memory, the loader returns the entry point; every such segment is in memory, the bytes of the file
  followed by zeros, and all other memory is as it was.
\<close>

theorem kernel_is_loaded:
  assumes "elf_ok file" and "\<forall>ph \<in> set (loadable (program_headers file)). segment_ok file ph" and "sorted_wrt apart (loadable (program_headers file))"
  shows "\<exists>mem'. load_elf file mem = Inr (Ok (e_entry (elf_header_of file)), mem') \<and>
    (\<forall>ph \<in> set (loadable (program_headers file)). \<forall>x. in_segment ph x \<longrightarrow> mem' x = segment_byte file ph x) \<and>
    (\<forall>x. (\<forall>ph \<in> set (loadable (program_headers file)). \<not> in_segment ph x) \<longrightarrow> mem' x = mem x)"
proof -
  let ?h = "elf_header_of file"
  have ok: "64 \<le> length file" "take 3 (drop 1 (e_ident ?h)) = [0x45, 0x4c, 0x46]" "unat (e_phoff ?h) mod 8 = 0" "e_phentsize ?h = 56"
    "unat (e_phoff ?h) + 56 * unat (e_phnum ?h) \<le> length file" "e_phnum ?h \<noteq> 0" "unat (e_phoff ?h) < length file"
    using assms(1) unat_gt_0[of "e_phnum ?h"] unfolding elf_ok_def by (simp_all add: elf_header_of_def drop_take)
  obtain mem' where m: "rfold (load_segment file) (program_headers file) mem = Inr mem'"
    "\<forall>ph \<in> set (loadable (program_headers file)). \<forall>x. in_segment ph x \<longrightarrow> mem' x = segment_byte file ph x"
    "\<forall>x. (\<forall>ph \<in> set (loadable (program_headers file)). \<not> in_segment ph x) \<longrightarrow> mem' x = mem x"
    using load_segments_ok[OF assms(2,3)] by blast
  have "index file 0 = Inr (file ! 0)" "index file (unat (e_phoff ?h)) = Inr (file ! unat (e_phoff ?h))" using ok(1,7) by (auto simp: index_def)
  moreover have "utf8_ok [0x45, 0x4c, 0x46]" by simp
  ultimately have "load_elf file mem = Inr (Ok (e_entry ?h), mem')" using ok m(1) by (simp add: load_elf_def Let_def not_less)
  then show ?thesis using m by blast
qed

section \<open>Witnesses\<close>

text \<open>An image with one segment of four bytes, two of them in the file, at \<open>0x100000\<close>, and a header that is not loaded.\<close>

definition sample_image :: "u8 list" where
  "sample_image =
     [0x7f, 0x45, 0x4c, 0x46, 2, 1, 1, 0, 0, 0, 0, 0, 0, 0, 0, 0] @ [2, 0, 62, 0, 1, 0, 0, 0] @ [2, 0, 0x10, 0, 0, 0, 0, 0] @
     [64, 0, 0, 0, 0, 0, 0, 0] @ [0, 0, 0, 0, 0, 0, 0, 0] @ [0, 0, 0, 0] @ [64, 0, 56, 0, 2, 0] @ [0, 0, 0, 0, 0, 0] @
     [1, 0, 0, 0, 5, 0, 0, 0] @ [176, 0, 0, 0, 0, 0, 0, 0] @ [0, 0, 0x10, 0, 0, 0, 0, 0] @ [0, 0, 0x10, 0, 0, 0, 0, 0] @
     [2, 0, 0, 0, 0, 0, 0, 0] @ [4, 0, 0, 0, 0, 0, 0, 0] @ [0, 0, 0, 0, 0, 0, 0, 0] @
     replicate 56 0 @ [0xaa, 0xbb]"

lemma sample_image_header:
  "elf_header_of sample_image = \<lparr>e_ident = take 16 sample_image, e_entry = 0x100002, e_phoff = 64, e_phentsize = 56, e_phnum = 2\<rparr>"
  "length sample_image = 178"
  by (simp_all add: elf_header_of_def file_field_def sample_image_def)

lemma le_word_zeros: "le_word (replicate n 0) = 0"
  by (induction n) simp_all

lemma sample_image_headers:
  "loadable (program_headers sample_image) = [\<lparr>p_offset = 176, p_paddr = 0x100000, p_filesz = 2, p_memsz = 4\<rparr>]"
proof -
  have "program_header_at sample_image 64 = \<lparr>p_offset = 176, p_paddr = 0x100000, p_filesz = 2, p_memsz = 4\<rparr>"
    "program_header_at sample_image 120 = \<lparr>p_offset = 0, p_paddr = 0, p_filesz = 0, p_memsz = 0\<rparr>"
    by (simp_all add: program_header_at_def file_field_def sample_image_def le_word_zeros)
  then show ?thesis by (simp add: program_headers_def sample_image_header loadable_def upt_rec)
qed

theorem kernel_is_loaded_witness:
  "\<exists>mem'. load_elf sample_image (\<lambda>_. 7) = Inr (Ok 0x100002, mem') \<and>
    mem' 0x100000 = 0xaa \<and> mem' 0x100001 = 0xbb \<and> mem' 0x100002 = 0 \<and> mem' 0x100003 = 0 \<and> mem' 0x100004 = 7"
proof -
  have "elf_ok sample_image" unfolding elf_ok_def sample_image_header by (simp add: sample_image_def)
  moreover have "\<forall>ph \<in> set (loadable (program_headers sample_image)). segment_ok sample_image ph"
    by (simp add: sample_image_headers segment_ok_def sample_image_header)
  moreover have "sorted_wrt apart (loadable (program_headers sample_image))" by (simp add: sample_image_headers)
  ultimately obtain mem' where m: "load_elf sample_image (\<lambda>_. 7) = Inr (Ok 0x100002, mem')"
    "\<And>x. in_segment \<lparr>p_offset = 176, p_paddr = 0x100000, p_filesz = 2, p_memsz = 4\<rparr> x \<Longrightarrow>
       mem' x = segment_byte sample_image \<lparr>p_offset = 176, p_paddr = 0x100000, p_filesz = 2, p_memsz = 4\<rparr> x"
    "\<And>x. \<not> in_segment \<lparr>p_offset = 176, p_paddr = 0x100000, p_filesz = 2, p_memsz = 4\<rparr> x \<Longrightarrow> mem' x = 7"
    using kernel_is_loaded[of sample_image "\<lambda>_. 7"] by (auto simp: sample_image_headers sample_image_header)
  have "sample_image ! 176 = 0xaa" "sample_image ! 177 = 0xbb" by (simp_all add: sample_image_def nth_append)
  then show ?thesis using m(1) by (intro exI[of _ mem']) (simp add: m(2,3) in_segment_def segment_byte_def)
qed

end
